theory Spec2Isabelle
  imports
    Complex_Main
    "HOL-Library.AList"
    "HOL-Library.Char_ord"
    "HOL-Library.List_Lexorder"
    "HOL-Library.Multiset"
    "HOL-Library.Product_Lexorder"
    "HOL-Library.Word"
begin

unbundle bit_operations_syntax

section \<open>Python values, errors and dictionaries\<close>

text \<open>
  Exceptions of the Python source are values of \<open>py_error\<close>; a function that can raise
  returns \<open>py_error + 'a\<close>. A \<open>dict\<close> keeps
  insertion order, which the recommender observes through stable sorting, so a dict
  whose order is read is an association list: \<open>map_of\<close> is lookup and
  \<open>AList.update\<close> is assignment (in place for an existing key, at the end for a
  new one).
\<close>

datatype py_error = ValueError | KeyError | ZeroDivisionError | TypeError | IndexError | AttributeError

datatype pyval = PyNum real | PyStr string

type_synonym ('k, 'v) dict = "('k \<times> 'v) list"

text \<open>\<open>d[k] += a\<close> on a \<open>defaultdict(float)\<close> or \<open>defaultdict(int)\<close>: a missing key starts from zero.\<close>

definition defaultdict_add :: "'k \<Rightarrow> 'a::{zero,plus} \<Rightarrow> ('k, 'a) dict \<Rightarrow> ('k, 'a) dict" where
  "defaultdict_add k a d =
     AList.update k ((case map_of d k of None \<Rightarrow> 0 | Some v \<Rightarrow> v) + a) d"

subsection \<open>Floats\<close>

text \<open>
  A Python float is an IEEE 754 double and is kept as the real number it denotes. An
  operation on doubles returns the exact result rounded to the nearest double, ties to
  the even significand; \<open>double_round\<close> is that rounding to 53 significant bits. The
  exponent is not bounded: overflow to infinity and the subnormal numbers are left out.
  \<open>double_add\<close> and \<open>double_sub\<close> are \<open>+\<close> and \<open>-\<close> on floats. They stand where a
  result below depends on the rounding: the age of a cache entry and the sum of
  similarity weights. The other arithmetic on floats is that of the reals.
\<close>

definition round_half_even :: "real \<Rightarrow> int" where
  "round_half_even y =
     (let f = \<lfloor>y\<rfloor>; r = y - of_int f
      in if r < 1 / 2 then f else if 1 / 2 < r then f + 1 else if even f then f else f + 1)"

definition double_round :: "real \<Rightarrow> real" where
  "double_round x =
     (if x = 0 then 0
      else let ulp = 2 powr (of_int \<lfloor>log 2 \<bar>x\<bar>\<rfloor> - 52)
           in of_int (round_half_even (x / ulp)) * ulp)"

definition double_add :: "real \<Rightarrow> real \<Rightarrow> real" where
  "double_add x y = double_round (x + y)"

definition double_sub :: "real \<Rightarrow> real \<Rightarrow> real" where
  "double_sub x y = double_round (x - y)"

lemma round_half_even_int [simp]: "round_half_even (of_int z) = z"
  by (simp add: round_half_even_def)

lemma double_round_at:
  assumes "2 powr of_int e \<le> \<bar>x\<bar>" "\<bar>x\<bar> < 2 powr (of_int e + 1)"
  shows "double_round x = of_int (round_half_even (x / 2 powr (of_int e - 52))) * 2 powr (of_int e - 52)"
proof -
  have pos: "0 < \<bar>x\<bar>" using assms(1) by (smt (verit) powr_gt_zero)
  then have x: "x \<noteq> 0" by auto
  have "\<lfloor>log 2 \<bar>x\<bar>\<rfloor> = e"
  proof (rule floor_unique)
    show "of_int e \<le> log 2 \<bar>x\<bar>" using assms(1) pos by (simp add: le_log_iff)
    show "log 2 \<bar>x\<bar> < of_int e + 1" using assms(2) pos by (simp add: log_less_iff)
  qed
  then show ?thesis using x by (simp add: double_round_def Let_def)
qed

lemma double_round_dyadic:
  assumes "\<bar>m\<bar> < 2 ^ 53"
  shows "double_round (of_int m * 2 powr of_int k) = of_int m * 2 powr of_int k"
proof (cases "m = 0")
  case True
  then show ?thesis by (simp add: double_round_def)
next
  case False
  define j where "j = \<lfloor>log 2 (of_int \<bar>m\<bar>)\<rfloor>"
  have m1: "1 \<le> (of_int \<bar>m\<bar> :: real)" using False by (simp add: int_one_le_iff_zero_less)
  have j0: "0 \<le> j" unfolding j_def using m1 by simp
  have mpos: "0 < (of_int \<bar>m\<bar> :: real)" using m1 by linarith
  have "of_int j \<le> log 2 (of_int \<bar>m\<bar>)" by (simp add: j_def)
  then have "(2::real) powr of_int j \<le> 2 powr log 2 (of_int \<bar>m\<bar>)" by simp
  then have lo: "(2::real) powr of_int j \<le> of_int \<bar>m\<bar>" using mpos by simp
  have "log 2 (of_int \<bar>m\<bar>) < of_int j + 1" by (simp add: j_def)
  then have "(2::real) powr log 2 (of_int \<bar>m\<bar>) < 2 powr (of_int j + 1)" by simp
  then have hi: "of_int \<bar>m\<bar> < (2::real) powr (of_int j + 1)" using mpos by simp
  have "(of_int \<bar>m\<bar> :: real) < 2 ^ 53" using assms by (metis of_int_less_iff of_int_numeral of_int_power)
  moreover have p53: "(2::real) powr of_int (53::int) = 2 ^ 53" by (simp add: powr_real_of_int)
  ultimately have "(2::real) powr of_int j < 2 powr of_int (53::int)" using lo by linarith
  then have "(of_int j :: real) < of_int (53::int)" by (subst (asm) powr_less_cancel_iff) simp_all
  then have j52: "j \<le> 52" by linarith
  let ?x = "of_int m * 2 powr of_int k :: real"
  have ax: "\<bar>?x\<bar> = of_int \<bar>m\<bar> * 2 powr of_int k" by (simp add: abs_mult)
  have 1: "2 powr of_int (j + k) \<le> \<bar>?x\<bar>"
    unfolding ax using lo by (simp add: powr_add)
  have 2: "\<bar>?x\<bar> < 2 powr (of_int (j + k) + 1)"
    unfolding ax using hi by (simp add: powr_add algebra_simps)
  define U :: real where "U = 2 powr (of_int (j + k) - 52)"
  define P :: real where "P = 2 powr of_int (52 - j)"
  have U: "0 < U" by (simp add: U_def)
  have e1: "(of_int k :: real) = of_int (52 - j) + (of_int (j + k) - 52)" by simp
  have PU: "2 powr of_int k = P * U" unfolding P_def U_def by (subst e1) (rule powr_add)
  have "(2::real) powr of_int (52 - j) = 2 ^ nat (52 - j)"
    using j52 by (subst powr_real_of_int) simp_all
  then have Pn: "P = of_int (2 ^ nat (52 - j))" unfolding P_def by simp
  have q: "?x / U = of_int (m * 2 ^ nat (52 - j))"
    unfolding PU using U by (simp add: Pn)
  have "double_round ?x = of_int (m * 2 ^ nat (52 - j)) * U"
    unfolding double_round_at [OF 1 2] U_def [symmetric] q by (simp only: round_half_even_int)
  also have "\<dots> = of_int m * (P * U)" by (simp add: Pn)
  finally show ?thesis unfolding PU .
qed

lemma double_round_int:
  "\<bar>m\<bar> < 2 ^ 53 \<Longrightarrow> double_round (of_int m) = of_int m"
  using double_round_dyadic [of m 0] by simp

lemma double_round_numeral [simp]:
  "numeral n < (2::int) ^ 53 \<Longrightarrow> double_round (numeral n) = numeral n"
  using double_round_int [of "numeral n"] by simp

lemma double_round_0 [simp]: "double_round 0 = 0" by (simp add: double_round_def)
lemma double_round_1 [simp]: "double_round 1 = 1" using double_round_int [of 1] by simp

section \<open>linked\_list.py: LinkedPurchaseHistory\<close>

text \<open>
  A purchase's data is a dict (or absent). The singly linked list is only ever extended at
  its head, so the chain of nodes from \<open>head\<close> is a HOL list, newest node first.
\<close>

type_synonym purchase_data = "(string, pyval) dict"

record linked_purchase_history =
  nodes :: "(string \<times> purchase_data) list"
  size_lph :: nat

definition LinkedPurchaseHistory :: linked_purchase_history where
  "LinkedPurchaseHistory = \<lparr>nodes = [], size_lph = 0\<rparr>"

definition lph_add_purchase ::
  "string \<Rightarrow> purchase_data option \<Rightarrow> linked_purchase_history \<Rightarrow> linked_purchase_history" where
  "lph_add_purchase item_id purchase_data h =
     h\<lparr>nodes := (item_id, (case purchase_data of None \<Rightarrow> [] | Some d \<Rightarrow> d)) # nodes h,
       size_lph := size_lph h + 1\<rparr>"

definition lph_to_list :: "linked_purchase_history \<Rightarrow> string list" where
  "lph_to_list h = map fst (nodes h)"

section \<open>user.py: User and UserStore\<close>

record user =
  user_id :: string
  user_info :: "(string, pyval) dict"
  purchase_history :: linked_purchase_history
  preferences :: "(string, real) dict"
  category_spending :: "(string, real) dict"
  total_spent :: real

definition User :: "string \<Rightarrow> (string, pyval) dict option \<Rightarrow> user" where
  "User uid uinfo =
     \<lparr>user_id = uid, user_info = (case uinfo of None \<Rightarrow> [] | Some d \<Rightarrow> d),
      purchase_history = LinkedPurchaseHistory, preferences = [],
      category_spending = [], total_spent = 0\<rparr>"

text \<open>
  \<open>amount = purchase_data.get('total_amount', 0) if purchase_data else 1.0\<close>:
  an absent or empty dict gives the unit weight, a dict without the key gives 0.
  Adding a string amount to a float raises TypeError.
\<close>

definition purchase_amount :: "purchase_data option \<Rightarrow> py_error + real" where
  "purchase_amount purchase_data =
     (case purchase_data of
        None \<Rightarrow> Inr 1
      | Some d \<Rightarrow>
          if d = [] then Inr 1
          else (case map_of d ''total_amount'' of
                  None \<Rightarrow> Inr 0
                | Some (PyNum a) \<Rightarrow> Inr a
                | Some (PyStr _) \<Rightarrow> Inl TypeError))"

definition user_add_purchase ::
  "string \<Rightarrow> string \<Rightarrow> purchase_data option \<Rightarrow> user \<Rightarrow> py_error + user" where
  "user_add_purchase item_id category purchase_data u =
     (case purchase_amount purchase_data of
        Inl e \<Rightarrow> Inl e
      | Inr amount \<Rightarrow>
          Inr (u\<lparr>purchase_history := lph_add_purchase item_id purchase_data (purchase_history u),
                 preferences := defaultdict_add category amount (preferences u),
                 category_spending := defaultdict_add category amount (category_spending u),
                 total_spent := total_spent u + amount\<rparr>))"

definition set_preference :: "string \<Rightarrow> real \<Rightarrow> user \<Rightarrow> user" where
  "set_preference category score u = u\<lparr>preferences := AList.update category score (preferences u)\<rparr>"

definition get_items :: "user \<Rightarrow> string list" where
  "get_items u = lph_to_list (purchase_history u)"

text \<open>
  \<open>get_preferences(normalized=True)\<close>: an empty dict is returned as it is; otherwise every
  score is divided by the sum of all scores, and Python raises ZeroDivisionError when the
  sum is zero.
\<close>

definition get_preferences :: "user \<Rightarrow> py_error + (string, real) dict" where
  "get_preferences u =
     (if preferences u = [] then Inr []
      else let total = sum_list (map snd (preferences u))
           in if total = 0 then Inl ZeroDivisionError
              else Inr (map (\<lambda>(cat, score). (cat, score / total)) (preferences u)))"

record user_store =
  users :: "(string, user) dict"
  user_categories :: "(string, string list) dict"

definition UserStore :: user_store where
  "UserStore = \<lparr>users = [], user_categories = []\<rparr>"

definition add_user :: "string \<Rightarrow> (string, pyval) dict option \<Rightarrow> user_store \<Rightarrow> user_store" where
  "add_user uid uinfo s =
     (if uid \<notin> fst ` set (users s) then s\<lparr>users := AList.update uid (User uid uinfo) (users s)\<rparr>
      else s)"

text \<open>
  \<open>UserStore.add_purchase\<close>. After \<open>add_user\<close> the user exists, so \<open>self.users[user_id]\<close>
  cannot raise KeyError; the branch is written out all the same. Reading
  \<open>self.user_categories[user_id]\<close> on the \<open>defaultdict(list)\<close> creates an empty list for a
  new user.
\<close>

definition add_purchase ::
  "string \<Rightarrow> string \<Rightarrow> string \<Rightarrow> purchase_data option \<Rightarrow> user_store \<Rightarrow> py_error + user_store" where
  "add_purchase uid item_id category purchase_data s =
     (let s1 = add_user uid None s in
      case map_of (users s1) uid of
        None \<Rightarrow> Inl KeyError
      | Some u \<Rightarrow>
          (case user_add_purchase item_id category purchase_data u of
             Inl e \<Rightarrow> Inl e
           | Inr u' \<Rightarrow>
               let s2 = s1\<lparr>users := AList.update uid u' (users s1)\<rparr>;
                   cats = (case map_of (user_categories s2) uid of None \<Rightarrow> [] | Some cs \<Rightarrow> cs)
               in Inr (s2\<lparr>user_categories :=
                            AList.update uid (if category \<notin> set cats then cats @ [category] else cats)
                              (user_categories s2)\<rparr>)))"

definition store_set_preference :: "string \<Rightarrow> string \<Rightarrow> real \<Rightarrow> user_store \<Rightarrow> py_error + user_store" where
  "store_set_preference uid category score s =
     (let s1 = add_user uid None s in
      case map_of (users s1) uid of
        None \<Rightarrow> Inl KeyError
      | Some u \<Rightarrow> Inr (s1\<lparr>users := AList.update uid (set_preference category score u) (users s1)\<rparr>))"

text \<open>\<open>get_similar_users\<close> with the default \<open>min_common_categories = 2\<close>.\<close>

definition get_similar_users :: "user_store \<Rightarrow> string \<Rightarrow> string list" where
  "get_similar_users s uid =
     (if uid \<notin> fst ` set (users s) then []
      else let target_categories =
                 set (case map_of (user_categories s) uid of None \<Rightarrow> [] | Some cs \<Rightarrow> cs)
           in map fst (filter (\<lambda>(other_id, categories).
                  other_id \<noteq> uid \<and> 2 \<le> card (target_categories \<inter> set categories))
                (user_categories s)))"


subsection \<open>Recording a purchase\<close>

text \<open>Reading \<open>d[k]\<close> on a \<open>defaultdict\<close> of numbers: zero for a missing key.\<close>

definition defaultdict_get :: "('k, 'a::zero) dict \<Rightarrow> 'k \<Rightarrow> 'a" where
  "defaultdict_get d k = (case map_of d k of None \<Rightarrow> 0 | Some v \<Rightarrow> v)"






section \<open>optimized\_hash\_table.py: OptimizedHashTable\<close>

text \<open>
  A stored value is any Python object, \<open>None\<close> included: values are \<open>'v option\<close>, with HOL's
  \<open>None\<close> for Python's. \<open>size\<close> is an \<open>int\<close> because \<open>delete\<close> decrements it without looking
  at it. The capacity is the non-negative \<open>initial_capacity\<close>, doubled by every resize.
\<close>

record 'v hash_table =
  capacity :: nat
  size_ht :: int
  buckets :: "(string \<times> 'v option) list list"

definition OptimizedHashTable :: "nat \<Rightarrow> 'v hash_table" where
  "OptimizedHashTable initial_capacity =
     \<lparr>capacity = initial_capacity, size_ht = 0, buckets = replicate initial_capacity []\<rparr>"

text \<open>FNV-1a on 32 bits: xor with the character, multiply by the prime, keep 32 bits.\<close>

definition fnv1a :: "string \<Rightarrow> 32 word" where
  "fnv1a key = fold (\<lambda>char hash_value. (hash_value XOR of_char char) * 16777619) key 2166136261"

definition hash_ht :: "'v hash_table \<Rightarrow> string \<Rightarrow> py_error + nat" where
  "hash_ht t key =
     (if key = [] then Inr 0
      else if capacity t = 0 then Inl ZeroDivisionError
      else Inr (unat (fnv1a key) mod capacity t))"

text \<open>
  The scan of a bucket in \<open>insert\<close>: the first pair with the key is replaced in place;
  \<open>None\<close> when the key is not in the bucket.
\<close>

fun bucket_replace ::
  "string \<Rightarrow> 'v option \<Rightarrow> (string \<times> 'v option) list \<Rightarrow> (string \<times> 'v option) list option" where
  "bucket_replace key val [] = None"
| "bucket_replace key val ((existing_key, old) # bucket) =
     (if existing_key = key then Some ((key, val) # bucket)
      else map_option ((#) (existing_key, old)) (bucket_replace key val bucket))"

text \<open>
  The second half of \<open>insert\<close>, after the resize check: hash, read the bucket, replace or
  append. The boolean is the return value (\<open>True\<close> for a new key).
\<close>

definition insert_into_bucket ::
  "'v hash_table \<Rightarrow> string \<Rightarrow> 'v option \<Rightarrow> py_error + ('v hash_table \<times> bool)" where
  "insert_into_bucket t key val =
     (case hash_ht t key of
        Inl e \<Rightarrow> Inl e
      | Inr index \<Rightarrow>
          if length (buckets t) \<le> index then Inl IndexError
          else (case bucket_replace key val (buckets t ! index) of
                  Some bucket' \<Rightarrow> Inr (t\<lparr>buckets := (buckets t)[index := bucket']\<rparr>, False)
                | None \<Rightarrow>
                    Inr (t\<lparr>buckets := (buckets t)[index := buckets t ! index @ [(key, val)]],
                           size_ht := size_ht t + 1\<rparr>, True)))"

text \<open>
  The loop of \<open>_resize\<close> over the old pairs, calling \<open>insert\<close> (here \<open>ins\<close>) on each; an
  exception of \<open>insert\<close> ends it.
\<close>

fun rehash_with ::
  "('t \<Rightarrow> string \<Rightarrow> 'v \<Rightarrow> (py_error + ('t \<times> bool)) option) \<Rightarrow> (string \<times> 'v) list \<Rightarrow> 't
     \<Rightarrow> (py_error + 't) option" where
  "rehash_with ins [] t = Some (Inr t)"
| "rehash_with ins ((key, val) # rest) t =
     (case ins t key val of
        None \<Rightarrow> None
      | Some (Inl e) \<Rightarrow> Some (Inl e)
      | Some (Inr (t', _)) \<Rightarrow> rehash_with ins rest t')"

text \<open>
  \<open>insert\<close> and \<open>_resize\<close> call each other: \<open>insert\<close> resizes when \<open>size / capacity > 0.75\<close>
  (that is \<open>4 * size > 3 * capacity\<close>), and \<open>_resize\<close> re-inserts every old pair into the
  doubled, emptied table, each such \<open>insert\<close> checking the load again. The recursion is
  bounded by fuel, the depth of nested calls of \<open>insert\<close>; \<open>None\<close> is fuel exhausted.
  An empty key raises before anything else; a zero capacity raises in the division.
\<close>

primrec ht_insert ::
  "nat \<Rightarrow> 'v hash_table \<Rightarrow> string \<Rightarrow> 'v option \<Rightarrow> (py_error + ('v hash_table \<times> bool)) option" where
  "ht_insert 0 = (\<lambda>t key val. None)"
| "ht_insert (Suc fuel) = (\<lambda>t key val.
     if key = [] then Some (Inl ValueError)
     else if capacity t = 0 then Some (Inl ZeroDivisionError)
     else if 3 * int (capacity t) < 4 * size_ht t then
       (case rehash_with (ht_insert fuel) (concat (buckets t))
               (t\<lparr>capacity := 2 * capacity t,
                  buckets := replicate (2 * capacity t) [],
                  size_ht := 0\<rparr>) of
          None \<Rightarrow> None
        | Some (Inl e) \<Rightarrow> Some (Inl e)
        | Some (Inr t') \<Rightarrow> Some (insert_into_bucket t' key val))
     else Some (insert_into_bucket t key val))"

definition resize :: "nat \<Rightarrow> 'v hash_table \<Rightarrow> (py_error + 'v hash_table) option" where
  "resize fuel t =
     rehash_with (ht_insert fuel) (concat (buckets t))
       (t\<lparr>capacity := 2 * capacity t, buckets := replicate (2 * capacity t) [], size_ht := 0\<rparr>)"

text \<open>\<open>get\<close>: \<open>None\<close> for an empty key, for a missing key, and for a key that stores \<open>None\<close>.\<close>

definition ht_get :: "'v hash_table \<Rightarrow> string \<Rightarrow> py_error + 'v option" where
  "ht_get t key =
     (if key = [] then Inr None
      else case hash_ht t key of
        Inl e \<Rightarrow> Inl e
      | Inr index \<Rightarrow>
          if length (buckets t) \<le> index then Inl IndexError
          else Inr (case map_of (buckets t ! index) key of None \<Rightarrow> None | Some val \<Rightarrow> val))"

text \<open>The scan of a bucket in \<open>delete\<close>: the first pair with the key is removed.\<close>

fun bucket_delete :: "string \<Rightarrow> (string \<times> 'v) list \<Rightarrow> (string \<times> 'v) list option" where
  "bucket_delete key [] = None"
| "bucket_delete key ((existing_key, old) # bucket) =
     (if existing_key = key then Some bucket
      else map_option ((#) (existing_key, old)) (bucket_delete key bucket))"

definition ht_delete :: "'v hash_table \<Rightarrow> string \<Rightarrow> py_error + ('v hash_table \<times> bool)" where
  "ht_delete t key =
     (if key = [] then Inr (t, False)
      else case hash_ht t key of
        Inl e \<Rightarrow> Inl e
      | Inr index \<Rightarrow>
          if length (buckets t) \<le> index then Inl IndexError
          else (case bucket_delete key (buckets t ! index) of
                  Some bucket' \<Rightarrow>
                    Inr (t\<lparr>buckets := (buckets t)[index := bucket'], size_ht := size_ht t - 1\<rparr>, True)
                | None \<Rightarrow> Inr (t, False)))"

definition ht_contains :: "'v hash_table \<Rightarrow> string \<Rightarrow> py_error + bool" where
  "ht_contains t key = (case ht_get t key of Inl e \<Rightarrow> Inl e | Inr val \<Rightarrow> Inr (val \<noteq> None))"

text \<open>\<open>__getitem__\<close>: KeyError when \<open>get\<close> gives \<open>None\<close>.\<close>

definition ht_getitem :: "'v hash_table \<Rightarrow> string \<Rightarrow> py_error + 'v" where
  "ht_getitem t key =
     (case ht_get t key of
        Inl e \<Rightarrow> Inl e
      | Inr None \<Rightarrow> Inl KeyError
      | Inr (Some val) \<Rightarrow> Inr val)"

definition ht_items :: "'v hash_table \<Rightarrow> (string \<times> 'v option) list" where
  "ht_items t = concat (buckets t)"

definition ht_keys :: "'v hash_table \<Rightarrow> string list" where
  "ht_keys t = map fst (concat (buckets t))"


subsection \<open>Well-formed tables and the entries they hold\<close>

text \<open>
  The invariant of the table: every bucket holds distinct, non-empty keys that hash to
  its index, there are \<open>capacity\<close> buckets, and \<open>size\<close> counts the stored pairs.
  \<open>wf_table\<close> adds the load bound that holds between two public calls. \<open>entries\<close> is
  the mapping a table stands for.
\<close>

definition bucket_ok :: "nat \<Rightarrow> nat \<Rightarrow> (string \<times> 'v option) list \<Rightarrow> bool" where
  "bucket_ok cap i b \<longleftrightarrow>
     distinct (map fst b) \<and> (\<forall>k \<in> fst ` set b. k \<noteq> [] \<and> unat (fnv1a k) mod cap = i)"

definition table_ok :: "'v hash_table \<Rightarrow> bool" where
  "table_ok t \<longleftrightarrow>
     0 < capacity t \<and> length (buckets t) = capacity t
     \<and> (\<forall>i < capacity t. bucket_ok (capacity t) i (buckets t ! i))
     \<and> size_ht t = int (length (concat (buckets t)))"

definition wf_table :: "'v hash_table \<Rightarrow> bool" where
  "wf_table t \<longleftrightarrow> table_ok t \<and> 4 * (size_ht t - 1) \<le> 3 * int (capacity t)"

definition entries :: "'v hash_table \<Rightarrow> string \<rightharpoonup> 'v option" where
  "entries t = (\<lambda>key. if key = [] then None
                       else map_of (buckets t ! (unat (fnv1a key) mod capacity t)) key)"

lemma bucket_replace_None: "bucket_replace k v b = None \<longleftrightarrow> k \<notin> fst ` set b"
  by (induction b) (auto simp: image_iff split: if_splits)

lemma bucket_replace_Some:
  "bucket_replace k v b = Some b' \<Longrightarrow>
     map fst b' = map fst b \<and> map_of b' = (map_of b)(k \<mapsto> v)"
  by (induction b arbitrary: b') (auto simp: fun_upd_twist split: if_splits)

lemma bucket_delete_None: "bucket_delete k b = None \<longleftrightarrow> k \<notin> fst ` set b"
  by (induction b) (auto simp: image_iff split: if_splits)

lemma bucket_delete_Some:
  "bucket_delete k b = Some b' \<Longrightarrow> distinct (map fst b) \<Longrightarrow>
     distinct (map fst b') \<and> set b' \<subseteq> set b \<and> map_of b' = (map_of b)(k := None)
     \<and> Suc (length b') = length b"
proof (induction b arbitrary: b')
  case Nil
  then show ?case by simp
next
  case (Cons p b)
  obtain k' v' where p: "p = (k', v')" by (cases p)
  show ?case
  proof (cases "k' = k")
    case True
    with Cons.prems p have "b' = b" by simp
    moreover have "map_of b k = None" using Cons.prems p True
      by (simp add: map_of_eq_None_iff)
    ultimately show ?thesis using Cons.prems p True by (auto simp: fun_eq_iff)
  next
    case False
    with Cons.prems p obtain b'' where b'': "bucket_delete k b = Some b''" "b' = (k', v') # b''"
      by auto
    from Cons.IH [OF b''(1)] Cons.prems(2) p
    have ih: "distinct (map fst b'')" "set b'' \<subseteq> set b" "map_of b'' = (map_of b)(k := None)"
      "Suc (length b'') = length b" by auto
    show ?thesis using ih b'' p False Cons.prems(2) by (auto simp: fun_eq_iff)
  qed
qed

lemma length_concat_update:
  "i < length xs \<Longrightarrow> length (concat (xs[i := y])) + length (xs ! i) = length (concat xs) + length y"
  by (induction xs arbitrary: i) (auto split: nat.splits)

lemma distinct_keys_concat:
  "(\<forall>i < length bs. distinct (map fst (bs ! i)) \<and> (\<forall>k \<in> fst ` set (bs ! i). h k = off + i))
     \<Longrightarrow> distinct (map fst (concat bs))"
proof (induction bs arbitrary: off)
  case Nil
  then show ?case by simp
next
  case (Cons b bs)
  have hd: "distinct (map fst b)" "\<forall>k \<in> fst ` set b. h k = off"
    using Cons.prems [rule_format, of 0] by auto
  have tl: "\<forall>i < length bs. distinct (map fst (bs ! i)) \<and> (\<forall>k \<in> fst ` set (bs ! i). h k = Suc off + i)"
    using Cons.prems [rule_format, of "Suc i" for i] by auto
  have "h k \<noteq> off" if "k \<in> fst ` set (concat bs)" for k
  proof -
    from that obtain b' where "b' \<in> set bs" "k \<in> fst ` set b'" by auto
    then obtain j where "j < length bs" "bs ! j = b'" by (auto simp: in_set_conv_nth)
    with tl \<open>k \<in> fst ` set b'\<close> have "h k = Suc off + j" by auto
    then show ?thesis by simp
  qed
  with hd Cons.IH [OF tl] show ?case by (auto simp: image_iff) 
qed

lemma table_ok_distinct:
  assumes "table_ok t"
  shows "distinct (map fst (concat (buckets t)))"
  using assms distinct_keys_concat [of "buckets t" "\<lambda>k. unat (fnv1a k) mod capacity t" 0]
  by (simp add: table_ok_def bucket_ok_def)

lemma entries_iff:
  assumes "table_ok t"
  shows "entries t k = Some v \<longleftrightarrow> (k, v) \<in> set (concat (buckets t))"
proof
  assume e: "entries t k = Some v"
  then have k: "k \<noteq> []" by (auto simp: entries_def split: if_splits)
  let ?i = "unat (fnv1a k) mod capacity t"
  have "?i < length (buckets t)" using assms by (simp add: table_ok_def)
  moreover have "(k, v) \<in> set (buckets t ! ?i)" using e k by (auto simp: entries_def dest: map_of_SomeD)
  ultimately show "(k, v) \<in> set (concat (buckets t))" using nth_mem by fastforce
next
  assume "(k, v) \<in> set (concat (buckets t))"
  then obtain b where "b \<in> set (buckets t)" "(k, v) \<in> set b" by auto
  then obtain i where i: "i < length (buckets t)" "(k, v) \<in> set (buckets t ! i)"
    by (auto simp: in_set_conv_nth)
  with assms have ok: "bucket_ok (capacity t) i (buckets t ! i)" by (simp add: table_ok_def)
  with i have "k \<noteq> []" "unat (fnv1a k) mod capacity t = i"
    by (force simp: bucket_ok_def)+
  moreover have "map_of (buckets t ! i) k = Some v" using ok i by (simp add: bucket_ok_def)
  ultimately show "entries t k = Some v" by (simp add: entries_def)
qed

lemma table_ok_map_of:
  assumes "table_ok t"
  shows "map_of (concat (buckets t)) = entries t"
proof (rule ext)
  fix k
  show "map_of (concat (buckets t)) k = entries t k"
  proof (cases "entries t k")
    case None
    then have "k \<notin> fst ` set (concat (buckets t))"
      using entries_iff [OF assms, of k] by force
    with None show ?thesis by (simp add: map_of_eq_None_iff)
  next
    case (Some v)
    then show ?thesis using entries_iff [OF assms, of k v] table_ok_distinct [OF assms] by simp
  qed
qed

lemma table_ok_size:
  assumes "table_ok t"
  shows "size_ht t = int (card (dom (entries t)))"
proof -
  have "card (dom (map_of (concat (buckets t)))) = card (set (map fst (concat (buckets t))))"
    by (simp only: dom_map_of_conv_image_fst set_map)
  also have "\<dots> = length (map fst (concat (buckets t)))"
    using table_ok_distinct [OF assms] by (rule distinct_card)
  finally have "card (dom (map_of (concat (buckets t)))) = length (concat (buckets t))"
    by simp
  then show ?thesis using assms table_ok_map_of [OF assms] by (simp add: table_ok_def)
qed

lemma map_of_snoc_new:
  "k \<notin> fst ` set b \<Longrightarrow> map_of (b @ [(k, v)]) = (map_of b)(k \<mapsto> v)"
proof (rule ext)
  fix x
  assume "k \<notin> fst ` set b"
  then have "map_of b k = None" by (simp add: map_of_eq_None_iff)
  then show "map_of (b @ [(k, v)]) x = ((map_of b)(k \<mapsto> v)) x"
    by (cases "map_of b x") (auto simp: map_add_def)
qed

lemma table_ok_update_bucket:
  assumes ok: "table_ok t" and i: "i < capacity t"
    and b: "bucket_ok (capacity t) i b'"
    and sz: "n = size_ht t + int (length b') - int (length (buckets t ! i))"
  shows "table_ok (t\<lparr>buckets := (buckets t)[i := b'], size_ht := n\<rparr>)"
proof -
  have len: "length (buckets t) = capacity t" using ok by (simp add: table_ok_def)
  have "length (concat ((buckets t)[i := b'])) + length (buckets t ! i)
          = length (concat (buckets t)) + length b'"
    using length_concat_update [of i "buckets t" b'] i len by simp
  then have "n = int (length (concat ((buckets t)[i := b'])))"
    using sz ok by (simp add: table_ok_def)
  moreover have "bucket_ok (capacity t) j ((buckets t)[i := b'] ! j)" if "j < capacity t" for j
    using that ok b len by (cases "j = i") (auto simp: table_ok_def)
  ultimately show ?thesis using ok by (simp add: table_ok_def)
qed

lemma entries_update_bucket:
  assumes i: "i < length (buckets t)" and k: "k \<noteq> []" "unat (fnv1a k) mod capacity t = i"
    and m: "map_of b' = (map_of (buckets t ! i))(k := x)"
  shows "entries (t\<lparr>buckets := (buckets t)[i := b'], size_ht := n\<rparr>) = (entries t)(k := x)"
proof (rule ext)
  fix k'
  show "entries (t\<lparr>buckets := (buckets t)[i := b'], size_ht := n\<rparr>) k' = ((entries t)(k := x)) k'"
  proof (cases "unat (fnv1a k') mod capacity t = i")
    case True
    then show ?thesis using i k m by (simp add: entries_def)
  next
    case False
    then have "k' \<noteq> k" using k by auto
    then show ?thesis using False i by (simp add: entries_def)
  qed
qed

lemma insert_into_bucket_ok:
  assumes ok: "table_ok t" and k: "k \<noteq> []"
  shows "\<exists>t'. insert_into_bucket t k v = Inr (t', entries t k = None) \<and> table_ok t'
            \<and> capacity t' = capacity t \<and> entries t' = (entries t)(k \<mapsto> v)
            \<and> size_ht t' \<le> size_ht t + 1"
proof -
  let ?i = "unat (fnv1a k) mod capacity t"
  let ?b = "buckets t ! ?i"
  have cap: "0 < capacity t" and len: "length (buckets t) = capacity t"
    using ok by (simp_all add: table_ok_def)
  have i: "?i < capacity t" using cap by simp
  have bok: "bucket_ok (capacity t) ?i ?b" using ok i by (simp add: table_ok_def)
  have h: "hash_ht t k = Inr ?i" using k cap by (simp add: hash_ht_def)
  have e: "entries t k = map_of ?b k" using k by (simp add: entries_def)
  show ?thesis
  proof (cases "bucket_replace k v ?b")
    case None
    then have new: "k \<notin> fst ` set ?b" by (simp add: bucket_replace_None)
    let ?b' = "?b @ [(k, v)]"
    let ?t' = "t\<lparr>buckets := (buckets t)[?i := ?b'], size_ht := size_ht t + 1\<rparr>"
    have "bucket_ok (capacity t) ?i ?b'" using bok new k by (auto simp: bucket_ok_def)
    then have "table_ok ?t'" using table_ok_update_bucket [OF ok i, of ?b' "size_ht t + 1"] by simp
    moreover have "entries ?t' = (entries t)(k \<mapsto> v)"
      using entries_update_bucket [of ?i t k ?b' "Some v" "size_ht t + 1"] i len k
        map_of_snoc_new [OF new] by simp
    moreover have "insert_into_bucket t k v = Inr (?t', True)"
      using h i len None by (simp add: insert_into_bucket_def)
    moreover have "entries t k = None" using e new by (simp add: map_of_eq_None_iff)
    ultimately show ?thesis by auto
  next
    case (Some b')
    from bucket_replace_Some [OF Some]
    have b': "map fst b' = map fst ?b" "map_of b' = (map_of ?b)(k \<mapsto> v)" by auto
    have lb: "length b' = length ?b" using b'(1) by (metis length_map)
    have sb: "fst ` set b' = fst ` set ?b" using b'(1) by (metis set_map)
    let ?t' = "t\<lparr>buckets := (buckets t)[?i := b']\<rparr>"
    have t'eq: "?t' = t\<lparr>buckets := (buckets t)[?i := b'], size_ht := size_ht t\<rparr>" by simp
    have "bucket_ok (capacity t) ?i b'" using bok b'(1) sb by (simp add: bucket_ok_def)
    then have "table_ok ?t'"
      using table_ok_update_bucket [OF ok i, of b' "size_ht t"] lb by simp
    moreover have "entries ?t' = (entries t)(k \<mapsto> v)"
      using entries_update_bucket [of ?i t k b' "Some v" "size_ht t"] i len k b'(2) by simp
    moreover have "insert_into_bucket t k v = Inr (?t', False)"
      using h i len Some by (simp add: insert_into_bucket_def)
    moreover have "entries t k \<noteq> None"
      using e Some bucket_replace_None [of k v ?b] by (simp add: map_of_eq_None_iff)
    ultimately show ?thesis by auto
  qed
qed

lemma ht_get_entries:
  assumes "table_ok t"
  shows "ht_get t k = Inr (case entries t k of None \<Rightarrow> None | Some v \<Rightarrow> v)"
proof -
  have "0 < capacity t" "length (buckets t) = capacity t" using assms by (simp_all add: table_ok_def)
  moreover from this have "\<not> capacity t \<le> unat (fnv1a k) mod capacity t"
    by (simp add: not_le)
  ultimately show ?thesis by (simp add: ht_get_def hash_ht_def entries_def)
qed

lemma ht_delete_ok:
  assumes ok: "table_ok t"
  shows "\<exists>t'. ht_delete t k = Inr (t', entries t k \<noteq> None) \<and> table_ok t'
            \<and> capacity t' = capacity t \<and> entries t' = (entries t)(k := None)
            \<and> size_ht t' \<le> size_ht t"
proof (cases "k = []")
  case True
  then have "entries t k = None" by (simp add: entries_def)
  then have "(entries t)(k := None) = entries t" by (auto simp: fun_eq_iff)
  then show ?thesis using True ok \<open>entries t k = None\<close> by (simp add: ht_delete_def)
next
  case k: False
  let ?i = "unat (fnv1a k) mod capacity t"
  let ?b = "buckets t ! ?i"
  have cap: "0 < capacity t" and len: "length (buckets t) = capacity t"
    using ok by (simp_all add: table_ok_def)
  have i: "?i < capacity t" using cap by simp
  have bok: "bucket_ok (capacity t) ?i ?b" using ok i by (simp add: table_ok_def)
  have h: "hash_ht t k = Inr ?i" using k cap by (simp add: hash_ht_def)
  have e: "entries t k = map_of ?b k" using k by (simp add: entries_def)
  show ?thesis
  proof (cases "bucket_delete k ?b")
    case None
    then have "k \<notin> fst ` set ?b" by (simp add: bucket_delete_None)
    then have "entries t k = None" using e by (simp add: map_of_eq_None_iff)
    moreover from this have "(entries t)(k := None) = entries t" by (auto simp: fun_eq_iff)
    moreover have "ht_delete t k = Inr (t, False)"
      using h i len None k by (simp add: ht_delete_def)
    ultimately show ?thesis using ok by simp
  next
    case (Some b')
    from bucket_delete_Some [OF Some] bok
    have b': "distinct (map fst b')" "set b' \<subseteq> set ?b" "map_of b' = (map_of ?b)(k := None)"
      "Suc (length b') = length ?b" by (auto simp: bucket_ok_def)
    let ?t' = "t\<lparr>buckets := (buckets t)[?i := b'], size_ht := size_ht t - 1\<rparr>"
    have "bucket_ok (capacity t) ?i b'" using bok b'(1,2) by (auto simp: bucket_ok_def)
    then have "table_ok ?t'"
      using table_ok_update_bucket [OF ok i, of b' "size_ht t - 1"] b'(4) by simp
    moreover have "entries ?t' = (entries t)(k := None)"
      using entries_update_bucket [of ?i t k b' None "size_ht t - 1"] i len k b'(3) by simp
    moreover have "ht_delete t k = Inr (?t', True)"
      using h i len Some k by (simp add: ht_delete_def)
    moreover have "entries t k \<noteq> None"
      using e Some bucket_delete_None [of k ?b] by (simp add: map_of_eq_None_iff)
    ultimately show ?thesis by auto
  qed
qed

lemma ht_insert_Suc:
  "ht_insert (Suc fuel) t key val =
     (if key = [] then Some (Inl ValueError)
      else if capacity t = 0 then Some (Inl ZeroDivisionError)
      else if 3 * int (capacity t) < 4 * size_ht t then
        (case resize fuel t of
           None \<Rightarrow> None
         | Some (Inl e) \<Rightarrow> Some (Inl e)
         | Some (Inr t') \<Rightarrow> Some (insert_into_bucket t' key val))
      else Some (insert_into_bucket t key val))"
  by (simp add: resize_def)

declare ht_insert.simps [simp del]

lemma map_of_rev_distinct: "distinct (map fst xs) \<Longrightarrow> map_of (rev xs) = map_of xs"
  by (subst map_of_inject_set) (simp_all flip: rev_map)

lemma fold_upd_map_of:
  "fold (\<lambda>(k, v) m. m(k \<mapsto> v)) xs m = m ++ map_of (rev xs)"
  by (induction xs arbitrary: m) (auto simp: map_add_def fun_eq_iff split: option.splits)

lemma rehash_ok:
  assumes "table_ok t" "\<forall>k \<in> fst ` set xs. k \<noteq> []"
    and "4 * (size_ht t + int (length xs) - 1) \<le> 3 * int (capacity t)"
  shows "\<exists>t'. rehash_with (ht_insert (Suc n)) xs t = Some (Inr t') \<and> table_ok t'
            \<and> capacity t' = capacity t
            \<and> entries t' = fold (\<lambda>(k, v) m. m(k \<mapsto> v)) xs (entries t)"
  using assms
proof (induction xs arbitrary: t)
  case Nil
  then show ?case by simp
next
  case (Cons p xs)
  obtain k v where p: "p = (k, v)" by (cases p)
  have k: "k \<noteq> []" using Cons.prems(2) p by simp
  have cap: "0 < capacity t" using Cons.prems(1) by (simp add: table_ok_def)
  have noresize: "\<not> 3 * int (capacity t) < 4 * size_ht t" using Cons.prems(3) by simp
  from insert_into_bucket_ok [OF Cons.prems(1) k, of v]
  obtain t1 where t1: "insert_into_bucket t k v = Inr (t1, entries t k = None)" "table_ok t1"
    "capacity t1 = capacity t" "entries t1 = (entries t)(k \<mapsto> v)" "size_ht t1 \<le> size_ht t + 1"
    by blast
  have ins: "ht_insert (Suc n) t k v = Some (Inr (t1, entries t k = None))"
    using k cap noresize t1(1) by (simp add: ht_insert_Suc)
  have "4 * (size_ht t1 + int (length xs) - 1) \<le> 3 * int (capacity t1)"
    using Cons.prems(3) t1(3,5) by simp
  moreover have "\<forall>k \<in> fst ` set xs. k \<noteq> []" using Cons.prems(2) by simp
  ultimately obtain t' where "rehash_with (ht_insert (Suc n)) xs t1 = Some (Inr t')" "table_ok t'"
    "capacity t' = capacity t1"
    "entries t' = fold (\<lambda>(k, v) m. m(k \<mapsto> v)) xs (entries t1)"
    using Cons.IH [OF t1(2)] by blast
  then show ?case using ins p t1(3,4) by (simp del: fun_upd_apply)
qed

lemma table_ok_keys_nonempty:
  assumes "table_ok t"
  shows "\<forall>k \<in> fst ` set (concat (buckets t)). k \<noteq> []"
proof
  fix k assume "k \<in> fst ` set (concat (buckets t))"
  then obtain v where "(k, v) \<in> set (concat (buckets t))" by force
  then have "entries t k = Some v" using entries_iff [OF assms] by simp
  then show "k \<noteq> []" by (auto simp: entries_def split: if_splits)
qed

lemma resize_ok:
  assumes wf: "wf_table t"
  shows "\<exists>t'. resize (Suc n) t = Some (Inr t') \<and> table_ok t' \<and> capacity t' = 2 * capacity t
            \<and> entries t' = entries t \<and> size_ht t' = size_ht t"
proof -
  have ok: "table_ok t" and load: "4 * (size_ht t - 1) \<le> 3 * int (capacity t)"
    using wf by (simp_all add: wf_table_def)
  let ?t0 = "t\<lparr>capacity := 2 * capacity t, buckets := replicate (2 * capacity t) [], size_ht := 0\<rparr>"
  let ?xs = "concat (buckets t)"
  have ok0: "table_ok ?t0" using ok by (simp add: table_ok_def bucket_ok_def)
  have e0: "entries ?t0 = Map.empty" using ok by (auto simp: entries_def fun_eq_iff table_ok_def)
  have "size_ht t = int (length ?xs)" using ok by (simp add: table_ok_def)
  then have "4 * (size_ht ?t0 + int (length ?xs) - 1) \<le> 3 * int (capacity ?t0)"
    using load by simp
  from rehash_ok [OF ok0 table_ok_keys_nonempty [OF ok] this, of n]
  obtain t' where t': "rehash_with (ht_insert (Suc n)) ?xs ?t0 = Some (Inr t')" "table_ok t'"
    "capacity t' = capacity ?t0"
    "entries t' = fold (\<lambda>(k, v) m. m(k \<mapsto> v)) ?xs (entries ?t0)" by blast
  have "entries t' = map_of (rev ?xs)" using t'(4) e0 by (simp add: fold_upd_map_of)
  also have "\<dots> = map_of ?xs" using table_ok_distinct [OF ok] by (rule map_of_rev_distinct)
  also have "\<dots> = entries t" by (rule table_ok_map_of [OF ok])
  finally have e: "entries t' = entries t" .
  then have "size_ht t' = size_ht t" using table_ok_size [OF ok] table_ok_size [OF t'(2)] by simp
  with t' e show ?thesis by (simp add: resize_def)
qed

lemma ht_insert_ok:
  assumes wf: "wf_table t" and k: "k \<noteq> []"
  shows "\<exists>t'. ht_insert (Suc (Suc n)) t k v = Some (Inr (t', entries t k = None)) \<and> wf_table t'
            \<and> entries t' = (entries t)(k \<mapsto> v)"
proof -
  have ok: "table_ok t" and load: "4 * (size_ht t - 1) \<le> 3 * int (capacity t)"
    using wf by (simp_all add: wf_table_def)
  have cap: "0 < capacity t" using ok by (simp add: table_ok_def)
  show ?thesis
  proof (cases "3 * int (capacity t) < 4 * size_ht t")
    case True
    from resize_ok [OF wf, of n]
    obtain t1 where t1: "resize (Suc n) t = Some (Inr t1)" "table_ok t1"
      "capacity t1 = 2 * capacity t" "entries t1 = entries t" "size_ht t1 = size_ht t" by blast
    from insert_into_bucket_ok [OF t1(2) k, of v]
    obtain t' where t': "insert_into_bucket t1 k v = Inr (t', entries t1 k = None)" "table_ok t'"
      "capacity t' = capacity t1" "entries t' = (entries t1)(k \<mapsto> v)" "size_ht t' \<le> size_ht t1 + 1"
      by blast
    have "1 \<le> int (capacity t)" using cap by simp
    then have "4 * (size_ht t' - 1) \<le> 3 * int (capacity t')"
      using t'(3,5) t1(3,5) load by arith
    then have "wf_table t'" using t'(2) by (simp add: wf_table_def)
    moreover have "ht_insert (Suc (Suc n)) t k v = Some (Inr (t', entries t k = None))"
      using True k cap t1(1,4) t'(1) by (simp add: ht_insert_Suc)
    ultimately show ?thesis using t'(4) t1(4) by simp
  next
    case False
    from insert_into_bucket_ok [OF ok k, of v]
    obtain t' where t': "insert_into_bucket t k v = Inr (t', entries t k = None)" "table_ok t'"
      "capacity t' = capacity t" "entries t' = (entries t)(k \<mapsto> v)" "size_ht t' \<le> size_ht t + 1"
      by blast
    have "4 * (size_ht t' - 1) \<le> 3 * int (capacity t')" using t'(3,5) False by simp
    then have "wf_table t'" using t'(2) by (simp add: wf_table_def)
    moreover have "ht_insert (Suc (Suc n)) t k v = Some (Inr (t', entries t k = None))"
      using False k cap t'(1) by (simp add: ht_insert_Suc)
    ultimately show ?thesis using t'(4) by simp
  qed
qed

lemma wf_OptimizedHashTable:
  "0 < c \<Longrightarrow> wf_table (OptimizedHashTable c) \<and> entries (OptimizedHashTable c) = Map.empty"
  by (auto simp: wf_table_def table_ok_def bucket_ok_def OptimizedHashTable_def entries_def fun_eq_iff)

subsection \<open>Sequences of operations\<close>

text \<open>
  A caller's sequence of \<open>insert\<close> and \<open>delete\<close> calls, stopped by the first exception.
  \<open>most_recent k\<close> reads a history, latest operation first: the value of the latest
  insert of \<open>k\<close>, or nothing when the latest operation on \<open>k\<close> is a delete or there is none.
\<close>

datatype 'v table_op = Insert string "'v option" | Delete string

fun run_ops :: "nat \<Rightarrow> 'v table_op list \<Rightarrow> 'v hash_table \<Rightarrow> (py_error + 'v hash_table) option" where
  "run_ops fuel [] t = Some (Inr t)"
| "run_ops fuel (Insert key val # ops) t =
     (case ht_insert fuel t key val of
        None \<Rightarrow> None
      | Some (Inl e) \<Rightarrow> Some (Inl e)
      | Some (Inr (t', _)) \<Rightarrow> run_ops fuel ops t')"
| "run_ops fuel (Delete key # ops) t =
     (case ht_delete t key of
        Inl e \<Rightarrow> Some (Inl e)
      | Inr (t', _) \<Rightarrow> run_ops fuel ops t')"

fun most_recent :: "string \<Rightarrow> 'v table_op list \<Rightarrow> 'v option option" where
  "most_recent k [] = None"
| "most_recent k (Insert key val # earlier) = (if key = k then Some val else most_recent k earlier)"
| "most_recent k (Delete key # earlier) = (if key = k then None else most_recent k earlier)"

fun insert_keys_ok :: "'v table_op list \<Rightarrow> bool" where
  "insert_keys_ok [] = True"
| "insert_keys_ok (Insert key val # ops) = (key \<noteq> [] \<and> insert_keys_ok ops)"
| "insert_keys_ok (Delete key # ops) = insert_keys_ok ops"

fun replay :: "'v table_op list \<Rightarrow> (string \<rightharpoonup> 'v option) \<Rightarrow> (string \<rightharpoonup> 'v option)" where
  "replay [] m = m"
| "replay (Insert key val # ops) m = replay ops (m(key \<mapsto> val))"
| "replay (Delete key # ops) m = replay ops (m(key := None))"

lemma replay_append: "replay (xs @ ys) m = replay ys (replay xs m)"
  by (induction xs m rule: replay.induct) (simp_all del: fun_upd_apply)

lemma replay_most_recent: "replay ops Map.empty k = most_recent k (rev ops)"
proof (induction ops rule: rev_induct)
  case Nil
  then show ?case by simp
next
  case (snoc op ops)
  then show ?case by (cases op) (simp_all add: replay_append)
qed

lemma insert_keys_ok_append: "insert_keys_ok (xs @ ys) \<longleftrightarrow> insert_keys_ok xs \<and> insert_keys_ok ys"
  by (induction xs rule: insert_keys_ok.induct) simp_all

lemma run_ops_ok:
  assumes "wf_table t" "insert_keys_ok ops"
  shows "\<exists>t'. run_ops (Suc (Suc n)) ops t = Some (Inr t') \<and> wf_table t'
            \<and> entries t' = replay ops (entries t)"
  using assms
proof (induction ops arbitrary: t)
  case Nil
  then show ?case by simp
next
  case (Cons op ops)
  show ?case
  proof (cases op)
    case (Insert k v)
    with Cons.prems have k: "k \<noteq> []" and rest: "insert_keys_ok ops" by simp_all
    from ht_insert_ok [OF Cons.prems(1) k, of n v]
    obtain t1 where t1: "ht_insert (Suc (Suc n)) t k v = Some (Inr (t1, entries t k = None))"
      "wf_table t1" "entries t1 = (entries t)(k \<mapsto> v)" by blast
    from Cons.IH [OF t1(2) rest] t1(1,3) Insert show ?thesis by (simp del: fun_upd_apply)
  next
    case (Delete k)
    with Cons.prems have rest: "insert_keys_ok ops" by simp
    have ok: "table_ok t" and load: "4 * (size_ht t - 1) \<le> 3 * int (capacity t)"
      using Cons.prems(1) by (simp_all add: wf_table_def)
    from ht_delete_ok [OF ok, of k]
    obtain t1 where t1: "ht_delete t k = Inr (t1, entries t k \<noteq> None)" "table_ok t1"
      "capacity t1 = capacity t" "entries t1 = (entries t)(k := None)" "size_ht t1 \<le> size_ht t"
      by blast
    have "wf_table t1" using t1(2,3,5) load by (simp add: wf_table_def)
    from Cons.IH [OF this rest] t1(1,4) Delete show ?thesis by (simp del: fun_upd_apply)
  qed
qed

text \<open>
  Claim C1. From a fresh table of positive capacity, every sequence of inserts (with
  non-empty keys) and deletes runs to the end with fuel 2 or more; in the final table
  \<open>get k\<close> is the value of the most recent insert of \<open>k\<close>, and \<open>None\<close> when the most recent
  operation on \<open>k\<close> is a delete or \<open>k\<close> was never inserted; the stored pairs are exactly the
  live entries, each key once, and \<open>size\<close> counts them. Growth loses and duplicates
  nothing: resizing the table doubles the capacity and keeps the pairs, the size and
  every \<open>get\<close>.
\<close>

theorem keyed_table_reflects_latest:
  fixes ops :: "'v table_op list"
  assumes "0 < c" and "insert_keys_ok ops"
  shows "\<exists>t. run_ops (Suc (Suc n)) ops (OptimizedHashTable c) = Some (Inr t)
           \<and> (\<forall>k. ht_get t k = Inr (case most_recent k (rev ops) of None \<Rightarrow> None | Some v \<Rightarrow> v))
           \<and> distinct (ht_keys t)
           \<and> set (ht_items t) = {(k, v). most_recent k (rev ops) = Some v}
           \<and> size_ht t = int (length (ht_items t))
           \<and> (\<exists>t'. resize (Suc n) t = Some (Inr t') \<and> capacity t' = 2 * capacity t
                  \<and> distinct (ht_keys t') \<and> set (ht_items t') = set (ht_items t)
                  \<and> size_ht t' = size_ht t \<and> (\<forall>k. ht_get t' k = ht_get t k))"
proof -
  have wf0: "wf_table (OptimizedHashTable c :: 'v hash_table)"
    and e0: "entries (OptimizedHashTable c :: 'v hash_table) = Map.empty"
    using wf_OptimizedHashTable [OF assms(1)] by blast+
  from run_ops_ok [OF wf0 assms(2), of n]
  obtain t where t: "run_ops (Suc (Suc n)) ops (OptimizedHashTable c) = Some (Inr t)" "wf_table t"
    "entries t = replay ops (entries (OptimizedHashTable c :: 'v hash_table))" by blast
  have ok: "table_ok t" using t(2) by (simp add: wf_table_def)
  have e: "entries t k = most_recent k (rev ops)" for k
    using t(3) e0 by (simp add: replay_most_recent)
  have items: "set (ht_items t') = {(k, v). entries t' k = Some v}" if "table_ok t'" for t' :: "'v hash_table"
    using entries_iff [OF that] by (auto simp: ht_items_def)
  from resize_ok [OF t(2), of n]
  obtain t' where t': "resize (Suc n) t = Some (Inr t')" "table_ok t'" "capacity t' = 2 * capacity t"
    "entries t' = entries t" "size_ht t' = size_ht t" by blast
  have "\<forall>k. ht_get t k = Inr (case most_recent k (rev ops) of None \<Rightarrow> None | Some v \<Rightarrow> v)"
    using ht_get_entries [OF ok] e by simp
  moreover have "distinct (ht_keys t)" using table_ok_distinct [OF ok] by (simp add: ht_keys_def)
  moreover have "set (ht_items t) = {(k, v). most_recent k (rev ops) = Some v}"
    using items [OF ok] e by simp
  moreover have "size_ht t = int (length (ht_items t))" using ok by (simp add: table_ok_def ht_items_def)
  moreover have "distinct (ht_keys t')" using table_ok_distinct [OF t'(2)] by (simp add: ht_keys_def)
  moreover have "set (ht_items t') = set (ht_items t)" using items [OF ok] items [OF t'(2)] t'(4) by simp
  moreover have "\<forall>k. ht_get t' k = ht_get t k"
    using ht_get_entries [OF ok] ht_get_entries [OF t'(2)] t'(4) by simp
  ultimately show ?thesis using t(1) t'(1,3,5) by blast
qed


theorem keyed_table_reflects_latest_witness:
  "0 < (1::nat)
   \<and> insert_keys_ok [Insert ''a'' (Some (1::nat)), Insert ''b'' (Some 2), Delete ''a'', Insert ''b'' (Some 3)]
   \<and> (\<exists>t. run_ops (Suc (Suc 0))
              [Insert ''a'' (Some (1::nat)), Insert ''b'' (Some 2), Delete ''a'', Insert ''b'' (Some 3)]
              (OptimizedHashTable 1) = Some (Inr t)
          \<and> ht_get t ''a'' = Inr None \<and> ht_get t ''b'' = Inr (Some 3)
          \<and> (''b'', Some 3) \<in> set (ht_items t) \<and> (''a'', Some 1) \<notin> set (ht_items t))"
proof -
  let ?ops = "[Insert ''a'' (Some (1::nat)), Insert ''b'' (Some 2), Delete ''a'', Insert ''b'' (Some 3)]"
  have h1: "0 < (1::nat)" by simp
  have h2: "insert_keys_ok ?ops" by simp
  from keyed_table_reflects_latest [OF h1 h2, of 0]
  obtain t where t: "run_ops (Suc (Suc 0)) ?ops (OptimizedHashTable 1) = Some (Inr t)"
    "\<forall>k. ht_get t k = Inr (case most_recent k (rev ?ops) of None \<Rightarrow> None | Some v \<Rightarrow> v)"
    "set (ht_items t) = {(k, v). most_recent k (rev ?ops) = Some v}"
    by blast
  have "ht_get t ''a'' = Inr None" "ht_get t ''b'' = Inr (Some 3)" using t(2) by simp_all
  moreover have "(''b'', Some 3) \<in> set (ht_items t)" "(''a'', Some 1) \<notin> set (ht_items t)"
    using t(3) by simp_all
  ultimately show ?thesis using t(1) h2 by blast
qed

text \<open>
  Claim C10. In any table reached from a fresh one, inserting \<open>None\<close> under a non-empty key
  succeeds; afterwards \<open>get\<close> gives \<open>None\<close>, \<open>contains\<close> is false and \<open>__getitem__\<close> raises
  KeyError, although the pair is stored and counted in \<open>size\<close>. A key that is not stored
  gives the same three answers.
\<close>

theorem none_value_behaves_absent:
  fixes ops :: "'v table_op list"
  assumes "0 < c" and "insert_keys_ok ops"
    and "run_ops (Suc (Suc n)) ops (OptimizedHashTable c) = Some (Inr t)"
    and "k \<noteq> []"
  shows "\<exists>t' is_new. ht_insert (Suc (Suc n)) t k None = Some (Inr (t', is_new))
           \<and> ht_get t' k = Inr None
           \<and> ht_contains t' k = Inr False
           \<and> ht_getitem t' k = Inl KeyError
           \<and> (k, None) \<in> set (ht_items t')
           \<and> k \<in> set (ht_keys t')
           \<and> size_ht t' = int (length (ht_items t'))
           \<and> (\<forall>k'. k' \<notin> set (ht_keys t') \<longrightarrow>
                  ht_get t' k' = Inr None \<and> ht_contains t' k' = Inr False
                  \<and> ht_getitem t' k' = Inl KeyError)"
proof -
  have wf0: "wf_table (OptimizedHashTable c :: 'v hash_table)"
    using wf_OptimizedHashTable [OF assms(1)] by blast
  from run_ops_ok [OF wf0 assms(2), of n] assms(3)
  have wf: "wf_table t" by auto
  from ht_insert_ok [OF wf assms(4), of n None]
  obtain t' where t': "ht_insert (Suc (Suc n)) t k None = Some (Inr (t', entries t k = None))"
    "wf_table t'" "entries t' = (entries t)(k \<mapsto> None)" by blast
  have ok: "table_ok t'" using t'(2) by (simp add: wf_table_def)
  have g: "ht_get t' k = Inr None" using ht_get_entries [OF ok, of k] t'(3) by simp
  have mem: "(k, None) \<in> set (ht_items t')"
    using entries_iff [OF ok, of k None] t'(3) by (simp add: ht_items_def)
  then have key: "k \<in> set (ht_keys t')" by (force simp: ht_keys_def ht_items_def)
  have sz: "size_ht t' = int (length (ht_items t'))" using ok by (simp add: table_ok_def ht_items_def)
  have absent: "ht_get t' k' = Inr None" if "k' \<notin> set (ht_keys t')" for k'
  proof -
    have "map_of (concat (buckets t')) k' = None"
      using that by (simp add: ht_keys_def map_of_eq_None_iff)
    then have "entries t' k' = None" using table_ok_map_of [OF ok] by simp
    then show ?thesis using ht_get_entries [OF ok, of k'] by simp
  qed
  show ?thesis
    using t'(1) g mem key sz absent by (auto simp: ht_contains_def ht_getitem_def)
qed

theorem none_value_behaves_absent_witness:
  "\<exists>t' is_new. ht_insert (Suc (Suc 0)) (OptimizedHashTable 1) ''a'' (None :: nat option) = Some (Inr (t', is_new))
     \<and> ht_get t' ''a'' = Inr None
     \<and> ht_contains t' ''a'' = Inr False
     \<and> ht_getitem t' ''a'' = Inl KeyError
     \<and> (''a'', None) \<in> set (ht_items t')
     \<and> size_ht t' = int (length (ht_items t'))"
proof -
  have h1: "0 < (1::nat)" by simp
  have h2: "insert_keys_ok ([] :: nat table_op list)" by simp
  have h3: "run_ops (Suc (Suc 0)) ([] :: nat table_op list) (OptimizedHashTable 1) = Some (Inr (OptimizedHashTable 1))"
    by simp
  have h4: "''a'' \<noteq> []" by simp
  from none_value_behaves_absent [OF h1 h2 h3 h4] show ?thesis by blast
qed


section \<open>bitmap\_index.py: BitmapIndex\<close>

text \<open>
  Each category maps to a set of integer handles; two dictionaries translate between item
  identifiers and handles. The query methods return a list built by iterating over a
  Python set, whose order is not specified: the model returns the set of its elements.
\<close>

record bitmap_index =
  bitmaps :: "string \<rightharpoonup> nat set"
  item_to_index :: "string \<rightharpoonup> nat"
  index_to_item :: "nat \<rightharpoonup> string"
  index_counter :: nat
  total_items :: nat

definition BitmapIndex :: bitmap_index where
  "BitmapIndex = \<lparr>bitmaps = Map.empty, item_to_index = Map.empty, index_to_item = Map.empty,
                   index_counter = 0, total_items = 0\<rparr>"

definition add_item :: "string \<Rightarrow> string \<Rightarrow> bitmap_index \<Rightarrow> bitmap_index \<times> bool" where
  "add_item category item_id s =
     (let s1 = (if item_to_index s item_id = None
                then s\<lparr>item_to_index := (item_to_index s)(item_id \<mapsto> index_counter s),
                       index_to_item := (index_to_item s)(index_counter s \<mapsto> item_id),
                       index_counter := index_counter s + 1,
                       total_items := total_items s + 1\<rparr>
                else s);
          item_index = the (item_to_index s1 item_id);
          bitmap = (case bitmaps s1 category of None \<Rightarrow> {} | Some b \<Rightarrow> b)
      in (s1\<lparr>bitmaps := (bitmaps s1)(category \<mapsto> insert item_index bitmap)\<rparr>,
          item_index \<notin> bitmap))"

definition remove_item :: "string \<Rightarrow> string \<Rightarrow> bitmap_index \<Rightarrow> bitmap_index \<times> bool" where
  "remove_item category item_id s =
     (case item_to_index s item_id of
        None \<Rightarrow> (s, False)
      | Some item_index \<Rightarrow>
          (case bitmaps s category of
             None \<Rightarrow> (s, False)
           | Some bitmap \<Rightarrow>
               if item_index \<in> bitmap then
                 (if bitmap - {item_index} = {}
                  then s\<lparr>bitmaps := (bitmaps s)(category := None)\<rparr>
                  else s\<lparr>bitmaps := (bitmaps s)(category \<mapsto> bitmap - {item_index})\<rparr>, True)
               else (s, False)))"

text \<open>
  The comprehension \<open>[self.index_to_item[idx] for idx in result_indices]\<close> that ends every
  query; a handle without an item raises KeyError.
\<close>

definition resolve :: "bitmap_index \<Rightarrow> nat set \<Rightarrow> py_error + string set" where
  "resolve s indices =
     (if \<exists>idx \<in> indices. index_to_item s idx = None then Inl KeyError
      else Inr ((\<lambda>idx. the (index_to_item s idx)) ` indices))"

definition get_items_bm :: "bitmap_index \<Rightarrow> string \<Rightarrow> py_error + string set" where
  "get_items_bm s category =
     (case bitmaps s category of None \<Rightarrow> Inr {} | Some bitmap \<Rightarrow> resolve s bitmap)"

text \<open>
  The loop of \<open>get_items_intersection\<close> over \<open>categories[1:]\<close>; \<open>None\<close> is its early
  \<open>return []\<close> at a category that is not in \<open>bitmaps\<close>.
\<close>

fun intersect_remaining :: "(string \<rightharpoonup> nat set) \<Rightarrow> string list \<Rightarrow> nat set \<Rightarrow> nat set option" where
  "intersect_remaining bm [] result_indices = Some result_indices"
| "intersect_remaining bm (category # rest) result_indices =
     (case bm category of
        None \<Rightarrow> None
      | Some bitmap \<Rightarrow> intersect_remaining bm rest (result_indices \<inter> bitmap))"

definition get_items_intersection :: "bitmap_index \<Rightarrow> string list \<Rightarrow> py_error + string set" where
  "get_items_intersection s categories =
     (case categories of
        [] \<Rightarrow> Inr {}
      | first # rest \<Rightarrow>
          (case intersect_remaining (bitmaps s) rest
                  (case bitmaps s first of None \<Rightarrow> {} | Some bitmap \<Rightarrow> bitmap) of
             None \<Rightarrow> Inr {}
           | Some result_indices \<Rightarrow> resolve s result_indices))"

definition get_items_union :: "bitmap_index \<Rightarrow> string list \<Rightarrow> py_error + string set" where
  "get_items_union s categories =
     (if categories = [] then Inr {}
      else resolve s
             (fold (\<lambda>category result_indices.
                      case bitmaps s category of None \<Rightarrow> result_indices
                      | Some bitmap \<Rightarrow> result_indices \<union> bitmap)
                categories {}))"

subsection \<open>States of the index and its invariant\<close>

text \<open>
  The states of the index are those built from the empty index by \<open>add_item\<close> and
  \<open>remove_item\<close>. In each of them the two handle dictionaries are inverse to each other
  and every handle in a bitmap has an item.
\<close>

datatype index_op = Add string string | Remove string string

fun run_index_ops :: "index_op list \<Rightarrow> bitmap_index \<Rightarrow> bitmap_index" where
  "run_index_ops [] s = s"
| "run_index_ops (Add category item_id # ops) s = run_index_ops ops (fst (add_item category item_id s))"
| "run_index_ops (Remove category item_id # ops) s = run_index_ops ops (fst (remove_item category item_id s))"

definition index_inv :: "bitmap_index \<Rightarrow> bool" where
  "index_inv s \<longleftrightarrow>
     (\<forall>item idx. item_to_index s item = Some idx \<longrightarrow> index_to_item s idx = Some item)
     \<and> (\<forall>item idx. index_to_item s idx = Some item \<longrightarrow> item_to_index s item = Some idx)
     \<and> (\<forall>item idx. index_to_item s idx = Some item \<longrightarrow> idx < index_counter s)
     \<and> (\<forall>c b idx. bitmaps s c = Some b \<longrightarrow> idx \<in> b \<longrightarrow> index_to_item s idx \<noteq> None)"

lemma index_inv_init: "index_inv BitmapIndex"
  by (simp add: index_inv_def BitmapIndex_def)

lemma index_inv_register:
  assumes "index_inv s" "item_to_index s i = None"
  shows "index_inv (s\<lparr>item_to_index := (item_to_index s)(i \<mapsto> index_counter s),
                       index_to_item := (index_to_item s)(index_counter s \<mapsto> i),
                       index_counter := index_counter s + 1,
                       total_items := total_items s + 1\<rparr>)"
proof -
  have a: "\<And>item idx. item_to_index s item = Some idx \<Longrightarrow> index_to_item s idx = Some item"
    and b: "\<And>item idx. index_to_item s idx = Some item \<Longrightarrow> item_to_index s item = Some idx"
    and c: "\<And>item idx. index_to_item s idx = Some item \<Longrightarrow> idx < index_counter s"
    and d: "\<And>c b idx. bitmaps s c = Some b \<Longrightarrow> idx \<in> b \<Longrightarrow> index_to_item s idx \<noteq> None"
    using assms(1) unfolding index_inv_def by blast+
  have fresh: "index_to_item s (index_counter s) = None"
    using c [of "index_counter s"] by (cases "index_to_item s (index_counter s)") auto
  show ?thesis
    unfolding index_inv_def
  proof (intro conjI allI impI)
    fix item idx
    assume "item_to_index (s\<lparr>item_to_index := (item_to_index s)(i \<mapsto> index_counter s),
                       index_to_item := (index_to_item s)(index_counter s \<mapsto> i),
                       index_counter := index_counter s + 1,
                       total_items := total_items s + 1\<rparr>) item = Some idx"
    then show "index_to_item (s\<lparr>item_to_index := (item_to_index s)(i \<mapsto> index_counter s),
                       index_to_item := (index_to_item s)(index_counter s \<mapsto> i),
                       index_counter := index_counter s + 1,
                       total_items := total_items s + 1\<rparr>) idx = Some item"
      using a [of item idx] fresh by (auto split: if_splits)
  next
    fix item idx
    assume "index_to_item (s\<lparr>item_to_index := (item_to_index s)(i \<mapsto> index_counter s),
                       index_to_item := (index_to_item s)(index_counter s \<mapsto> i),
                       index_counter := index_counter s + 1,
                       total_items := total_items s + 1\<rparr>) idx = Some item"
    then have h: "(idx = index_counter s \<and> item = i) \<or> (idx \<noteq> index_counter s \<and> index_to_item s idx = Some item)"
      by (auto split: if_splits)
    then show "item_to_index (s\<lparr>item_to_index := (item_to_index s)(i \<mapsto> index_counter s),
                       index_to_item := (index_to_item s)(index_counter s \<mapsto> i),
                       index_counter := index_counter s + 1,
                       total_items := total_items s + 1\<rparr>) item = Some idx"
      using b [of idx item] assms(2) by auto
    from h show "idx < index_counter (s\<lparr>item_to_index := (item_to_index s)(i \<mapsto> index_counter s),
                       index_to_item := (index_to_item s)(index_counter s \<mapsto> i),
                       index_counter := index_counter s + 1,
                       total_items := total_items s + 1\<rparr>)"
      using c [of idx item] by auto
  next
    fix c b idx
    assume "bitmaps (s\<lparr>item_to_index := (item_to_index s)(i \<mapsto> index_counter s),
                       index_to_item := (index_to_item s)(index_counter s \<mapsto> i),
                       index_counter := index_counter s + 1,
                       total_items := total_items s + 1\<rparr>) c = Some b" "idx \<in> b"
    then show "index_to_item (s\<lparr>item_to_index := (item_to_index s)(i \<mapsto> index_counter s),
                       index_to_item := (index_to_item s)(index_counter s \<mapsto> i),
                       index_counter := index_counter s + 1,
                       total_items := total_items s + 1\<rparr>) idx \<noteq> None"
      using d [of c b idx] by auto
  qed
qed

lemma index_inv_bitmaps:
  assumes "index_inv s" "\<And>c b idx. bm c = Some b \<Longrightarrow> idx \<in> b \<Longrightarrow> index_to_item s idx \<noteq> None"
  shows "index_inv (s\<lparr>bitmaps := bm\<rparr>)"
proof -
  have p: "item_to_index (s\<lparr>bitmaps := bm\<rparr>) = item_to_index s"
    "index_to_item (s\<lparr>bitmaps := bm\<rparr>) = index_to_item s"
    "index_counter (s\<lparr>bitmaps := bm\<rparr>) = index_counter s"
    "bitmaps (s\<lparr>bitmaps := bm\<rparr>) = bm" by simp_all
  show ?thesis
    unfolding index_inv_def p using assms(1) [unfolded index_inv_def] assms(2) by blast
qed

lemma index_inv_add: 
  assumes "index_inv s"
  shows "index_inv (fst (add_item c i s))"
proof -
  define s1 where "s1 = (if item_to_index s i = None
                then s\<lparr>item_to_index := (item_to_index s)(i \<mapsto> index_counter s),
                       index_to_item := (index_to_item s)(index_counter s \<mapsto> i),
                       index_counter := index_counter s + 1,
                       total_items := total_items s + 1\<rparr>
                else s)"
  have inv1: "index_inv s1" using assms index_inv_register [of s i] by (simp add: s1_def)
  have reg: "item_to_index s1 i \<noteq> None" by (auto simp: s1_def)
  then obtain idx where idx: "item_to_index s1 i = Some idx" by auto
  then have known: "index_to_item s1 idx = Some i" using inv1 unfolding index_inv_def by blast
  have d1: "\<And>c b j. bitmaps s1 c = Some b \<Longrightarrow> j \<in> b \<Longrightarrow> index_to_item s1 j \<noteq> None"
    using inv1 unfolding index_inv_def by blast
  have "index_inv (s1\<lparr>bitmaps := (bitmaps s1)(c \<mapsto> insert idx (case bitmaps s1 c of None \<Rightarrow> {} | Some b \<Rightarrow> b))\<rparr>)"
  proof (rule index_inv_bitmaps [OF inv1])
    fix c' b j
    assume h: "((bitmaps s1)(c \<mapsto> insert idx (case bitmaps s1 c of None \<Rightarrow> {} | Some b \<Rightarrow> b))) c' = Some b" "j \<in> b"
    show "index_to_item s1 j \<noteq> None"
    proof (cases "c' = c")
      case True
      with h have "j = idx \<or> (\<exists>b0. bitmaps s1 c = Some b0 \<and> j \<in> b0)"
        by (cases "bitmaps s1 c") auto
      then show ?thesis using known d1 [of c _ j] by auto
    next
      case False
      then show ?thesis using h d1 [of c' b j] by simp
    qed
  qed
  then show ?thesis using idx unfolding add_item_def Let_def s1_def [symmetric] by simp
qed

lemma index_inv_remove:
  assumes "index_inv s"
  shows "index_inv (fst (remove_item c i s))"
proof -
  have d: "\<And>c b idx. bitmaps s c = Some b \<Longrightarrow> idx \<in> b \<Longrightarrow> index_to_item s idx \<noteq> None"
    using assms unfolding index_inv_def by blast
  have upd: "index_inv (s\<lparr>bitmaps := (bitmaps s)(c := x)\<rparr>)"
    if "\<And>b idx. x = Some b \<Longrightarrow> idx \<in> b \<Longrightarrow> index_to_item s idx \<noteq> None" for x
  proof (rule index_inv_bitmaps [OF assms])
    fix c' b idx
    assume "((bitmaps s)(c := x)) c' = Some b" "idx \<in> b"
    then show "index_to_item s idx \<noteq> None"
      using that [of b idx] d [of c' b idx] by (cases "c' = c") auto
  qed
  show ?thesis
  proof (cases "item_to_index s i")
    case None
    then show ?thesis using assms by (simp add: remove_item_def)
  next
    case (Some idx)
    show ?thesis
    proof (cases "bitmaps s c")
      case None
      then show ?thesis using Some assms by (simp add: remove_item_def)
    next
      case (Some b)
      have "index_inv (s\<lparr>bitmaps := (bitmaps s)(c := None)\<rparr>)" by (rule upd) simp
      moreover have "index_inv (s\<lparr>bitmaps := (bitmaps s)(c := Some (b - {idx}))\<rparr>)"
        using d [OF Some] by (intro upd) auto
      ultimately show ?thesis
        using Some \<open>item_to_index s i = Some idx\<close> assms by (simp add: remove_item_def)
    qed
  qed
qed

lemma index_inv_run: "index_inv s \<Longrightarrow> index_inv (run_index_ops ops s)"
  by (induction ops s rule: run_index_ops.induct) (simp_all add: index_inv_add index_inv_remove)


definition member_indices :: "bitmap_index \<Rightarrow> string \<Rightarrow> nat set" where
  "member_indices s c = (case bitmaps s c of None \<Rightarrow> {} | Some b \<Rightarrow> b)"

definition item_of :: "bitmap_index \<Rightarrow> nat \<Rightarrow> string" where
  "item_of s idx = the (index_to_item s idx)"

lemma member_indices_known:
  assumes "index_inv s" "idx \<in> member_indices s c"
  shows "index_to_item s idx \<noteq> None"
proof (cases "bitmaps s c")
  case None
  then show ?thesis using assms(2) by (simp add: member_indices_def)
next
  case (Some b)
  then have "idx \<in> b" using assms(2) by (simp add: member_indices_def)
  then show ?thesis using assms(1) Some unfolding index_inv_def by blast
qed

lemma item_of_inj:
  assumes "index_inv s"
  shows "inj_on (item_of s) (dom (index_to_item s))"
proof (rule inj_onI)
  fix i j
  assume "i \<in> dom (index_to_item s)" "j \<in> dom (index_to_item s)" "item_of s i = item_of s j"
  then obtain x where "index_to_item s i = Some x" "index_to_item s j = Some x"
    by (auto simp: item_of_def)
  then have "item_to_index s x = Some i" "item_to_index s x = Some j"
    using assms unfolding index_inv_def by blast+
  then show "i = j" by simp
qed

lemma resolve_known:
  assumes "\<And>idx. idx \<in> S \<Longrightarrow> index_to_item s idx \<noteq> None"
  shows "resolve s S = Inr (item_of s ` S)"
proof -
  have "\<not> (\<exists>idx \<in> S. index_to_item s idx = None)" using assms by blast
  then show ?thesis unfolding resolve_def item_of_def by (simp only: if_False)
qed

lemma get_items_bm_members:
  assumes "index_inv s"
  shows "get_items_bm s c = Inr (item_of s ` member_indices s c)"
proof (cases "bitmaps s c")
  case None
  then show ?thesis by (simp add: get_items_bm_def member_indices_def)
next
  case (Some b)
  have "resolve s (member_indices s c) = Inr (item_of s ` member_indices s c)"
    using member_indices_known [OF assms] by (rule resolve_known)
  then show ?thesis using Some by (simp add: get_items_bm_def member_indices_def)
qed

lemma intersect_remaining_eq:
  "intersect_remaining (bitmaps s) rest R =
     (if \<exists>c \<in> set rest. bitmaps s c = None then None
      else Some (R \<inter> (\<Inter>c \<in> set rest. member_indices s c)))"
  by (induction rest arbitrary: R) (auto simp: member_indices_def split: option.splits)

lemma union_fold_eq:
  "fold (\<lambda>category result_indices.
            case bitmaps s category of None \<Rightarrow> result_indices
            | Some bitmap \<Rightarrow> result_indices \<union> bitmap) cats R
     = R \<union> (\<Union>c \<in> set cats. member_indices s c)"
  by (induction cats arbitrary: R) (auto simp: member_indices_def split: option.splits)

lemma intersection_members:
  assumes inv: "index_inv s" and ne: "cats \<noteq> []"
  shows "get_items_intersection s cats = Inr (\<Inter>c \<in> set cats. item_of s ` member_indices s c)"
proof -
  obtain first rest where cats: "cats = first # rest" using ne by (cases cats) auto
  have first: "(case bitmaps s first of None \<Rightarrow> {} | Some bitmap \<Rightarrow> bitmap) = member_indices s first"
    by (simp add: member_indices_def)
  show ?thesis
  proof (cases "\<exists>c \<in> set rest. bitmaps s c = None")
    case True
    then obtain c where c: "c \<in> set rest" "bitmaps s c = None" by blast
    then have "item_of s ` member_indices s c = {}" by (simp add: member_indices_def)
    then have "(\<Inter>c \<in> set cats. item_of s ` member_indices s c) = {}"
      using c(1) cats by fastforce
    moreover have "get_items_intersection s cats = Inr {}"
      using True cats by (simp add: get_items_intersection_def intersect_remaining_eq)
    ultimately show ?thesis by simp
  next
    case False
    let ?R = "\<Inter>c \<in> set cats. member_indices s c"
    have R: "intersect_remaining (bitmaps s) rest (member_indices s first) = Some ?R"
      using False cats by (simp add: intersect_remaining_eq)
    have sub: "\<forall>c \<in> set cats. member_indices s c \<subseteq> dom (index_to_item s)"
      using member_indices_known [OF inv] by blast
    have "idx \<in> ?R \<Longrightarrow> index_to_item s idx \<noteq> None" for idx
      using member_indices_known [OF inv, of idx first] cats by auto
    then have "resolve s ?R = Inr (item_of s ` ?R)" by (rule resolve_known)
    also have "item_of s ` ?R = (\<Inter>c \<in> set cats. item_of s ` member_indices s c)"
      using image_INT [OF item_of_inj [OF inv] sub, of first] cats by simp
    finally show ?thesis using R cats first by (simp add: get_items_intersection_def)
  qed
qed

lemma union_members:
  assumes inv: "index_inv s"
  shows "get_items_union s cats = Inr (\<Union>c \<in> set cats. item_of s ` member_indices s c)"
proof (cases "cats = []")
  case True
  then show ?thesis by (simp add: get_items_union_def)
next
  case False
  let ?R = "\<Union>c \<in> set cats. member_indices s c"
  have "idx \<in> ?R \<Longrightarrow> index_to_item s idx \<noteq> None" for idx
    using member_indices_known [OF inv] by blast
  then have "resolve s ?R = Inr (item_of s ` ?R)" by (rule resolve_known)
  moreover have "item_of s ` ?R = (\<Union>c \<in> set cats. item_of s ` member_indices s c)" by blast
  ultimately show ?thesis using False by (simp add: get_items_union_def union_fold_eq)
qed

text \<open>
  Claim C5. In every state of the index there is a family \<open>members\<close> of sets, the
  result of \<open>get_items\<close> for each category (empty for a category that is absent), such
  that: the intersection of an empty list is empty; the intersection of a non-empty list
  is the set intersection of the members of its categories; it is empty, and no error,
  when a requested category is absent; the union of a list is the set union of the
  members; and absent categories are skipped by the union.
\<close>

theorem set_index_algebra:
  "\<exists>members.
      (\<forall>c. get_items_bm (run_index_ops ops BitmapIndex) c = Inr (members c))
    \<and> (\<forall>c. bitmaps (run_index_ops ops BitmapIndex) c = None \<longrightarrow> members c = {})
    \<and> get_items_intersection (run_index_ops ops BitmapIndex) [] = Inr {}
    \<and> (\<forall>cats. cats \<noteq> [] \<longrightarrow>
          get_items_intersection (run_index_ops ops BitmapIndex) cats = Inr (\<Inter>c \<in> set cats. members c))
    \<and> (\<forall>cats. (\<exists>c \<in> set cats. bitmaps (run_index_ops ops BitmapIndex) c = None) \<longrightarrow>
          get_items_intersection (run_index_ops ops BitmapIndex) cats = Inr {})
    \<and> (\<forall>cats. get_items_union (run_index_ops ops BitmapIndex) cats = Inr (\<Union>c \<in> set cats. members c))
    \<and> (\<forall>cats. get_items_union (run_index_ops ops BitmapIndex) cats =
          get_items_union (run_index_ops ops BitmapIndex)
            (filter (\<lambda>c. bitmaps (run_index_ops ops BitmapIndex) c \<noteq> None) cats))"
proof -
  let ?s = "run_index_ops ops BitmapIndex"
  define m where "m c = item_of ?s ` member_indices ?s c" for c
  have inv: "index_inv ?s" by (rule index_inv_run [OF index_inv_init])
  have absent: "m c = {}" if "bitmaps ?s c = None" for c
    using that by (simp add: member_indices_def m_def)
  have 1: "\<forall>c. get_items_bm ?s c = Inr (m c)" using get_items_bm_members [OF inv] by (simp add: m_def)
  have 2: "\<forall>c. bitmaps ?s c = None \<longrightarrow> m c = {}" using absent by simp
  have 3: "get_items_intersection ?s [] = Inr {}" by (simp add: get_items_intersection_def)
  have 4: "\<forall>cats. cats \<noteq> [] \<longrightarrow> get_items_intersection ?s cats = Inr (\<Inter>c \<in> set cats. m c)"
    using intersection_members [OF inv] by (simp add: m_def)
  have 5: "\<forall>cats. (\<exists>c \<in> set cats. bitmaps ?s c = None) \<longrightarrow> get_items_intersection ?s cats = Inr {}"
  proof (intro allI impI)
    fix cats assume "\<exists>c \<in> set cats. bitmaps ?s c = None"
    then obtain c where c: "c \<in> set cats" "bitmaps ?s c = None" by blast
    then have "cats \<noteq> []" by auto
    moreover have "(\<Inter>c \<in> set cats. m c) = {}" using c(1) absent [OF c(2)] by blast
    ultimately show "get_items_intersection ?s cats = Inr {}" using 4 by simp
  qed
  have 6: "\<forall>cats. get_items_union ?s cats = Inr (\<Union>c \<in> set cats. m c)"
    using union_members [OF inv] by (simp add: m_def)
  have 7: "\<forall>cats. get_items_union ?s cats = get_items_union ?s (filter (\<lambda>c. bitmaps ?s c \<noteq> None) cats)"
  proof
    fix cats
    have "x \<in> (\<Union>c \<in> set cats. m c) \<longleftrightarrow> x \<in> (\<Union>c \<in> set (filter (\<lambda>c. bitmaps ?s c \<noteq> None) cats). m c)" for x
    proof
      assume "x \<in> (\<Union>c \<in> set cats. m c)"
      then obtain c where c: "c \<in> set cats" "x \<in> m c" by blast
      then have "bitmaps ?s c \<noteq> None" using absent [of c] by auto
      with c show "x \<in> (\<Union>c \<in> set (filter (\<lambda>c. bitmaps ?s c \<noteq> None) cats). m c)" by auto
    next
      assume "x \<in> (\<Union>c \<in> set (filter (\<lambda>c. bitmaps ?s c \<noteq> None) cats). m c)"
      then show "x \<in> (\<Union>c \<in> set cats. m c)" by auto
    qed
    then have "(\<Union>c \<in> set cats. m c) = (\<Union>c \<in> set (filter (\<lambda>c. bitmaps ?s c \<noteq> None) cats). m c)"
      by (rule set_eqI)
    then show "get_items_union ?s cats = get_items_union ?s (filter (\<lambda>c. bitmaps ?s c \<noteq> None) cats)"
      using 6 by simp
  qed
  from 1 2 3 4 5 6 7 show ?thesis by blast
qed


theorem set_index_algebra_witness:
  "get_items_intersection
      (run_index_ops [Add ''A'' ''P1'', Add ''A'' ''P2'', Add ''B'' ''P2'', Add ''B'' ''P3''] BitmapIndex)
      [''A'', ''B''] = Inr {''P2''}
   \<and> get_items_intersection
      (run_index_ops [Add ''A'' ''P1'', Add ''A'' ''P2'', Add ''B'' ''P2'', Add ''B'' ''P3''] BitmapIndex)
      [''A'', ''C''] = Inr {}
   \<and> get_items_union
      (run_index_ops [Add ''A'' ''P1'', Add ''A'' ''P2'', Add ''B'' ''P2'', Add ''B'' ''P3''] BitmapIndex)
      [''A'', ''C'', ''B''] = Inr {''P1'', ''P2'', ''P3''}"
proof -
  let ?s = "run_index_ops [Add ''A'' ''P1'', Add ''A'' ''P2'', Add ''B'' ''P2'', Add ''B'' ''P3''] BitmapIndex"
  from set_index_algebra [of "[Add ''A'' ''P1'', Add ''A'' ''P2'', Add ''B'' ''P2'', Add ''B'' ''P3'']"]
  obtain members where m:
    "\<forall>c. get_items_bm ?s c = Inr (members c)"
    "\<forall>cats. cats \<noteq> [] \<longrightarrow> get_items_intersection ?s cats = Inr (\<Inter>c \<in> set cats. members c)"
    "\<forall>cats. get_items_union ?s cats = Inr (\<Union>c \<in> set cats. members c)"
    by blast
  have "get_items_bm ?s ''A'' = Inr {''P1'', ''P2''}"
    by (simp add: add_item_def Let_def BitmapIndex_def get_items_bm_def resolve_def insert_commute)
  then have A: "members ''A'' = {''P1'', ''P2''}" using m(1) by simp
  have "get_items_bm ?s ''B'' = Inr {''P2'', ''P3''}"
    by (simp add: add_item_def Let_def BitmapIndex_def get_items_bm_def resolve_def insert_commute)
  then have B: "members ''B'' = {''P2'', ''P3''}" using m(1) by simp
  have "get_items_bm ?s ''C'' = Inr {}"
    by (simp add: add_item_def Let_def BitmapIndex_def get_items_bm_def resolve_def)
  then have C: "members ''C'' = {}" using m(1) by simp
  have "get_items_intersection ?s [''A'', ''B''] = Inr {''P2''}"
    using m(2) [rule_format, of "[''A'', ''B'']"] A B by auto
  moreover have "get_items_intersection ?s [''A'', ''C''] = Inr {}"
    using m(2) [rule_format, of "[''A'', ''C'']"] A C by auto
  moreover have "get_items_union ?s [''A'', ''C'', ''B''] = Inr {''P1'', ''P2'', ''P3''}"
    using m(3) [rule_format, of "[''A'', ''C'', ''B'']"] A B C by auto
  ultimately show ?thesis by blast
qed


section \<open>product.py: Product and ProductStore\<close>

record product =
  item_id :: string
  category :: string
  product_info :: "(string, pyval) dict"

definition Product :: "string \<Rightarrow> string \<Rightarrow> (string, pyval) dict option \<Rightarrow> product" where
  "Product iid cat pinfo =
     \<lparr>item_id = iid, category = cat, product_info = (case pinfo of None \<Rightarrow> [] | Some d \<Rightarrow> d)\<rparr>"

definition get_info :: "product \<Rightarrow> string \<Rightarrow> pyval option" where
  "get_info p key = map_of (product_info p) key"

record product_store =
  items :: "(string, product) dict"
  category_index :: "(string, string list) dict"
  brand_index :: "(pyval, string list) dict"
  price_range_index :: "(string, string list) dict"

definition ProductStore :: product_store where
  "ProductStore = \<lparr>items = [], category_index = [], brand_index = [], price_range_index = []\<rparr>"

text \<open>\<open>d[k].append(x)\<close> on a \<open>defaultdict(list)\<close>.\<close>

definition defaultdict_append :: "'k \<Rightarrow> 'a \<Rightarrow> ('k, 'a list) dict \<Rightarrow> ('k, 'a list) dict" where
  "defaultdict_append k x d = AList.update k ((case map_of d k of None \<Rightarrow> [] | Some l \<Rightarrow> l) @ [x]) d"

text \<open>\<open>ProductStore._get_price_range\<close>; comparing a string with a number raises TypeError.\<close>

definition get_price_range :: "pyval \<Rightarrow> py_error + string" where
  "get_price_range price =
     (case price of
        PyStr _ \<Rightarrow> Inl TypeError
      | PyNum p \<Rightarrow>
          Inr (if p < 50 then ''0-50''
               else if p < 100 then ''50-100''
               else if p < 200 then ''100-200''
               else ''200+''))"

definition add_product ::
  "string \<Rightarrow> string \<Rightarrow> (string, pyval) dict option \<Rightarrow> product_store \<Rightarrow> py_error + product_store" where
  "add_product iid cat pinfo s =
     (let s1 = s\<lparr>items := AList.update iid (Product iid cat pinfo) (items s),
                  category_index := defaultdict_append cat iid (category_index s)\<rparr>
      in case pinfo of
           None \<Rightarrow> Inr s1
         | Some d \<Rightarrow>
             if d = [] then Inr s1
             else
               let brand = (case map_of d ''brand'' of None \<Rightarrow> PyStr ''unknown'' | Some b \<Rightarrow> b);
                   s2 = s1\<lparr>brand_index := defaultdict_append brand iid (brand_index s1)\<rparr>;
                   price = (case map_of d ''price'' of None \<Rightarrow> PyNum 0 | Some p \<Rightarrow> p)
               in case get_price_range price of
                    Inl e \<Rightarrow> Inl e
                  | Inr price_range \<Rightarrow>
                      Inr (s2\<lparr>price_range_index :=
                                defaultdict_append price_range iid (price_range_index s2)\<rparr>))"

definition get_product :: "product_store \<Rightarrow> string \<Rightarrow> product option" where
  "get_product s iid = map_of (items s) iid"

definition get_items_by_category :: "product_store \<Rightarrow> string \<Rightarrow> string list" where
  "get_items_by_category s cat = (case map_of (category_index s) cat of None \<Rightarrow> [] | Some l \<Rightarrow> l)"

section \<open>optimized\_hash\_table.py: the optimized stores\<close>

record optimized_product_store =
  items_ht :: "product hash_table"
  category_index_ht :: "string list hash_table"
  brand_index_ht :: "string list hash_table"
  price_index_ht :: "string list hash_table"

definition OptimizedProductStore :: "nat \<Rightarrow> optimized_product_store" where
  "OptimizedProductStore initial_capacity =
     \<lparr>items_ht = OptimizedHashTable initial_capacity,
      category_index_ht = OptimizedHashTable initial_capacity,
      brand_index_ht = OptimizedHashTable initial_capacity,
      price_index_ht = OptimizedHashTable initial_capacity\<rparr>"

text \<open>
  \<open>_update_category_index\<close>, \<open>_update_brand_index\<close> and \<open>_update_price_index\<close> run the same
  code on their table: a missing key gets the one-item list, a present key gets the item
  appended unless it is already in the list.
\<close>

definition update_index ::
  "nat \<Rightarrow> string list hash_table \<Rightarrow> string \<Rightarrow> string
     \<Rightarrow> (py_error + string list hash_table) option" where
  "update_index fuel index key iid =
     (case ht_get index key of
        Inl e \<Rightarrow> Some (Inl e)
      | Inr None \<Rightarrow> map_option (map_sum id fst) (ht_insert fuel index key (Some [iid]))
      | Inr (Some existing) \<Rightarrow>
          if iid \<notin> set existing
          then map_option (map_sum id fst) (ht_insert fuel index key (Some (existing @ [iid])))
          else Some (Inr index))"

text \<open>
  The key under which the brand index files a brand: a string is its own key; a number
  is rejected, as an empty key when it is zero and as not iterable by \<open>_hash\<close> otherwise.
\<close>

definition brand_key :: "pyval \<Rightarrow> py_error + string" where
  "brand_key brand =
     (case brand of PyStr b \<Rightarrow> Inr b | PyNum x \<Rightarrow> Inl (if x = 0 then ValueError else TypeError))"

definition get_price_range_opt :: "pyval \<Rightarrow> py_error + string" where
  "get_price_range_opt price =
     (case price of
        PyStr _ \<Rightarrow> Inl TypeError
      | PyNum p \<Rightarrow>
          Inr (if p < 10 then ''0-10''
               else if p < 50 then ''10-50''
               else if p < 100 then ''50-100''
               else if p < 500 then ''100-500''
               else ''500+''))"

text \<open>
  \<open>OptimizedProductStore.add_product\<close>: nothing happens when the identifier is already in
  \<open>items\<close>. An exception is returned without the store: Python leaves the store as far as
  it was updated.
\<close>

definition add_product_opt ::
  "nat \<Rightarrow> string \<Rightarrow> string \<Rightarrow> (string, pyval) dict option \<Rightarrow> optimized_product_store
     \<Rightarrow> (py_error + optimized_product_store) option" where
  "add_product_opt fuel iid cat pinfo s =
     (case ht_contains (items_ht s) iid of
        Inl e \<Rightarrow> Some (Inl e)
      | Inr True \<Rightarrow> Some (Inr s)
      | Inr False \<Rightarrow>
          (case ht_insert fuel (items_ht s) iid (Some (Product iid cat pinfo)) of
             None \<Rightarrow> None
           | Some (Inl e) \<Rightarrow> Some (Inl e)
           | Some (Inr (items', _)) \<Rightarrow>
               (case update_index fuel (category_index_ht s) cat iid of
                  None \<Rightarrow> None
                | Some (Inl e) \<Rightarrow> Some (Inl e)
                | Some (Inr cats') \<Rightarrow>
                    (case (case Option.bind pinfo (\<lambda>d. map_of d ''brand'') of
                             None \<Rightarrow> Some (Inr (brand_index_ht s))
                           | Some brand \<Rightarrow>
                               (case brand_key brand of
                                  Inl e \<Rightarrow> Some (Inl e)
                                | Inr key \<Rightarrow> update_index fuel (brand_index_ht s) key iid)) of
                       None \<Rightarrow> None
                     | Some (Inl e) \<Rightarrow> Some (Inl e)
                     | Some (Inr brands') \<Rightarrow>
                         (case (case Option.bind pinfo (\<lambda>d. map_of d ''price'') of
                                  None \<Rightarrow> Some (Inr (price_index_ht s))
                                | Some price \<Rightarrow>
                                    (case get_price_range_opt price of
                                       Inl e \<Rightarrow> Some (Inl e)
                                     | Inr price_range \<Rightarrow>
                                         update_index fuel (price_index_ht s) price_range iid)) of
                            None \<Rightarrow> None
                          | Some (Inl e) \<Rightarrow> Some (Inl e)
                          | Some (Inr prices') \<Rightarrow>
                              Some (Inr \<lparr>items_ht = items', category_index_ht = cats',
                                         brand_index_ht = brands', price_index_ht = prices'\<rparr>))))))"


subsection \<open>Loading the same identifier twice\<close>

lemma update_keys_known:
  "k \<in> fst ` set al \<Longrightarrow> map fst (AList.update k v al) = map fst al"
  by (simp add: update_keys)

lemma add_product_items:
  assumes "add_product iid cat pinfo s = Inr s'"
  shows "items s' = AList.update iid (Product iid cat pinfo) (items s)"
  using assms
  by (auto simp: add_product_def Let_def split: option.splits if_splits sum.splits)

lemma ht_contains_after_insert:
  assumes "wf_table t" and "ht_insert (Suc (Suc n)) t k (Some v) = Some (Inr (t', b))"
  shows "ht_contains t' k = Inr True"
proof -
  have k: "k \<noteq> []" using assms(2) by (auto simp: ht_insert_Suc)
  from ht_insert_ok [OF assms(1) k, of n "Some v"] assms(2)
  have t': "wf_table t'" "entries t' = (entries t)(k \<mapsto> Some v)" by auto
  then have "table_ok t'" by (simp add: wf_table_def)
  from ht_get_entries [OF this, of k] t'(2) show ?thesis by (simp add: ht_contains_def)
qed

lemma add_product_opt_known:
  "ht_contains (items_ht s) iid = Inr True \<Longrightarrow> add_product_opt fuel iid cat pinfo s = Some (Inr s)"
  by (simp add: add_product_opt_def)

lemma add_product_opt_contains:
  assumes "wf_table (items_ht s)"
    and "add_product_opt (Suc (Suc n)) iid cat pinfo s = Some (Inr s1)"
  shows "ht_contains (items_ht s1) iid = Inr True"
proof (cases "ht_contains (items_ht s) iid")
  case (Inl e)
  then show ?thesis using assms(2) by (simp add: add_product_opt_def)
next
  case (Inr present)
  show ?thesis
  proof (cases present)
    case True
    then show ?thesis using Inr assms(2) by (simp add: add_product_opt_def)
  next
    case False
    with Inr assms(2) obtain items' b where
      ins: "ht_insert (Suc (Suc n)) (items_ht s) iid (Some (Product iid cat pinfo)) = Some (Inr (items', b))"
      and s1: "items_ht s1 = items'"
      by (auto simp: add_product_opt_def split: option.splits sum.splits)
    from ht_contains_after_insert [OF assms(1) ins] s1 show ?thesis by simp
  qed
qed

text \<open>
  What a second load of the same identifier does in each store. A second
  \<open>UserStore.add_user\<close> leaves the store as the first load left it, whatever attributes it
  brings, and so does a second \<open>OptimizedProductStore.add_product\<close> after a first one that
  succeeded. \<open>ProductStore.add_product\<close> keeps one record per identifier, and that record
  is the second load's.
\<close>

lemma add_user_known:
  "add_user uid info2 (add_user uid info1 us) = add_user uid info1 us"
  by (simp add: add_user_def update_keys image_Un flip: set_map)

lemma add_product_opt_twice:
  assumes "wf_table (items_ht s)"
    and "add_product_opt (Suc (Suc n)) iid cat1 pinfo1 s = Some (Inr s1)"
  shows "add_product_opt (Suc (Suc n)) iid cat2 pinfo2 s1 = Some (Inr s1)"
  using add_product_opt_contains [OF assms] by (rule add_product_opt_known)

lemma add_product_twice:
  assumes "add_product iid cat1 pinfo1 ps = Inr ps1" and "add_product iid cat2 pinfo2 ps1 = Inr ps2"
  shows "map fst (items ps2) = map fst (items ps1)"
    and "map_of (items ps2) iid = Some (Product iid cat2 pinfo2)"
proof -
  have 1: "items ps1 = AList.update iid (Product iid cat1 pinfo1) (items ps)"
    and 2: "items ps2 = AList.update iid (Product iid cat2 pinfo2) (items ps1)"
    using assms add_product_items by blast+
  have "iid \<in> fst ` set (items ps1)" using 1 by (simp add: update_keys flip: set_map)
  then show "map fst (items ps2) = map fst (items ps1)" using 2 by (simp add: update_keys_known)
  show "map_of (items ps2) iid = Some (Product iid cat2 pinfo2)" using 2 by (simp add: update_conv')
qed

text \<open>
  Claim C8: a second load of the same user or product updates the attributes of the
  record and duplicates neither the record nor an index membership. The stores do not
  agree on it, and each misses a part that a sibling store has. After two loads of user
  \<open>U1\<close> into a \<open>UserStore\<close> the record still has the first load's name;
  \<open>OptimizedUserStore.add_user\<close> updates the attributes of a known user. After two loads
  of product \<open>P1\<close> into a \<open>ProductStore\<close> the category index lists \<open>P1\<close> twice, and after a
  second load with another category \<open>P1\<close> is still listed under the first category;
  the index updates of \<open>OptimizedProductStore\<close> test membership before they append. After
  two loads of \<open>P1\<close> into an \<open>OptimizedProductStore\<close> the record is the first load's and the
  second load's category and brand are nowhere; \<open>ProductStore.add_product\<close> replaces the
  record.
\<close>

theorem reload_same_identifier_diverges:
  "map (\<lambda>(k, u). (k, user_info u))
     (users (add_user ''U1'' (Some [(''name'', PyStr ''New'')])
              (add_user ''U1'' (Some [(''name'', PyStr ''Old'')]) UserStore)))
     = [(''U1'', [(''name'', PyStr ''Old'')])]
   \<and> map_sum id category_index
       (case add_product ''P1'' ''Books'' None ProductStore of
          Inl e \<Rightarrow> Inl e
        | Inr s \<Rightarrow> add_product ''P1'' ''Books'' None s)
     = Inr [(''Books'', [''P1'', ''P1''])]
   \<and> map_sum id category_index
       (case add_product ''P1'' ''Books'' None ProductStore of
          Inl e \<Rightarrow> Inl e
        | Inr s \<Rightarrow> add_product ''P1'' ''Games'' None s)
     = Inr [(''Books'', [''P1'']), (''Games'', [''P1''])]
   \<and> map_sum id items
       (case add_product ''P1'' ''Books'' None ProductStore of
          Inl e \<Rightarrow> Inl e
        | Inr s \<Rightarrow> add_product ''P1'' ''Games'' None s)
     = Inr [(''P1'', Product ''P1'' ''Games'' None)]
   \<and> (case add_product_opt (Suc (Suc 0)) ''P1'' ''Books'' None (OptimizedProductStore 1) of
        Some (Inr s1) \<Rightarrow>
          add_product_opt (Suc (Suc 0)) ''P1'' ''Games'' (Some [(''brand'', PyStr ''Acme'')]) s1
            = Some (Inr s1)
          \<and> ht_get (items_ht s1) ''P1'' = Inr (Some (Product ''P1'' ''Books'' None))
          \<and> ht_get (category_index_ht s1) ''Games'' = Inr None
          \<and> ht_get (brand_index_ht s1) ''Acme'' = Inr None
      | _ \<Rightarrow> False)"
proof -
  have "wf_table (OptimizedHashTable 1 :: product hash_table)"
    by (rule conjunct1 [OF wf_OptimizedHashTable]) simp
  then have wf: "wf_table (items_ht (OptimizedProductStore 1))" by (simp add: OptimizedProductStore_def)
  obtain s1 where s1: "add_product_opt (Suc (Suc 0)) ''P1'' ''Books'' None (OptimizedProductStore 1)
        = Some (Inr s1)"
    and g: "ht_get (items_ht s1) ''P1'' = Inr (Some (Product ''P1'' ''Books'' None))"
      "ht_get (category_index_ht s1) ''Games'' = Inr None"
      "ht_get (brand_index_ht s1) ''Acme'' = Inr None"
    by (simp add: add_product_opt_def OptimizedProductStore_def OptimizedHashTable_def ht_contains_def
        ht_get_def hash_ht_def ht_insert_Suc insert_into_bucket_def update_index_def)
  have 2: "add_product_opt (Suc (Suc 0)) ''P1'' ''Games'' (Some [(''brand'', PyStr ''Acme'')]) s1
      = Some (Inr s1)"
    by (rule add_product_opt_twice [OF wf s1])
  have opt: "(case add_product_opt (Suc (Suc 0)) ''P1'' ''Books'' None (OptimizedProductStore 1) of
        Some (Inr s1) \<Rightarrow>
          add_product_opt (Suc (Suc 0)) ''P1'' ''Games'' (Some [(''brand'', PyStr ''Acme'')]) s1
            = Some (Inr s1)
          \<and> ht_get (items_ht s1) ''P1'' = Inr (Some (Product ''P1'' ''Books'' None))
          \<and> ht_get (category_index_ht s1) ''Games'' = Inr None
          \<and> ht_get (brand_index_ht s1) ''Acme'' = Inr None
      | _ \<Rightarrow> False)"
    unfolding s1 using 2 g by simp
  have rest: "map (\<lambda>(k, u). (k, user_info u))
     (users (add_user ''U1'' (Some [(''name'', PyStr ''New'')])
              (add_user ''U1'' (Some [(''name'', PyStr ''Old'')]) UserStore)))
     = [(''U1'', [(''name'', PyStr ''Old'')])]"
    "map_sum id category_index
       (case add_product ''P1'' ''Books'' None ProductStore of
          Inl e \<Rightarrow> Inl e
        | Inr s \<Rightarrow> add_product ''P1'' ''Books'' None s)
     = Inr [(''Books'', [''P1'', ''P1''])]"
    "map_sum id category_index
       (case add_product ''P1'' ''Books'' None ProductStore of
          Inl e \<Rightarrow> Inl e
        | Inr s \<Rightarrow> add_product ''P1'' ''Games'' None s)
     = Inr [(''Books'', [''P1'']), (''Games'', [''P1''])]"
    "map_sum id items
       (case add_product ''P1'' ''Books'' None ProductStore of
          Inl e \<Rightarrow> Inl e
        | Inr s \<Rightarrow> add_product ''P1'' ''Games'' None s)
     = Inr [(''P1'', Product ''P1'' ''Games'' None)]"
    by (simp_all add: add_user_def UserStore_def User_def add_product_def ProductStore_def
        defaultdict_append_def Let_def)
  show ?thesis using rest opt by (intro conjI)
qed


section \<open>recommender.py: RecommenderSystem\<close>

text \<open>
  \<open>sorted(xs, key=f, reverse=True)\<close> is stable: elements with equal keys keep their
  order. \<open>heapq.nlargest(n, xs, key=f)\<close> is documented as
  \<open>sorted(xs, key=f, reverse=True)[:n]\<close>, and is empty for \<open>n \<le> 0\<close>.
\<close>

definition sorted_reverse :: "('a \<Rightarrow> 'b::linorder) \<Rightarrow> 'a list \<Rightarrow> 'a list" where
  "sorted_reverse f xs = rev (sort_key f (rev xs))"

definition nlargest :: "int \<Rightarrow> ('a \<Rightarrow> 'b::linorder) \<Rightarrow> 'a list \<Rightarrow> 'a list" where
  "nlargest n f xs = take (nat n) (sorted_reverse f xs)"

text \<open>The slice \<open>xs[:n]\<close>; a negative \<open>n\<close> counts from the end.\<close>

definition slice_to :: "int \<Rightarrow> 'a list \<Rightarrow> 'a list" where
  "slice_to n xs = (if 0 \<le> n then take (nat n) xs else take (length xs - nat (- n)) xs)"

text \<open>
  \<open>_is_item_available\<close>: an unknown product is not available; \<open>stock > 0\<close> on a string
  raises TypeError.
\<close>

definition is_item_available :: "product_store \<Rightarrow> string \<Rightarrow> py_error + bool" where
  "is_item_available ps iid =
     (case get_product ps iid of
        None \<Rightarrow> Inr False
      | Some product \<Rightarrow>
          (case get_info product ''stock'' of
             None \<Rightarrow> Inr (get_info product ''availability'' \<noteq> Some (PyStr ''out_of_stock''))
           | Some (PyNum stock) \<Rightarrow>
               Inr (0 < stock \<and> get_info product ''availability'' \<noteq> Some (PyStr ''out_of_stock''))
           | Some (PyStr _) \<Rightarrow> Inl TypeError))"

text \<open>
  The inner loop of \<open>recommend_by_category\<close> over the items of one category: an item is
  appended when the user does not have it, it is not yet recommended and it is available;
  after every item the loop stops once \<open>top_k\<close> recommendations are reached.
\<close>

fun scan_items ::
  "product_store \<Rightarrow> string set \<Rightarrow> int \<Rightarrow> string list \<Rightarrow> string list \<Rightarrow> py_error + string list" where
  "scan_items ps user_items top_k [] recommendations = Inr recommendations"
| "scan_items ps user_items top_k (item # rest) recommendations =
     (case (if item \<notin> user_items \<and> item \<notin> set recommendations
            then is_item_available ps item else Inr False) of
        Inl e \<Rightarrow> Inl e
      | Inr ok \<Rightarrow>
          let recommendations' = (if ok then recommendations @ [item] else recommendations)
          in if top_k \<le> int (length recommendations') then Inr recommendations'
             else scan_items ps user_items top_k rest recommendations')"

text \<open>The outer loop over the categories, best first; it stops before a category once \<open>top_k\<close> is reached.\<close>

fun scan_categories ::
  "product_store \<Rightarrow> string set \<Rightarrow> int \<Rightarrow> (string \<times> real) list \<Rightarrow> string list
     \<Rightarrow> py_error + string list" where
  "scan_categories ps user_items top_k [] recommendations = Inr recommendations"
| "scan_categories ps user_items top_k ((cat, score) # rest) recommendations =
     (if top_k \<le> int (length recommendations) then Inr recommendations
      else case scan_items ps user_items top_k (get_items_by_category ps cat) recommendations of
             Inl e \<Rightarrow> Inl e
           | Inr recommendations' \<Rightarrow> scan_categories ps user_items top_k rest recommendations')"

definition recommend_by_category ::
  "user_store \<Rightarrow> product_store \<Rightarrow> string \<Rightarrow> int \<Rightarrow> py_error + string list" where
  "recommend_by_category us ps uid top_k =
     (case map_of (users us) uid of
        None \<Rightarrow> Inr []
      | Some u \<Rightarrow>
          (case get_preferences u of
             Inl e \<Rightarrow> Inl e
           | Inr prefs \<Rightarrow>
               (case scan_categories ps (set (get_items u)) top_k (sorted_reverse snd prefs) [] of
                  Inl e \<Rightarrow> Inl e
                | Inr recommendations \<Rightarrow> Inr (slice_to top_k recommendations))))"

text \<open>
  The scoring loops of \<open>recommend_by_similar_users\<close>. \<open>other_items - user_items\<close> is a Python
  set, iterated in an unspecified order; the model takes the order of the other user's
  history. The result does not depend on it, since the final ranking key \<open>(score, item)\<close>
  is different for every item.
\<close>

fun score_items ::
  "product_store \<Rightarrow> 'a::{zero,plus} \<Rightarrow> string list \<Rightarrow> (string, 'a) dict \<Rightarrow> py_error + (string, 'a) dict" where
  "score_items ps weight [] item_scores = Inr item_scores"
| "score_items ps weight (item # rest) item_scores =
     (case is_item_available ps item of
        Inl e \<Rightarrow> Inl e
      | Inr ok \<Rightarrow>
          score_items ps weight rest
            (if ok then defaultdict_add item weight item_scores else item_scores))"

fun score_similar_users ::
  "user_store \<Rightarrow> product_store \<Rightarrow> string set \<Rightarrow> (string \<times> 'a::{zero,plus}) list \<Rightarrow> (string, 'a) dict
     \<Rightarrow> py_error + (string, 'a) dict" where
  "score_similar_users us ps user_items [] item_scores = Inr item_scores"
| "score_similar_users us ps user_items ((other_id, weight) # rest) item_scores =
     (case map_of (users us) other_id of
        None \<Rightarrow> Inl KeyError
      | Some other_user \<Rightarrow>
          (case score_items ps weight
                  (filter (\<lambda>item. item \<notin> user_items) (remdups (get_items other_user))) item_scores of
             Inl e \<Rightarrow> Inl e
           | Inr item_scores' \<Rightarrow> score_similar_users us ps user_items rest item_scores'))"

definition recommend_by_similar_users ::
  "user_store \<Rightarrow> product_store \<Rightarrow> string \<Rightarrow> int \<Rightarrow> py_error + string list" where
  "recommend_by_similar_users us ps uid top_k =
     (case map_of (users us) uid of
        None \<Rightarrow> Inr []
      | Some u \<Rightarrow>
          (case score_similar_users us ps (set (get_items u))
                  (map (\<lambda>other_id. (other_id, 1::int)) (get_similar_users us uid)) [] of
             Inl e \<Rightarrow> Inl e
           | Inr item_scores \<Rightarrow>
               if item_scores = [] then Inr []
               else Inr (map fst (nlargest top_k (\<lambda>x. (snd x, fst x)) item_scores))))"

text \<open>
  The two scoring loops of \<open>recommend_hybrid\<close>: the item at position \<open>i\<close> of a list of
  length \<open>n\<close> adds \<open>weight * (1 - i / n)\<close> to its score.
\<close>

definition position_scores :: "real \<Rightarrow> string list \<Rightarrow> (string \<times> real) list" where
  "position_scores weight recs =
     map (\<lambda>(i, item). (item, weight * (1 - real i / real (length recs)))) (enumerate 0 recs)"

definition add_scores :: "(string \<times> real) list \<Rightarrow> (string, real) dict \<Rightarrow> (string, real) dict" where
  "add_scores scores scored_items = fold (\<lambda>(item, score). defaultdict_add item score) scores scored_items"

definition recommend_hybrid ::
  "user_store \<Rightarrow> product_store \<Rightarrow> string \<Rightarrow> int \<Rightarrow> real \<Rightarrow> real \<Rightarrow> py_error + string list" where
  "recommend_hybrid us ps uid top_k content_weight collab_weight =
     (case recommend_by_category us ps uid (top_k * 2) of
        Inl e \<Rightarrow> Inl e
      | Inr content_recs \<Rightarrow>
          (case recommend_by_similar_users us ps uid (top_k * 2) of
             Inl e \<Rightarrow> Inl e
           | Inr collab_recs \<Rightarrow>
               Inr (map fst (nlargest top_k snd
                      (add_scores (position_scores collab_weight collab_recs)
                         (add_scores (position_scores content_weight content_recs) []))))))"


subsection \<open>Content-based candidates are a prefix-closed family\<close>

lemma scan_items_prefix:
  "scan_items ps ui k xs recs = Inr R \<Longrightarrow> \<exists>ys. R = recs @ ys"
proof (induction xs arbitrary: recs)
  case Nil
  then show ?case by simp
next
  case (Cons x xs)
  then show ?case
    by (fastforce simp: Let_def split: sum.splits if_splits)
qed

lemma scan_categories_prefix:
  "scan_categories ps ui k cs recs = Inr R \<Longrightarrow> \<exists>ys. R = recs @ ys"
proof (induction cs arbitrary: recs)
  case Nil
  then show ?case by simp
next
  case (Cons c cs)
  obtain cat score where c: "c = (cat, score)" by (cases c)
  show ?case
  proof (cases "k \<le> int (length recs)")
    case True
    then show ?thesis using Cons.prems c by simp
  next
    case False
    with Cons.prems c obtain R1 where R1: "scan_items ps ui k (get_items_by_category ps cat) recs = Inr R1"
      "scan_categories ps ui k cs R1 = Inr R"
      by (auto split: sum.splits)
    from scan_items_prefix [OF R1(1)] Cons.IH [OF R1(2)] show ?thesis by auto
  qed
qed

lemma scan_items_distinct:
  "scan_items ps ui k xs recs = Inr R \<Longrightarrow> distinct recs \<Longrightarrow> distinct R"
proof (induction xs arbitrary: recs)
  case Nil
  then show ?case by simp
next
  case (Cons x xs)
  then show ?case
    by (auto simp: Let_def split: sum.splits if_splits)
qed

lemma scan_categories_distinct:
  "scan_categories ps ui k cs recs = Inr R \<Longrightarrow> distinct recs \<Longrightarrow> distinct R"
proof (induction cs arbitrary: recs)
  case Nil
  then show ?case by simp
next
  case (Cons c cs)
  obtain cat score where c: "c = (cat, score)" by (cases c)
  show ?case
  proof (cases "k \<le> int (length recs)")
    case True
    then show ?thesis using Cons.prems c by simp
  next
    case False
    with Cons.prems c obtain R1 where R1: "scan_items ps ui k (get_items_by_category ps cat) recs = Inr R1"
      "scan_categories ps ui k cs R1 = Inr R"
      by (auto split: sum.splits)
    from scan_items_distinct [OF R1(1) Cons.prems(2)] Cons.IH [OF R1(2)] show ?thesis by auto
  qed
qed

lemma scan_items_length:
  "scan_items ps ui k xs recs = Inr R \<Longrightarrow> int (length recs) < k \<Longrightarrow> int (length R) \<le> k"
proof (induction xs arbitrary: recs)
  case Nil
  then show ?case by simp
next
  case (Cons x xs)
  then show ?case
    by (auto simp: Let_def split: sum.splits if_splits)
qed

lemma scan_categories_length:
  "scan_categories ps ui k cs recs = Inr R \<Longrightarrow> int (length recs) \<le> k \<Longrightarrow> int (length R) \<le> k"
proof (induction cs arbitrary: recs)
  case Nil
  then show ?case by simp
next
  case (Cons c cs)
  obtain cat score where c: "c = (cat, score)" by (cases c)
  show ?case
  proof (cases "k \<le> int (length recs)")
    case True
    then show ?thesis using Cons.prems c by simp
  next
    case False
    with Cons.prems c obtain R1 where R1: "scan_items ps ui k (get_items_by_category ps cat) recs = Inr R1"
      "scan_categories ps ui k cs R1 = Inr R"
      by (auto split: sum.splits)
    from scan_items_length [OF R1(1)] False Cons.IH [OF R1(2)] show ?thesis by auto
  qed
qed

lemma scan_categories_full:
  "k \<le> int (length recs) \<Longrightarrow> scan_categories ps ui k cs recs = Inr recs"
  by (cases cs) auto

lemma scan_items_smaller:
  assumes "scan_items ps ui k' xs recs = Inr R'" "k \<le> k'" "int (length recs) < k"
  shows "scan_items ps ui k xs recs = Inr (take (nat k) R')"
  using assms
proof (induction xs arbitrary: recs)
  case Nil
  then show ?case by simp
next
  case (Cons x xs)
  from Cons.prems(1) obtain ok where ok:
    "(if x \<notin> ui \<and> x \<notin> set recs then is_item_available ps x else Inr False) = Inr ok"
    by (auto split: sum.splits)
  define recs1 where "recs1 = (if ok then recs @ [x] else recs)"
  have len1: "int (length recs1) \<le> k" using Cons.prems(3) by (auto simp: recs1_def)
  show ?case
  proof (cases "k \<le> int (length recs1)")
    case True
    then have lenk: "length recs1 = nat k" using len1 by simp
    have "\<exists>ys. R' = recs1 @ ys"
    proof (cases "k' \<le> int (length recs1)")
      case True
      then have "R' = recs1" using Cons.prems(1) ok by (simp add: recs1_def Let_def)
      then show ?thesis by simp
    next
      case False
      then have "scan_items ps ui k' xs recs1 = Inr R'"
        using Cons.prems(1) ok by (simp add: recs1_def Let_def)
      then show ?thesis by (rule scan_items_prefix)
    qed
    then have "take (nat k) R' = recs1" using lenk by auto
    moreover have "scan_items ps ui k (x # xs) recs = Inr recs1"
      using True ok by (simp add: recs1_def Let_def)
    ultimately show ?thesis by simp
  next
    case False
    then have lt: "int (length recs1) < k" by simp
    then have "\<not> k' \<le> int (length recs1)" using Cons.prems(2) by simp
    then have "scan_items ps ui k' xs recs1 = Inr R'"
      using Cons.prems(1) ok by (simp add: recs1_def Let_def)
    from Cons.IH [OF this Cons.prems(2) lt]
    show ?thesis using False ok by (simp add: recs1_def Let_def)
  qed
qed

lemma scan_categories_smaller:
  assumes "scan_categories ps ui k' cs recs = Inr R'" "k \<le> k'" "int (length recs) \<le> k"
  shows "scan_categories ps ui k cs recs = Inr (take (nat k) R')"
  using assms
proof (induction cs arbitrary: recs)
  case Nil
  then show ?case by simp
next
  case (Cons c cs)
  obtain cat score where c: "c = (cat, score)" by (cases c)
  show ?case
  proof (cases "k \<le> int (length recs)")
    case True
    then have "length recs = nat k" using Cons.prems(3) by simp
    moreover obtain ys where "R' = recs @ ys" using scan_categories_prefix [OF Cons.prems(1)] by blast
    ultimately have "take (nat k) R' = recs" by simp
    then show ?thesis using True c by simp
  next
    case False
    then have nk': "\<not> k' \<le> int (length recs)" using Cons.prems(2) by simp
    with Cons.prems(1) c obtain R1' where R1':
      "scan_items ps ui k' (get_items_by_category ps cat) recs = Inr R1'"
      "scan_categories ps ui k' cs R1' = Inr R'"
      by (auto split: sum.splits)
    have lt: "int (length recs) < k" using False by simp
    from scan_items_smaller [OF R1'(1) Cons.prems(2) lt]
    have R1: "scan_items ps ui k (get_items_by_category ps cat) recs = Inr (take (nat k) R1')" .
    show ?thesis
    proof (cases "k \<le> int (length R1')")
      case True
      then have "length (take (nat k) R1') = nat k" by simp
      then have full: "k \<le> int (length (take (nat k) R1'))" by simp
      obtain ys where "R' = R1' @ ys" using scan_categories_prefix [OF R1'(2)] by blast
      then have "take (nat k) R' = take (nat k) R1'" using True by simp
      then show ?thesis using False c R1 scan_categories_full [OF full] by simp
    next
      case False
      then have same: "take (nat k) R1' = R1'" by simp
      have "int (length R1') \<le> k" using False by simp
      from Cons.IH [OF R1'(2) Cons.prems(2) this]
      show ?thesis using \<open>\<not> k \<le> int (length recs)\<close> c R1 same by simp
    qed
  qed
qed


lemma recommend_by_category_smaller:
  assumes "recommend_by_category us ps uid (k * 2) = Inr C"
  shows "recommend_by_category us ps uid k = Inr (take (nat k) C) \<and> distinct C"
proof (cases "map_of (users us) uid")
  case None
  then show ?thesis using assms by (simp add: recommend_by_category_def)
next
  case (Some u)
  with assms obtain prefs R' where p: "get_preferences u = Inr prefs"
    and R': "scan_categories ps (set (get_items u)) (k * 2) (sorted_reverse snd prefs) [] = Inr R'"
    and C: "C = slice_to (k * 2) R'"
    by (auto simp: recommend_by_category_def split: sum.splits)
  have d: "distinct R'" using scan_categories_distinct [OF R'] by simp
  show ?thesis
  proof (cases "1 \<le> k")
    case True
    have "int (length R') \<le> k * 2" using scan_categories_length [OF R'] True by simp
    then have CR: "C = R'" using C True by (simp add: slice_to_def)
    have "scan_categories ps (set (get_items u)) k (sorted_reverse snd prefs) [] = Inr (take (nat k) R')"
      using scan_categories_smaller [OF R', of k] True by simp
    then show ?thesis using Some p CR d True by (simp add: recommend_by_category_def slice_to_def)
  next
    case False
    then have "scan_categories ps (set (get_items u)) (k * 2) (sorted_reverse snd prefs) [] = Inr []"
      "scan_categories ps (set (get_items u)) k (sorted_reverse snd prefs) [] = Inr []"
      by (simp_all add: scan_categories_full)
    then show ?thesis using Some p R' C by (simp add: recommend_by_category_def slice_to_def)
  qed
qed

subsection \<open>The merged scores of the hybrid strategy\<close>

lemma defaultdict_add_keys:
  "map fst (defaultdict_add k a d) = (if k \<in> fst ` set d then map fst d else map fst d @ [k])"
  by (simp add: defaultdict_add_def update_keys flip: set_map)

lemma defaultdict_add_new:
  "k \<notin> fst ` set d \<Longrightarrow> defaultdict_add k a d = d @ [(k, 0 + a)]"
  by (induction d) (auto simp: defaultdict_add_def map_of_eq_None_iff [THEN iffD2])

lemma defaultdict_add_zero:
  fixes d :: "('k, real) dict"
  shows "k \<in> fst ` set d \<Longrightarrow> defaultdict_add k 0 d = d"
proof -
  assume "k \<in> fst ` set d"
  then obtain v where "map_of d k = Some v"
    by (metis map_of_eq_None_iff not_None_eq)
  then show ?thesis by (simp add: defaultdict_add_def update_triv)
qed

lemma add_scores_fresh:
  "distinct (map fst xs) \<Longrightarrow> fst ` set xs \<inter> fst ` set d = {} \<Longrightarrow>
     add_scores xs d = d @ map (\<lambda>(k, s). (k, 0 + s)) xs"
proof (induction xs arbitrary: d)
  case Nil
  then show ?case by (simp add: add_scores_def)
next
  case (Cons x xs)
  obtain k s where x: "x = (k, s)" by (cases x)
  have new: "k \<notin> fst ` set d" using Cons.prems(2) x by auto
  have "fst ` set xs \<inter> fst ` set (d @ [(k, 0 + s)]) = {}"
    using Cons.prems x by auto
  with Cons.IH [of "d @ [(k, 0 + s)]"] Cons.prems(1)
  have "add_scores xs (d @ [(k, 0 + s)]) = (d @ [(k, 0 + s)]) @ map (\<lambda>(k, s). (k, 0 + s)) xs"
    by simp
  then show ?case using x defaultdict_add_new [OF new, of s] by (simp add: add_scores_def)
qed

lemma add_scores_zero:
  fixes d :: "(string, real) dict"
  shows "distinct ys \<Longrightarrow>
     add_scores (map (\<lambda>y. (y, 0)) ys) d = d @ map (\<lambda>y. (y, 0)) (filter (\<lambda>y. y \<notin> fst ` set d) ys)"
proof (induction ys arbitrary: d)
  case Nil
  then show ?case by (simp add: add_scores_def)
next
  case (Cons y ys)
  show ?case
  proof (cases "y \<in> fst ` set d")
    case True
    then show ?thesis using Cons by (simp add: add_scores_def defaultdict_add_zero)
  next
    case False
    have "filter (\<lambda>z. z \<notin> fst ` set (d @ [(y, 0)])) ys = filter (\<lambda>z. z \<notin> fst ` set d) ys"
      using Cons.prems by (intro filter_cong) auto
    moreover have "add_scores (map (\<lambda>y. (y, 0)) ys) (d @ [(y, 0)])
        = (d @ [(y, 0)]) @ map (\<lambda>y. (y, 0)) (filter (\<lambda>z. z \<notin> fst ` set (d @ [(y, 0)])) ys)"
      using Cons.IH [of "d @ [(y, 0)]"] Cons.prems by simp
    ultimately show ?thesis using False defaultdict_add_new [OF False, of 0]
      by (simp add: add_scores_def)
  qed
qed

lemma sorted_reverse_id:
  "sorted (rev (map f xs)) \<Longrightarrow> sorted_reverse f xs = xs"
  by (simp add: sorted_reverse_def sort_key_id_if_sorted rev_map)


lemma score_items_keys:
  "score_items ps w xs d = Inr d' \<Longrightarrow> distinct (map fst d) \<Longrightarrow> distinct (map fst d')"
proof (induction xs arbitrary: d)
  case Nil
  then show ?case by simp
next
  case (Cons x xs)
  then show ?case
    by (auto simp: defaultdict_add_keys split: sum.splits if_splits)
qed

lemma score_similar_users_keys:
  "score_similar_users us ps ui sims d = Inr d' \<Longrightarrow> distinct (map fst d) \<Longrightarrow> distinct (map fst d')"
proof (induction sims arbitrary: d)
  case Nil
  then show ?case by simp
next
  case (Cons x sims)
  obtain other w where x: "x = (other, w)" by (cases x)
  from Cons.prems x obtain ou d1 where "map_of (users us) other = Some ou"
    and d1: "score_items ps w (filter (\<lambda>item. item \<notin> ui) (remdups (get_items ou))) d = Inr d1"
    and rest: "score_similar_users us ps ui sims d1 = Inr d'"
    by (auto split: option.splits sum.splits)
  from Cons.IH [OF rest score_items_keys [OF d1 Cons.prems(2)]] show ?case .
qed

lemma distinct_keys_sorted_reverse:
  "distinct (map fst (sorted_reverse f xs)) = distinct (map fst xs)"
  by (simp add: sorted_reverse_def distinct_map)

lemma distinct_keys_nlargest:
  "distinct (map fst xs) \<Longrightarrow> distinct (map fst (nlargest n f xs))"
  by (simp add: nlargest_def distinct_keys_sorted_reverse flip: take_map)

lemma recommend_by_similar_users_distinct:
  assumes "recommend_by_similar_users us ps uid k = Inr S"
  shows "distinct S"
proof (cases "map_of (users us) uid")
  case None
  then show ?thesis using assms by (simp add: recommend_by_similar_users_def)
next
  case (Some u)
  with assms obtain d where d: "score_similar_users us ps (set (get_items u))
      (map (\<lambda>other_id. (other_id, 1::int)) (get_similar_users us uid)) [] = Inr d"
    and S: "S = (if d = [] then [] else map fst (nlargest k (\<lambda>x. (snd x, fst x)) d))"
    by (auto simp: recommend_by_similar_users_def split: sum.splits if_splits)
  have "distinct (map fst d)" using score_similar_users_keys [OF d] by simp
  then show ?thesis using S by (simp add: distinct_keys_nlargest)
qed

lemma position_scores_zero: "position_scores 0 S = map (\<lambda>y. (y, 0)) S"
proof -
  have "position_scores 0 S = map ((\<lambda>y. (y, 0)) \<circ> snd) (enumerate 0 S)"
    by (simp add: position_scores_def case_prod_unfold comp_def)
  also have "\<dots> = map (\<lambda>y. (y, 0)) (map snd (enumerate 0 S))" by (simp only: map_map)
  also have "\<dots> = map (\<lambda>y. (y, 0)) S" by (simp only: map_snd_enumerate)
  finally show ?thesis .
qed

lemma position_scores_keys: "map fst (position_scores w C) = C"
proof -
  have "map fst (position_scores w C) = map snd (enumerate 0 C)"
    by (simp add: position_scores_def case_prod_unfold comp_def)
  also have "\<dots> = C" by (simp only: map_snd_enumerate)
  finally show ?thesis .
qed

lemma position_scores_values:
  "map snd (position_scores w C) = map (\<lambda>i. w * (1 - real i / real (length C))) [0..<length C]"
proof -
  have "map snd (position_scores w C)
      = map ((\<lambda>i. w * (1 - real i / real (length C))) \<circ> fst) (enumerate 0 C)"
    by (simp add: position_scores_def case_prod_unfold comp_def)
  also have "\<dots> = map (\<lambda>i. w * (1 - real i / real (length C))) (map fst (enumerate 0 C))"
    by (simp only: map_map)
  also have "\<dots> = map (\<lambda>i. w * (1 - real i / real (length C))) [0..<length C]"
    by (simp only: map_fst_enumerate) simp
  finally show ?thesis .
qed

lemma descending_position_scores:
  "sorted (rev (map snd (position_scores 1 C)))"
proof -
  have "sorted_wrt (\<lambda>x y. y \<le> x) (map (\<lambda>i. 1 * (1 - real i / real (length C))) [0..<length C])"
    by (auto simp: sorted_wrt_iff_nth_less divide_right_mono)
  then show ?thesis by (simp only: position_scores_values sorted_wrt_rev)
qed

lemma hybrid_content_only:
  assumes C: "recommend_by_category us ps uid (k * 2) = Inr C"
    and S: "recommend_by_similar_users us ps uid (k * 2) = Inr S"
  shows "recommend_hybrid us ps uid k 1 0 = Inr (take (nat k) (C @ filter (\<lambda>x. x \<notin> set C) S))"
proof -
  have dC: "distinct C" using recommend_by_category_smaller [OF C] by simp
  have dS: "distinct S" using recommend_by_similar_users_distinct [OF S] .
  let ?L1 = "position_scores 1 C"
  let ?L2 = "map (\<lambda>y. (y, 0::real)) (filter (\<lambda>y. y \<notin> set C) S)"
  have "add_scores ?L1 [] = [] @ map (\<lambda>(k, s). (k, 0 + s)) ?L1"
    using dC by (intro add_scores_fresh) (simp_all add: position_scores_keys)
  then have L1: "add_scores ?L1 [] = ?L1" by (simp add: case_prod_unfold)
  have keys1: "fst ` set ?L1 = set C" using position_scores_keys [of 1 C] by (metis set_map)
  have L: "add_scores (position_scores 0 S) (add_scores ?L1 []) = ?L1 @ ?L2"
    using add_scores_zero [OF dS, of ?L1] keys1 by (simp add: L1 position_scores_zero)
  have "\<forall>x \<in> set (map snd ?L1). 0 \<le> x"
    by (auto simp: position_scores_values divide_le_eq)
  moreover have "map snd ?L2 = replicate (length ?L2) 0"
    by (simp add: comp_def map_replicate_const)
  ultimately have "sorted (rev (map snd (?L1 @ ?L2)))"
    using descending_position_scores [of C]
    by (simp add: sorted_append del: map_map)
  then have sr: "sorted_reverse snd (?L1 @ ?L2) = ?L1 @ ?L2" by (rule sorted_reverse_id)
  have keys: "map fst (?L1 @ ?L2) = C @ filter (\<lambda>y. y \<notin> set C) S"
    by (simp add: position_scores_keys comp_def)
  have "map fst (nlargest k snd (?L1 @ ?L2)) = take (nat k) (map fst (?L1 @ ?L2))"
    unfolding nlargest_def sr by (rule take_map [symmetric])
  then have "map fst (nlargest k snd (?L1 @ ?L2)) = take (nat k) (C @ filter (\<lambda>y. y \<notin> set C) S)"
    by (simp only: keys)
  then show ?thesis using C S L by (simp add: recommend_hybrid_def)
qed

subsection \<open>A small store\<close>

text \<open>
  Loading rows one after the other, as \<open>CSVLoader\<close> does, stopping at the first exception.
  The example has two users who share the categories \<open>A\<close> and \<open>B\<close>; the second user also
  bought in category \<open>C\<close>. No product has stock or availability information.
\<close>

fun load_purchases ::
  "(string \<times> string \<times> string \<times> purchase_data option) list \<Rightarrow> user_store \<Rightarrow> py_error + user_store" where
  "load_purchases [] s = Inr s"
| "load_purchases ((uid, iid, cat, purchase_data) # rows) s =
     (case add_purchase uid iid cat purchase_data s of
        Inl e \<Rightarrow> Inl e
      | Inr s' \<Rightarrow> load_purchases rows s')"

fun load_products ::
  "(string \<times> string \<times> (string, pyval) dict option) list \<Rightarrow> product_store \<Rightarrow> py_error + product_store" where
  "load_products [] s = Inr s"
| "load_products ((iid, cat, pinfo) # rows) s =
     (case add_product iid cat pinfo s of
        Inl e \<Rightarrow> Inl e
      | Inr s' \<Rightarrow> load_products rows s')"

definition example_users :: user_store where
  "example_users =
     \<lparr>users =
        [(''U1'', \<lparr>user_id = ''U1'', user_info = [],
                  purchase_history = \<lparr>nodes = [(''I2'', []), (''I1'', [])], size_lph = 2\<rparr>,
                  preferences = [(''A'', 1), (''B'', 1)],
                  category_spending = [(''A'', 1), (''B'', 1)], total_spent = 2\<rparr>),
         (''U2'', \<lparr>user_id = ''U2'', user_info = [],
                  purchase_history = \<lparr>nodes = [(''I5'', []), (''I4'', []), (''I3'', [])], size_lph = 3\<rparr>,
                  preferences = [(''A'', 1), (''B'', 1), (''C'', 1)],
                  category_spending = [(''A'', 1), (''B'', 1), (''C'', 1)], total_spent = 3\<rparr>)],
      user_categories = [(''U1'', [''A'', ''B'']), (''U2'', [''A'', ''B'', ''C''])]\<rparr>"

definition example_products :: product_store where
  "example_products =
     \<lparr>items =
        [(''I1'', \<lparr>item_id = ''I1'', category = ''A'', product_info = []\<rparr>),
         (''I2'', \<lparr>item_id = ''I2'', category = ''B'', product_info = []\<rparr>),
         (''I3'', \<lparr>item_id = ''I3'', category = ''A'', product_info = []\<rparr>),
         (''I4'', \<lparr>item_id = ''I4'', category = ''B'', product_info = []\<rparr>),
         (''I5'', \<lparr>item_id = ''I5'', category = ''C'', product_info = []\<rparr>)],
      category_index = [(''A'', [''I1'', ''I3'']), (''B'', [''I2'', ''I4'']), (''C'', [''I5''])],
      brand_index = [], price_range_index = []\<rparr>"

lemma example_users_loaded:
  "load_purchases [(''U1'', ''I1'', ''A'', None), (''U1'', ''I2'', ''B'', None),
     (''U2'', ''I3'', ''A'', None), (''U2'', ''I4'', ''B'', None), (''U2'', ''I5'', ''C'', None)] UserStore
   = Inr example_users"
  by (simp add: add_purchase_def add_user_def UserStore_def User_def user_add_purchase_def
      purchase_amount_def defaultdict_add_def Let_def lph_add_purchase_def LinkedPurchaseHistory_def
      example_users_def)

lemma example_products_loaded:
  "load_products [(''I1'', ''A'', None), (''I2'', ''B'', None), (''I3'', ''A'', None),
     (''I4'', ''B'', None), (''I5'', ''C'', None)] ProductStore
   = Inr example_products"
  by (simp add: add_product_def ProductStore_def Product_def defaultdict_append_def Let_def
      example_products_def)

lemma example_available:
  "is_item_available example_products ''I1'' = Inr True"
  "is_item_available example_products ''I2'' = Inr True"
  "is_item_available example_products ''I3'' = Inr True"
  "is_item_available example_products ''I4'' = Inr True"
  "is_item_available example_products ''I5'' = Inr True"
  by (simp_all add: is_item_available_def get_product_def get_info_def example_products_def)

lemma example_categories:
  "get_items_by_category example_products ''A'' = [''I1'', ''I3'']"
  "get_items_by_category example_products ''B'' = [''I2'', ''I4'']"
  "get_items_by_category example_products ''C'' = [''I5'']"
  by (simp_all add: get_items_by_category_def example_products_def)

lemma example_content_3:
  "recommend_by_category example_users example_products ''U1'' 3 = Inr [''I3'', ''I4'']"
  by (simp add: recommend_by_category_def example_users_def get_preferences_def sorted_reverse_def
      get_items_def lph_to_list_def example_categories example_available slice_to_def Let_def)

lemma example_content_6:
  "recommend_by_category example_users example_products ''U1'' 6 = Inr [''I3'', ''I4'']"
  by (simp add: recommend_by_category_def example_users_def get_preferences_def sorted_reverse_def
      get_items_def lph_to_list_def example_categories example_available slice_to_def Let_def)

lemma example_collab_6:
  "recommend_by_similar_users example_users example_products ''U1'' 6 = Inr [''I5'', ''I4'', ''I3'']"
  by (simp add: recommend_by_similar_users_def example_users_def get_similar_users_def
      get_items_def lph_to_list_def example_available defaultdict_add_def nlargest_def
      sorted_reverse_def less_eq_prod_def less_prod_def)

lemma example_collab_2:
  "recommend_by_similar_users example_users example_products ''U1'' 2 = Inr [''I5'', ''I4'']"
  by (simp add: recommend_by_similar_users_def example_users_def get_similar_users_def
      get_items_def lph_to_list_def example_available defaultdict_add_def nlargest_def
      sorted_reverse_def less_eq_prod_def less_prod_def)

lemma example_content_2:
  "recommend_by_category example_users example_products ''U1'' 2 = Inr [''I3'', ''I4'']"
  by (simp add: recommend_by_category_def example_users_def get_preferences_def sorted_reverse_def
      get_items_def lph_to_list_def example_categories example_available slice_to_def Let_def)

text \<open>
  Claim C2, as the code has it. When the two runs for \<open>2k\<close> candidates return lists \<open>C\<close>
  (content-based) and \<open>S\<close> (collaborative), the content-based recommendation for \<open>k\<close> is the
  first \<open>k\<close> items of \<open>C\<close>, and the hybrid recommendation with weights 1 and 0 is the first
  \<open>k\<close> items of \<open>C\<close> followed by the items of \<open>S\<close> that are not in \<open>C\<close>: these enter the
  score table with score 0 and fill the places that \<open>C\<close> leaves. The two recommendations are
  equal when \<open>C\<close> has at least \<open>k\<close> items or \<open>S\<close> brings no new item.
\<close>

theorem hybrid_content_weight_only:
  assumes "recommend_by_category us ps uid (k * 2) = Inr C"
    and "recommend_by_similar_users us ps uid (k * 2) = Inr S"
  shows "recommend_by_category us ps uid k = Inr (take (nat k) C)
       \<and> recommend_hybrid us ps uid k 1 0 = Inr (take (nat k) (C @ filter (\<lambda>x. x \<notin> set C) S))
       \<and> (k \<le> int (length C) \<or> set S \<subseteq> set C
            \<longrightarrow> recommend_hybrid us ps uid k 1 0 = recommend_by_category us ps uid k)"
proof -
  have c: "recommend_by_category us ps uid k = Inr (take (nat k) C)"
    using recommend_by_category_smaller [OF assms(1)] by simp
  have h: "recommend_hybrid us ps uid k 1 0 = Inr (take (nat k) (C @ filter (\<lambda>x. x \<notin> set C) S))"
    by (rule hybrid_content_only [OF assms])
  have "take (nat k) (C @ filter (\<lambda>x. x \<notin> set C) S) = take (nat k) C"
    if "k \<le> int (length C) \<or> set S \<subseteq> set C"
  proof -
    from that consider "nat k \<le> length C" | "set S \<subseteq> set C" by linarith
    then show ?thesis
    proof cases
      case 1
      then show ?thesis by simp
    next
      case 2
      then have "filter (\<lambda>x. x \<notin> set C) S = []" by (auto simp: filter_empty_conv)
      then show ?thesis by simp
    qed
  qed
  with c h show ?thesis by simp
qed

theorem hybrid_content_weight_only_witness:
  "recommend_by_category example_users example_products ''U1'' (1 * 2) = Inr [''I3'', ''I4'']
   \<and> recommend_by_similar_users example_users example_products ''U1'' (1 * 2) = Inr [''I5'', ''I4'']
   \<and> recommend_by_category example_users example_products ''U1'' 1 = Inr [''I3'']
   \<and> recommend_hybrid example_users example_products ''U1'' 1 1 0 = Inr [''I3'']"
proof -
  have c: "recommend_by_category example_users example_products ''U1'' (1 * 2) = Inr [''I3'', ''I4'']"
    using example_content_2 by simp
  have s: "recommend_by_similar_users example_users example_products ''U1'' (1 * 2) = Inr [''I5'', ''I4'']"
    using example_collab_2 by simp
  from hybrid_content_weight_only [OF c s] c s show ?thesis by simp
qed

text \<open>
  Claim C2 as stated fails in the small store: for user \<open>U1\<close> and \<open>k = 3\<close> the content-based
  recommendation has the two items of the user's categories, and the hybrid one with weights
  1 and 0 adds item \<open>I5\<close>, which only the collaborative strategy proposes.
\<close>

theorem hybrid_content_weight_only_counterexample:
  "load_purchases [(''U1'', ''I1'', ''A'', None), (''U1'', ''I2'', ''B'', None),
     (''U2'', ''I3'', ''A'', None), (''U2'', ''I4'', ''B'', None), (''U2'', ''I5'', ''C'', None)] UserStore
     = Inr example_users
   \<and> load_products [(''I1'', ''A'', None), (''I2'', ''B'', None), (''I3'', ''A'', None),
     (''I4'', ''B'', None), (''I5'', ''C'', None)] ProductStore
     = Inr example_products
   \<and> recommend_by_category example_users example_products ''U1'' 3 = Inr [''I3'', ''I4'']
   \<and> recommend_hybrid example_users example_products ''U1'' 3 1 0 = Inr [''I3'', ''I4'', ''I5'']"
proof -
  have c: "recommend_by_category example_users example_products ''U1'' (3 * 2) = Inr [''I3'', ''I4'']"
    using example_content_6 by simp
  have s: "recommend_by_similar_users example_users example_products ''U1'' (3 * 2)
      = Inr [''I5'', ''I4'', ''I3'']"
    using example_collab_6 by simp
  have "recommend_hybrid example_users example_products ''U1'' 3 1 0 = Inr [''I3'', ''I4'', ''I5'']"
    using hybrid_content_only [OF c s] by simp
  then show ?thesis
    using example_users_loaded example_products_loaded example_content_3 by simp
qed


section \<open>optimized\_recommender.py: OptimizedRecommenderSystem\<close>

text \<open>
  The state of the system. \<open>lru_similarity\<close> is the table that \<open>functools.lru_cache\<close> keeps
  for \<open>_compute_cosine_similarity_cached\<close>, most recently used entry first. \<open>time.time()\<close>
  is the argument \<open>now\<close> of every method that reads the clock; a method reads it once.
\<close>

record optimized_recommender_system =
  user_store :: user_store
  product_store :: product_store
  similarity_cache :: "(string \<times> string) \<rightharpoonup> real"
  recommendation_cache :: "string \<rightharpoonup> string list"
  user_preference_cache :: "string \<rightharpoonup> (string, real) dict"
  similarity_matrix :: "((string \<times> string), real) dict option"
  precomputed_similarities :: "string \<rightharpoonup> (string \<times> real) list"
  cache_ttl :: real
  cache_timestamps :: "string \<rightharpoonup> real"
  max_cache_size :: nat
  lru_similarity :: "((string \<times> string) \<times> real) list"

definition OptimizedRecommenderSystem :: "user_store \<Rightarrow> product_store \<Rightarrow> optimized_recommender_system" where
  "OptimizedRecommenderSystem us ps =
     \<lparr>user_store = us, product_store = ps, similarity_cache = Map.empty,
      recommendation_cache = Map.empty, user_preference_cache = Map.empty,
      similarity_matrix = None, precomputed_similarities = Map.empty,
      cache_ttl = 3600, cache_timestamps = Map.empty, max_cache_size = 10000,
      lru_similarity = []\<rparr>"

definition is_cache_valid :: "optimized_recommender_system \<Rightarrow> real \<Rightarrow> string \<Rightarrow> bool" where
  "is_cache_valid s now key =
     (case cache_timestamps s key of
        None \<Rightarrow> False
      | Some timestamp \<Rightarrow> double_sub now timestamp < cache_ttl s)"

definition update_cache_timestamp ::
  "optimized_recommender_system \<Rightarrow> real \<Rightarrow> string \<Rightarrow> optimized_recommender_system" where
  "update_cache_timestamp s now key = s\<lparr>cache_timestamps := (cache_timestamps s)(key \<mapsto> now)\<rparr>"

text \<open>
  \<open>_clean_cache\<close>: the expired keys are those of \<open>cache_timestamps\<close> with
  \<open>current_time - timestamp >= cache_ttl\<close>; each is popped, under the same key, from the
  timestamps, the recommendation cache and the preference cache. The pop from
  \<open>similarity_cache\<close> finds nothing, its keys being pairs. \<open>precomputed_similarities\<close> is
  not popped.
\<close>

definition expired :: "optimized_recommender_system \<Rightarrow> real \<Rightarrow> string \<Rightarrow> bool" where
  "expired s current_time key =
     (case cache_timestamps s key of
        None \<Rightarrow> False
      | Some timestamp \<Rightarrow> cache_ttl s \<le> double_sub current_time timestamp)"

definition clean_cache :: "optimized_recommender_system \<Rightarrow> real \<Rightarrow> optimized_recommender_system" where
  "clean_cache s current_time =
     s\<lparr>cache_timestamps := (\<lambda>key. if expired s current_time key then None else cache_timestamps s key),
       recommendation_cache :=
         (\<lambda>key. if expired s current_time key then None else recommendation_cache s key),
       user_preference_cache :=
         (\<lambda>key. if expired s current_time key then None else user_preference_cache s key)\<rparr>"

text \<open>
  The test that opens every cached recommendation method,
  \<open>cache_key in self.recommendation_cache and self._is_cache_valid(cache_key)\<close>, with the
  cached list it returns; and the two statements that close it.
\<close>

definition cached_recommendation :: "optimized_recommender_system \<Rightarrow> real \<Rightarrow> string \<Rightarrow> string list option" where
  "cached_recommendation s now cache_key =
     (case recommendation_cache s cache_key of
        None \<Rightarrow> None
      | Some result \<Rightarrow> if is_cache_valid s now cache_key then Some result else None)"

definition store_recommendation ::
  "optimized_recommender_system \<Rightarrow> real \<Rightarrow> string \<Rightarrow> string list \<Rightarrow> optimized_recommender_system" where
  "store_recommendation s now cache_key result =
     update_cache_timestamp
       (s\<lparr>recommendation_cache := (recommendation_cache s)(cache_key \<mapsto> result)\<rparr>) now cache_key"

text \<open>
  The preference cache of \<open>recommend_by_category_cached\<close>: the test
  \<open>user_id in self.user_preference_cache and self._is_cache_valid(f"prefs_{user_id}")\<close>
  with the vector it yields, and the two statements that store a vector. The vector is
  filed under the user identifier, its time stamp under \<open>prefs_\<close> and the identifier.
\<close>

definition cached_preferences ::
  "optimized_recommender_system \<Rightarrow> real \<Rightarrow> string \<Rightarrow> (string, real) dict option" where
  "cached_preferences s now uid =
     (case user_preference_cache s uid of
        None \<Rightarrow> None
      | Some prefs \<Rightarrow> if is_cache_valid s now (''prefs_'' @ uid) then Some prefs else None)"

definition store_preferences ::
  "optimized_recommender_system \<Rightarrow> real \<Rightarrow> string \<Rightarrow> (string, real) dict \<Rightarrow> optimized_recommender_system" where
  "store_preferences s now uid prefs =
     update_cache_timestamp
       (s\<lparr>user_preference_cache := (user_preference_cache s)(uid \<mapsto> prefs)\<rparr>) now (''prefs_'' @ uid)"

text \<open>
  The body of \<open>_compute_cosine_similarity_cached\<close>, over the reals. The three sums run
  over the common categories, a Python set; a sum of reals does not depend on the order.
  Both preference vectors are normalised before anything else, and normalising raises
  ZeroDivisionError when the weights add up to zero. The double that the source computes
  can differ from the real value in its last digits: it depends on the rounding of every
  operation, on the \<open>pow\<close> of the C library behind \<open>** 0.5\<close> and on the order in which the
  set is iterated. The functions below that consume similarities therefore take the body
  as their parameter \<open>cosine\<close>.
\<close>

definition compute_cosine_similarity :: "user_store \<Rightarrow> string \<Rightarrow> string \<Rightarrow> py_error + real" where
  "compute_cosine_similarity us user1_id user2_id =
     (case (map_of (users us) user1_id, map_of (users us) user2_id) of
        (Some user1, Some user2) \<Rightarrow>
          (case get_preferences user1 of
             Inl e \<Rightarrow> Inl e
           | Inr prefs1 \<Rightarrow>
               (case get_preferences user2 of
                  Inl e \<Rightarrow> Inl e
                | Inr prefs2 \<Rightarrow>
                    let common_cats = fst ` set prefs1 \<inter> fst ` set prefs2;
                        p1 = (\<lambda>cat. the (map_of prefs1 cat));
                        p2 = (\<lambda>cat. the (map_of prefs2 cat))
                    in if common_cats = {} then Inr 0
                       else
                         let dot_product = (\<Sum>cat \<in> common_cats. p1 cat * p2 cat);
                             magnitude1 = sqrt (\<Sum>cat \<in> common_cats. (p1 cat)\<^sup>2);
                             magnitude2 = sqrt (\<Sum>cat \<in> common_cats. (p2 cat)\<^sup>2)
                         in if magnitude1 = 0 \<or> magnitude2 = 0 then Inr 0
                            else Inr (dot_product / (magnitude1 * magnitude2))))
      | _ \<Rightarrow> Inr 0)"

text \<open>
  The \<open>lru_cache(maxsize=1000)\<close> around a body: a hit returns the stored value and makes
  the entry the most recent; a miss computes, stores, and drops the least recent entry
  beyond 1000; an exception stores nothing.
\<close>

definition lru_cache_call ::
  "(user_store \<Rightarrow> string \<Rightarrow> string \<Rightarrow> py_error + real) \<Rightarrow> optimized_recommender_system
     \<Rightarrow> string \<Rightarrow> string \<Rightarrow> (py_error + real) \<times> optimized_recommender_system" where
  "lru_cache_call body s user1_id user2_id =
     (case map_of (lru_similarity s) (user1_id, user2_id) of
        Some v \<Rightarrow>
          (Inr v, s\<lparr>lru_similarity :=
                     ((user1_id, user2_id), v) # AList.delete (user1_id, user2_id) (lru_similarity s)\<rparr>)
      | None \<Rightarrow>
          (case body (user_store s) user1_id user2_id of
             Inl e \<Rightarrow> (Inl e, s)
           | Inr v \<Rightarrow>
               (Inr v, s\<lparr>lru_similarity := take 1000 (((user1_id, user2_id), v) # lru_similarity s)\<rparr>)))"

definition compute_cosine_similarity_cached ::
  "optimized_recommender_system \<Rightarrow> string \<Rightarrow> string \<Rightarrow> (py_error + real) \<times> optimized_recommender_system" where
  "compute_cosine_similarity_cached s user1_id user2_id =
     lru_cache_call compute_cosine_similarity s user1_id user2_id"

subsection \<open>The time-boxed cache\<close>

lemma double_sub_example:
  "double_sub (7916703622312755 / 2199023255552) (3602879701896397 / 36028797018963968) = 3600"
proof -
  let ?x = "129703669268270281523 / 36028797018963968 :: real"
  have d: "7916703622312755 / 2199023255552 - 3602879701896397 / 36028797018963968 = ?x" by simp
  have lo: "2 powr of_int 11 \<le> \<bar>?x\<bar>" and hi: "\<bar>?x\<bar> < 2 powr (of_int 11 + 1)" by simp_all
  have s: "?x / 2 powr (of_int 11 - 52) = 129703669268270281523 / 16384"
    by (simp add: powr_minus_divide)
  have r: "round_half_even (129703669268270281523 / 16384) = 7916483719987200"
    by (simp add: round_half_even_def Let_def)
  show ?thesis
    unfolding double_sub_def d double_round_at [OF lo hi] s r by (simp add: powr_minus_divide)
qed

text \<open>
  Claim C4, for the recommendation cache, as the code has it. The age of an entry is the
  difference of two clock readings as the subtraction of doubles gives it. A list stored
  at time \<open>t\<close> is returned by a lookup at time \<open>t'\<close> exactly when that age is below \<open>ttl\<close>.
  \<open>_clean_cache\<close> at time \<open>now\<close> removes the time stamp and the cached list of exactly the
  keys whose age is at least \<open>ttl\<close>; a key that is valid at \<open>now\<close> is looked up afterwards
  as before.
\<close>

theorem cache_entry_validity:
  "cached_recommendation (store_recommendation s t key result) t' key
     = (if double_sub t' t < cache_ttl s then Some result else None)
   \<and> cache_timestamps (clean_cache s now) k
     = (case cache_timestamps s k of
          None \<Rightarrow> None
        | Some ts \<Rightarrow> if cache_ttl s \<le> double_sub now ts then None else Some ts)
   \<and> recommendation_cache (clean_cache s now) k
     = (case cache_timestamps s k of
          None \<Rightarrow> recommendation_cache s k
        | Some ts \<Rightarrow> if cache_ttl s \<le> double_sub now ts then None else recommendation_cache s k)
   \<and> (is_cache_valid s now k
        \<longrightarrow> cached_recommendation (clean_cache s now) t2 k = cached_recommendation s t2 k)"
proof (intro conjI impI)
  show "cached_recommendation (store_recommendation s t key result) t' key
     = (if double_sub t' t < cache_ttl s then Some result else None)"
    by (simp add: cached_recommendation_def store_recommendation_def update_cache_timestamp_def
        is_cache_valid_def)
  show "cache_timestamps (clean_cache s now) k
     = (case cache_timestamps s k of
          None \<Rightarrow> None
        | Some ts \<Rightarrow> if cache_ttl s \<le> double_sub now ts then None else Some ts)"
    by (simp add: clean_cache_def expired_def split: option.splits)
  show "recommendation_cache (clean_cache s now) k
     = (case cache_timestamps s k of
          None \<Rightarrow> recommendation_cache s k
        | Some ts \<Rightarrow> if cache_ttl s \<le> double_sub now ts then None else recommendation_cache s k)"
    by (simp add: clean_cache_def expired_def split: option.splits)
  assume "is_cache_valid s now k"
  then have "\<not> expired s now k"
    by (auto simp: is_cache_valid_def expired_def split: option.splits)
  then show "cached_recommendation (clean_cache s now) t2 k = cached_recommendation s t2 k"
    by (simp add: cached_recommendation_def clean_cache_def is_cache_valid_def split: option.splits)
qed

theorem cache_entry_validity_witness:
  "is_cache_valid
     (store_recommendation (OptimizedRecommenderSystem UserStore ProductStore) 0 ''collab_U1_5'' [''I5''])
     200 ''collab_U1_5''
   \<and> cached_recommendation
       (clean_cache
          (store_recommendation (OptimizedRecommenderSystem UserStore ProductStore) 0 ''collab_U1_5'' [''I5''])
          200)
       3599 ''collab_U1_5'' = Some [''I5'']
   \<and> cached_recommendation
       (store_recommendation (OptimizedRecommenderSystem UserStore ProductStore) 0 ''collab_U1_5'' [''I5''])
       3600 ''collab_U1_5'' = None"
proof -
  let ?init = "OptimizedRecommenderSystem UserStore ProductStore"
  let ?s = "store_recommendation ?init 0 ''collab_U1_5'' [''I5'']"
  have ttl: "cache_ttl ?init = 3600" by (simp add: OptimizedRecommenderSystem_def)
  have v: "is_cache_valid ?s 200 ''collab_U1_5''"
    by (simp add: is_cache_valid_def store_recommendation_def update_cache_timestamp_def
        OptimizedRecommenderSystem_def double_sub_def)
  have ttl': "cache_ttl ?s = 3600"
    by (simp add: store_recommendation_def update_cache_timestamp_def OptimizedRecommenderSystem_def)
  have a: "cached_recommendation ?s 3599 ''collab_U1_5'' = Some [''I5'']"
    and b: "cached_recommendation ?s 3600 ''collab_U1_5'' = None"
    using cache_entry_validity [of ?init 0 "''collab_U1_5''" "[''I5'']" 3599]
      cache_entry_validity [of ?init 0 "''collab_U1_5''" "[''I5'']" 3600] ttl
    by (simp_all add: double_sub_def)
  from cache_entry_validity [where s = ?s and now = 200 and k = "''collab_U1_5''" and ?t2.0 = 3599] v a b
  show ?thesis by simp
qed

text \<open>
  Claim C4 as stated fails in two places. An entry stored at time 0 has age 3600 at time
  3600, which does not exceed the ttl of 3600, and \<open>_clean_cache\<close> removes it. And for an
  entry stored at the clock reading 0.1 and looked up at the reading 3600.1 (the two
  doubles written as fractions), the difference of the readings is below 3600, yet the
  age the subtraction gives is 3600 and the lookup is a miss.
\<close>

theorem cache_entry_validity_counterexample:
  "\<not> cache_ttl (store_recommendation (OptimizedRecommenderSystem UserStore ProductStore) 0
          ''collab_U1_5'' [''I5'']) < 3600 - 0
   \<and> recommendation_cache
       (store_recommendation (OptimizedRecommenderSystem UserStore ProductStore) 0 ''collab_U1_5'' [''I5''])
       ''collab_U1_5'' = Some [''I5'']
   \<and> recommendation_cache
       (clean_cache
          (store_recommendation (OptimizedRecommenderSystem UserStore ProductStore) 0 ''collab_U1_5'' [''I5''])
          3600)
       ''collab_U1_5'' = None
   \<and> 7916703622312755 / 2199023255552 - 3602879701896397 / 36028797018963968
       < cache_ttl (OptimizedRecommenderSystem UserStore ProductStore)
   \<and> cached_recommendation
       (store_recommendation (OptimizedRecommenderSystem UserStore ProductStore)
          (3602879701896397 / 36028797018963968) ''collab_U1_5'' [''I5''])
       (7916703622312755 / 2199023255552) ''collab_U1_5'' = None"
  by (simp add: clean_cache_def expired_def store_recommendation_def update_cache_timestamp_def
      OptimizedRecommenderSystem_def cached_recommendation_def is_cache_valid_def
      double_sub_example)
    (simp add: double_sub_def)

text \<open>
  What \<open>_clean_cache\<close> leaves behind. A preference vector is filed under the user
  identifier and its time stamp under another key, so the pop under the time-stamp key
  misses the vector; the lists of similar users are not popped at all. Both stay in
  their cache after the time stamp is gone, where only \<open>clear_cache\<close> removes them; the
  lookup, which asks for a valid time stamp, no longer returns them.
\<close>

lemma clean_cache_leaves_preferences:
  assumes "cache_timestamps s uid = None" and "cache_ttl s \<le> double_sub now t"
  shows "user_preference_cache (clean_cache (store_preferences s t uid prefs) now) uid = Some prefs"
    and "cache_timestamps (clean_cache (store_preferences s t uid prefs) now) (''prefs_'' @ uid) = None"
    and "cached_preferences (clean_cache (store_preferences s t uid prefs) now) t' uid = None"
  using assms
  by (simp_all add: clean_cache_def expired_def store_preferences_def update_cache_timestamp_def
      cached_preferences_def is_cache_valid_def)

lemma clean_cache_leaves_similar_users:
  "precomputed_similarities (clean_cache s now) = precomputed_similarities s"
  by (simp add: clean_cache_def)

subsection \<open>Similarity of two users\<close>

lemma get_preferences_error: "get_preferences u = Inl e \<Longrightarrow> e = ZeroDivisionError"
  by (auto simp: get_preferences_def Let_def split: if_splits)

lemma compute_cosine_similarity_symmetric:
  "compute_cosine_similarity us a b = compute_cosine_similarity us b a"
proof (cases "map_of (users us) a")
  case None
  then show ?thesis by (simp add: compute_cosine_similarity_def split: option.splits)
next
  case ua: (Some ua)
  show ?thesis
  proof (cases "map_of (users us) b")
    case None
    then show ?thesis by (simp add: compute_cosine_similarity_def split: option.splits)
  next
    case ub: (Some ub)
    show ?thesis
    proof (cases "get_preferences ua")
      case (Inl e)
      then show ?thesis using ua ub get_preferences_error [OF Inl]
        by (auto simp: compute_cosine_similarity_def split: sum.splits dest: get_preferences_error)
    next
      case pa: (Inr pa)
      show ?thesis
      proof (cases "get_preferences ub")
        case (Inl e)
        then show ?thesis using ua ub pa by (simp add: compute_cosine_similarity_def)
      next
        case pb: (Inr pb)
        show ?thesis
          using ua ub pa pb
          by (simp add: compute_cosine_similarity_def Let_def Int_commute mult.commute disj_commute)
      qed
    qed
  qed
qed

text \<open>
  A store with a registered user \<open>U1\<close> who has bought nothing and a user \<open>U2\<close> whose only
  purchase has amount 0, as the loader records a purchase with a blank amount.
\<close>

definition zero_weight_users :: user_store where
  "zero_weight_users =
     \<lparr>users =
        [(''U1'', \<lparr>user_id = ''U1'', user_info = [],
                  purchase_history = \<lparr>nodes = [], size_lph = 0\<rparr>,
                  preferences = [], category_spending = [], total_spent = 0\<rparr>),
         (''U2'', \<lparr>user_id = ''U2'', user_info = [],
                  purchase_history = \<lparr>nodes = [(''P1'', [(''total_amount'', PyNum 0)])], size_lph = 1\<rparr>,
                  preferences = [(''Books'', 0)],
                  category_spending = [(''Books'', 0)], total_spent = 0\<rparr>)],
      user_categories = [(''U2'', [''Books''])]\<rparr>"

text \<open>
  Claim C6 fails on the code: \<open>U1\<close> has an empty preference vector, yet its similarity to
  \<open>U2\<close> is not 0 but a ZeroDivisionError, raised while \<open>U2\<close>'s weights, which add up to
  zero, are normalised.
\<close>

theorem similarity_raises_on_zero_weights:
  "load_purchases [(''U2'', ''P1'', ''Books'', Some [(''total_amount'', PyNum 0)])]
     (add_user ''U1'' None UserStore) = Inr zero_weight_users
   \<and> compute_cosine_similarity zero_weight_users ''U1'' ''U2'' = Inl ZeroDivisionError
   \<and> fst (compute_cosine_similarity_cached
            (OptimizedRecommenderSystem zero_weight_users ProductStore) ''U1'' ''U2'')
       = Inl ZeroDivisionError"
proof (intro conjI)
  show "load_purchases [(''U2'', ''P1'', ''Books'', Some [(''total_amount'', PyNum 0)])]
     (add_user ''U1'' None UserStore) = Inr zero_weight_users"
    by (simp add: add_purchase_def add_user_def UserStore_def User_def user_add_purchase_def
      purchase_amount_def defaultdict_add_def Let_def lph_add_purchase_def LinkedPurchaseHistory_def
      zero_weight_users_def)
  show c: "compute_cosine_similarity zero_weight_users ''U1'' ''U2'' = Inl ZeroDivisionError"
    by (simp add: compute_cosine_similarity_def zero_weight_users_def get_preferences_def)
  show "fst (compute_cosine_similarity_cached
            (OptimizedRecommenderSystem zero_weight_users ProductStore) ''U1'' ''U2'')
       = Inl ZeroDivisionError"
    using c
    by (simp add: compute_cosine_similarity_cached_def lru_cache_call_def OptimizedRecommenderSystem_def)
qed


subsection \<open>Similar users and the collaborative strategy\<close>

text \<open>\<open>str(n)\<close> for an integer, as the cache keys format their count.\<close>

function str_nat :: "nat \<Rightarrow> string" where
  "str_nat n = (if n < 10 then [char_of (48 + n)] else str_nat (n div 10) @ [char_of (48 + n mod 10)])"
  by pat_completeness auto
termination
  by (relation "measure id") auto

definition str_int :: "int \<Rightarrow> string" where
  "str_int i = (if i < 0 then CHR ''-'' # str_nat (nat (- i)) else str_nat (nat i))"

text \<open>
  The loop of \<open>get_similar_users_cached\<close> over the keys of \<open>users\<close>: the similarity to every
  other user is asked of the memoised function, and kept when it is positive. An
  exception leaves the loop with the state reached so far.
\<close>

fun collect_similarities ::
  "(user_store \<Rightarrow> string \<Rightarrow> string \<Rightarrow> py_error + real) \<Rightarrow> optimized_recommender_system \<Rightarrow> string
     \<Rightarrow> string list \<Rightarrow> (string \<times> real) list
     \<Rightarrow> (py_error + (string \<times> real) list) \<times> optimized_recommender_system" where
  "collect_similarities cosine s uid [] similarities = (Inr similarities, s)"
| "collect_similarities cosine s uid (other_id # rest) similarities =
     (if other_id = uid then collect_similarities cosine s uid rest similarities
      else case lru_cache_call cosine s uid other_id of
             (Inl e, s') \<Rightarrow> (Inl e, s')
           | (Inr similarity, s') \<Rightarrow>
               collect_similarities cosine s' uid rest
                 (if 0 < similarity then similarities @ [(other_id, similarity)] else similarities))"

definition get_similar_users_cached ::
  "(user_store \<Rightarrow> string \<Rightarrow> string \<Rightarrow> py_error + real) \<Rightarrow> optimized_recommender_system \<Rightarrow> real
     \<Rightarrow> string \<Rightarrow> int \<Rightarrow> (py_error + (string \<times> real) list) \<times> optimized_recommender_system" where
  "get_similar_users_cached cosine s now uid top_n =
     (let cache_key = ''similar_users_'' @ uid @ ''_'' @ str_int top_n in
      case (if is_cache_valid s now cache_key then precomputed_similarities s cache_key else None) of
        Some cached \<Rightarrow> (Inr (slice_to top_n cached), s)
      | None \<Rightarrow>
          (case collect_similarities cosine s uid (map fst (users (user_store s))) [] of
             (Inl e, s') \<Rightarrow> (Inl e, s')
           | (Inr similarities, s') \<Rightarrow>
               let sorted_similarities = sorted_reverse snd similarities in
               (Inr (slice_to top_n sorted_similarities),
                update_cache_timestamp
                  (s'\<lparr>precomputed_similarities :=
                        (precomputed_similarities s')(cache_key \<mapsto> sorted_similarities)\<rparr>)
                  now cache_key)))"

text \<open>
  The loop of \<open>get_similar_users_fast\<close>: the similarity of every other user is read from
  the precomputed matrix, 0 when the pair is missing, and kept when it is positive.
\<close>

definition matrix_similarities ::
  "((string \<times> string), real) dict \<Rightarrow> user_store \<Rightarrow> string \<Rightarrow> (string \<times> real) list" where
  "matrix_similarities matrix us uid =
     filter (\<lambda>(other_id, similarity). 0 < similarity)
       (map (\<lambda>other_id. (other_id, case map_of matrix (uid, other_id) of None \<Rightarrow> 0 | Some v \<Rightarrow> v))
          (filter (\<lambda>other_id. other_id \<noteq> uid) (map fst (users us))))"

text \<open>\<open>get_similar_users_fast\<close> reads the precomputed matrix when there is a non-empty one.\<close>

definition get_similar_users_fast ::
  "(user_store \<Rightarrow> string \<Rightarrow> string \<Rightarrow> py_error + real) \<Rightarrow> optimized_recommender_system \<Rightarrow> real
     \<Rightarrow> string \<Rightarrow> int \<Rightarrow> (py_error + (string \<times> real) list) \<times> optimized_recommender_system" where
  "get_similar_users_fast cosine s now uid top_n =
     (case similarity_matrix s of
        None \<Rightarrow> get_similar_users_cached cosine s now uid top_n
      | Some matrix \<Rightarrow>
          if matrix = [] then get_similar_users_cached cosine s now uid top_n
          else (Inr (slice_to top_n (sorted_reverse snd (matrix_similarities matrix (user_store s) uid))), s))"

text \<open>The similar users that \<open>recommend_by_similar_users_cached\<close> asks for: the first 20.\<close>

definition similar_users_top20 ::
  "(user_store \<Rightarrow> string \<Rightarrow> string \<Rightarrow> py_error + real) \<Rightarrow> optimized_recommender_system \<Rightarrow> real
     \<Rightarrow> string \<Rightarrow> (py_error + (string \<times> real) list) \<times> optimized_recommender_system" where
  "similar_users_top20 cosine s now uid =
     (if similarity_matrix s \<noteq> None \<and> similarity_matrix s \<noteq> Some []
      then get_similar_users_fast cosine s now uid 20
      else get_similar_users_cached cosine s now uid 20)"

text \<open>
  The scoring loops of \<open>recommend_by_similar_users_cached\<close>. \<open>item_scores[item] += similarity\<close>
  adds a float to the score so far, which is the integer 0 for a new item; the sum is
  rounded. The items of one user are taken in the order of the user's history, as in
  the unweighted loops; every item is met once per user.
\<close>

definition defaultdict_add_float :: "'k \<Rightarrow> real \<Rightarrow> ('k, real) dict \<Rightarrow> ('k, real) dict" where
  "defaultdict_add_float k a d =
     AList.update k (double_add (case map_of d k of None \<Rightarrow> 0 | Some v \<Rightarrow> v) a) d"

fun score_items_weighted ::
  "product_store \<Rightarrow> real \<Rightarrow> string list \<Rightarrow> (string, real) dict \<Rightarrow> py_error + (string, real) dict" where
  "score_items_weighted ps similarity [] item_scores = Inr item_scores"
| "score_items_weighted ps similarity (item # rest) item_scores =
     (case is_item_available ps item of
        Inl e \<Rightarrow> Inl e
      | Inr ok \<Rightarrow>
          score_items_weighted ps similarity rest
            (if ok then defaultdict_add_float item similarity item_scores else item_scores))"

fun score_weighted_users ::
  "user_store \<Rightarrow> product_store \<Rightarrow> string set \<Rightarrow> (string \<times> real) list \<Rightarrow> (string, real) dict
     \<Rightarrow> py_error + (string, real) dict" where
  "score_weighted_users us ps user_items [] item_scores = Inr item_scores"
| "score_weighted_users us ps user_items ((other_id, similarity) # rest) item_scores =
     (case map_of (users us) other_id of
        None \<Rightarrow> Inl KeyError
      | Some other_user \<Rightarrow>
          (case score_items_weighted ps similarity
                  (filter (\<lambda>item. item \<notin> user_items) (remdups (get_items other_user))) item_scores of
             Inl e \<Rightarrow> Inl e
           | Inr item_scores' \<Rightarrow> score_weighted_users us ps user_items rest item_scores'))"

definition recommend_by_similar_users_cached ::
  "(user_store \<Rightarrow> string \<Rightarrow> string \<Rightarrow> py_error + real) \<Rightarrow> optimized_recommender_system \<Rightarrow> real
     \<Rightarrow> string \<Rightarrow> int \<Rightarrow> (py_error + string list) \<times> optimized_recommender_system" where
  "recommend_by_similar_users_cached cosine s now uid top_k =
     (let cache_key = ''collab_'' @ uid @ ''_'' @ str_int top_k in
      case cached_recommendation s now cache_key of
        Some result \<Rightarrow> (Inr result, s)
      | None \<Rightarrow>
          (case map_of (users (user_store s)) uid of
             None \<Rightarrow> (Inr [], s)
           | Some u \<Rightarrow>
               (case similar_users_top20 cosine s now uid of
                  (Inl e, s1) \<Rightarrow> (Inl e, s1)
                | (Inr similar_users, s1) \<Rightarrow>
                    (case score_weighted_users (user_store s1) (product_store s1) (set (get_items u))
                            similar_users [] of
                       Inl e \<Rightarrow> (Inl e, s1)
                     | Inr item_scores \<Rightarrow>
                         if item_scores = [] then (Inr [], s1)
                         else
                           let result = map fst (nlargest top_k (\<lambda>x. (snd x, fst x)) item_scores)
                           in (Inr result, store_recommendation s1 now cache_key result)))))"

text \<open>
  The collaborative ranking in the words of the specification. The top \<open>n\<close> of a pool of
  users with their similarities are \<open>n\<close> entries of the pool (all of them when the pool is
  smaller), most similar first, such that no entry left out is more similar than one
  taken. The candidates of a user are the available items that one of the similar users
  bought and the user did not. The score of an item is the sum of the weights of the
  similar users who bought it: a sum of integers in the unweighted variant, and in the
  weighted variant the float sum, added up in the order of the similar users. The ranking
  lists the candidates by decreasing pair of score and identifier.
\<close>

definition top_similar :: "nat \<Rightarrow> (string \<times> real) list \<Rightarrow> (string \<times> real) list \<Rightarrow> bool" where
  "top_similar n pool sims \<longleftrightarrow>
     length sims = min n (length pool) \<and> sorted_wrt (\<lambda>x y. snd y \<le> snd x) sims \<and>
     mset sims \<subseteq># mset pool \<and>
     (\<forall>x \<in># mset pool - mset sims. \<forall>y \<in> set sims. snd x \<le> snd y)"

text \<open>
  The memo table agrees with the body when every stored similarity is what the body
  computes on the present store; then the pool that the loop collects lists the other
  users of positive similarity, in the order of the store.
\<close>

definition memo_consistent ::
  "(user_store \<Rightarrow> string \<Rightarrow> string \<Rightarrow> py_error + real) \<Rightarrow> optimized_recommender_system \<Rightarrow> bool" where
  "memo_consistent cosine s \<longleftrightarrow>
     (\<forall>((a, b), v) \<in> set (lru_similarity s). cosine (user_store s) a b = Inr v)"

definition positive_similarities ::
  "(user_store \<Rightarrow> string \<Rightarrow> string \<Rightarrow> py_error + real) \<Rightarrow> user_store \<Rightarrow> string \<Rightarrow> string list
     \<Rightarrow> (string \<times> real) list" where
  "positive_similarities cosine us uid others =
     concat (map (\<lambda>other_id. case cosine us uid other_id of
                                Inl e \<Rightarrow> []
                              | Inr v \<Rightarrow> if 0 < v then [(other_id, v)] else [])
               (filter (\<lambda>other_id. other_id \<noteq> uid) others))"

definition purchased :: "user_store \<Rightarrow> string \<Rightarrow> string set" where
  "purchased us uid = (case map_of (users us) uid of None \<Rightarrow> {} | Some u \<Rightarrow> set (get_items u))"

definition candidate_items ::
  "user_store \<Rightarrow> product_store \<Rightarrow> string set \<Rightarrow> (string \<times> 'a) list \<Rightarrow> string set" where
  "candidate_items us ps user_items similar_users =
     {item. \<exists>(other_id, weight) \<in> set similar_users.
              item \<in> purchased us other_id \<and> item \<notin> user_items
              \<and> is_item_available ps item = Inr True}"

definition candidate_score :: "user_store \<Rightarrow> (string \<times> 'a::comm_monoid_add) list \<Rightarrow> string \<Rightarrow> 'a" where
  "candidate_score us similar_users item =
     sum_list (map snd (filter (\<lambda>(other_id, weight). item \<in> purchased us other_id) similar_users))"

definition top_by_score :: "nat \<Rightarrow> (string \<Rightarrow> 'a::linorder) \<Rightarrow> string set \<Rightarrow> string list" where
  "top_by_score k score candidates =
     take k (rev (sort_key (\<lambda>item. (score item, item)) (sorted_list_of_set candidates)))"

definition weighted_score :: "user_store \<Rightarrow> (string \<times> real) list \<Rightarrow> string \<Rightarrow> real" where
  "weighted_score us similar_users item =
     foldl double_add 0
       (map snd (filter (\<lambda>(other_id, weight). item \<in> purchased us other_id) similar_users))"

text \<open>
  A store on which every step of the similarity is exact in floats as over the reals.
  \<open>U1\<close> bought \<open>I1\<close> in category \<open>A\<close> for the amount 1 and \<open>I2\<close> in \<open>B\<close> for the amount 0; \<open>U2\<close>
  bought \<open>I3\<close> in \<open>A\<close> for 1, \<open>I4\<close> in \<open>B\<close> and \<open>I5\<close> in \<open>C\<close> for 0. The normalised preferences
  are 1 for \<open>A\<close> and 0 elsewhere, so the dot product and both magnitudes are 1 and the
  similarity of the two users is 1.
\<close>

definition tie_users :: user_store where
  "tie_users =
     \<lparr>users =
        [(''U1'', \<lparr>user_id = ''U1'', user_info = [],
                  purchase_history =
                    \<lparr>nodes = [(''I2'', [(''total_amount'', PyNum 0)]), (''I1'', [(''total_amount'', PyNum 1)])],
                     size_lph = 2\<rparr>,
                  preferences = [(''A'', 1), (''B'', 0)],
                  category_spending = [(''A'', 1), (''B'', 0)], total_spent = 1\<rparr>),
         (''U2'', \<lparr>user_id = ''U2'', user_info = [],
                  purchase_history =
                    \<lparr>nodes = [(''I5'', [(''total_amount'', PyNum 0)]), (''I4'', [(''total_amount'', PyNum 0)]),
                              (''I3'', [(''total_amount'', PyNum 1)])],
                     size_lph = 3\<rparr>,
                  preferences = [(''A'', 1), (''B'', 0), (''C'', 0)],
                  category_spending = [(''A'', 1), (''B'', 0), (''C'', 0)], total_spent = 1\<rparr>)],
      user_categories = [(''U1'', [''A'', ''B'']), (''U2'', [''A'', ''B'', ''C''])]\<rparr>"

text \<open>
  A store with a crowd: \<open>V00\<close> bought \<open>P\<close> in category \<open>A\<close> and \<open>Q\<close> in \<open>B\<close>, and each of the 21
  users \<open>V01\<close> to \<open>V21\<close> bought an item of its own in \<open>A\<close> and \<open>Q\<close> in \<open>B\<close>.
\<close>

definition crowd_names :: "string list" where
  "crowd_names = [''01'', ''02'', ''03'', ''04'', ''05'', ''06'', ''07'', ''08'', ''09'', ''10'', ''11'',
     ''12'', ''13'', ''14'', ''15'', ''16'', ''17'', ''18'', ''19'', ''20'', ''21'']"

definition crowd_purchases :: "(string \<times> string \<times> string \<times> purchase_data option) list" where
  "crowd_purchases =
     [(''V00'', ''P'', ''A'', None), (''V00'', ''Q'', ''B'', None)]
     @ concat (map (\<lambda>n. [(''V'' @ n, ''W'' @ n, ''A'', None), (''V'' @ n, ''Q'', ''B'', None)]) crowd_names)"

definition crowd_users :: user_store where
  "crowd_users = (case load_purchases crowd_purchases UserStore of Inl e \<Rightarrow> UserStore | Inr s \<Rightarrow> s)"

definition crowd_products :: product_store where
  "crowd_products =
     (case load_products ([(''P'', ''A'', None), (''Q'', ''B'', None)]
                          @ map (\<lambda>n. (''W'' @ n, ''A'', None)) crowd_names) ProductStore of
        Inl e \<Rightarrow> ProductStore
      | Inr s \<Rightarrow> s)"

lemma defaultdict_add_lookup:
  "map_of (defaultdict_add k a d) = (map_of d)(k \<mapsto> defaultdict_get d k + a)"
  by (simp add: defaultdict_add_def defaultdict_get_def update_conv')

lemma defaultdict_get_add:
  "defaultdict_get (defaultdict_add k a d) i = (if i = k then defaultdict_get d k + a else defaultdict_get d i)"
  by (simp add: defaultdict_get_def [of "defaultdict_add k a d"] defaultdict_add_lookup)
     (simp add: defaultdict_get_def)

lemma defaultdict_add_keyset:
  "fst ` set (defaultdict_add k a d) = insert k (fst ` set d)"
  using defaultdict_add_keys [of k a d]
  by (metis (no_types, lifting) insert_absorb list.set_map set_append list.simps(15) Un_insert_right
      sup_bot.right_neutral empty_set)

lemma score_items_result:
  fixes w :: "'a::comm_monoid_add"
  assumes "score_items ps w xs d = Inr d'" "distinct xs"
  shows "(\<forall>i. defaultdict_get d' i
              = defaultdict_get d i + (if i \<in> set xs \<and> is_item_available ps i = Inr True then w else 0))
       \<and> fst ` set d' = fst ` set d \<union> {i \<in> set xs. is_item_available ps i = Inr True}"
  using assms
proof (induction xs arbitrary: d)
  case Nil
  then show ?case by simp
next
  case (Cons x xs)
  from Cons.prems(1) obtain ok where ok: "is_item_available ps x = Inr ok"
    and rest: "score_items ps w xs (if ok then defaultdict_add x w d else d) = Inr d'"
    by (auto split: sum.splits)
  have dx: "distinct xs" "x \<notin> set xs" using Cons.prems(2) by simp_all
  from Cons.IH [OF rest dx(1)]
  have ih: "\<forall>i. defaultdict_get d' i
              = defaultdict_get (if ok then defaultdict_add x w d else d) i
                + (if i \<in> set xs \<and> is_item_available ps i = Inr True then w else 0)"
    "fst ` set d' = fst ` set (if ok then defaultdict_add x w d else d)
        \<union> {i \<in> set xs. is_item_available ps i = Inr True}" by simp_all
  show ?case
  proof (cases ok)
    case True
    have "defaultdict_get d' i
        = defaultdict_get d i + (if i \<in> set (x # xs) \<and> is_item_available ps i = Inr True then w else 0)" for i
      using ih(1) [rule_format, of i] True ok dx(2) by (auto simp: defaultdict_get_add)
    moreover have "fst ` set d' = fst ` set d \<union> {i \<in> set (x # xs). is_item_available ps i = Inr True}"
      using ih(2) True ok by (auto simp: defaultdict_add_keyset)
    ultimately show ?thesis by blast
  next
    case False
    have "defaultdict_get d' i
        = defaultdict_get d i + (if i \<in> set (x # xs) \<and> is_item_available ps i = Inr True then w else 0)" for i
      using ih(1) [rule_format, of i] False ok by auto
    moreover have "fst ` set d' = fst ` set d \<union> {i \<in> set (x # xs). is_item_available ps i = Inr True}"
      using ih(2) False ok by auto
    ultimately show ?thesis by blast
  qed
qed


lemma candidate_items_Cons:
  "candidate_items us ps ui ((other, w) # sims)
     = {i \<in> purchased us other. i \<notin> ui \<and> is_item_available ps i = Inr True}
       \<union> candidate_items us ps ui sims"
  by (auto simp: candidate_items_def)

lemma score_similar_users_result:
  fixes sims :: "(string \<times> 'a::comm_monoid_add) list"
  assumes "score_similar_users us ps ui sims d = Inr d'"
  shows "(\<forall>i. defaultdict_get d' i
              = defaultdict_get d i
                + sum_list (map snd (filter (\<lambda>(other, w). i \<in> purchased us other \<and> i \<notin> ui
                                                \<and> is_item_available ps i = Inr True) sims)))
       \<and> fst ` set d' = fst ` set d \<union> candidate_items us ps ui sims"
  using assms
proof (induction sims arbitrary: d)
  case Nil
  then show ?case by (simp add: candidate_items_def)
next
  case (Cons x sims)
  obtain other w where x: "x = (other, w)" by (cases x)
  from Cons.prems x obtain ou d1 where ou: "map_of (users us) other = Some ou"
    and d1: "score_items ps w (filter (\<lambda>item. item \<notin> ui) (remdups (get_items ou))) d = Inr d1"
    and rest: "score_similar_users us ps ui sims d1 = Inr d'"
    by (auto split: option.splits sum.splits)
  have xs: "set (filter (\<lambda>item. item \<notin> ui) (remdups (get_items ou))) = {i \<in> purchased us other. i \<notin> ui}"
    using ou by (auto simp: purchased_def)
  have "distinct (filter (\<lambda>item. item \<notin> ui) (remdups (get_items ou)))" by simp
  from score_items_result [OF d1 this]
  have s1: "\<And>i. defaultdict_get d1 i
              = defaultdict_get d i
                + (if i \<in> purchased us other \<and> i \<notin> ui \<and> is_item_available ps i = Inr True then w else 0)"
    and k1: "fst ` set d1 = fst ` set d \<union> {i \<in> purchased us other. i \<notin> ui \<and> is_item_available ps i = Inr True}"
    unfolding xs by auto
  from Cons.IH [OF rest]
  have s2: "\<And>i. defaultdict_get d' i
              = defaultdict_get d1 i
                + sum_list (map snd (filter (\<lambda>(other, w). i \<in> purchased us other \<and> i \<notin> ui
                                                \<and> is_item_available ps i = Inr True) sims))"
    and k2: "fst ` set d' = fst ` set d1 \<union> candidate_items us ps ui sims" by auto
  have "defaultdict_get d' i
              = defaultdict_get d i
                + sum_list (map snd (filter (\<lambda>(other, w). i \<in> purchased us other \<and> i \<notin> ui
                                                \<and> is_item_available ps i = Inr True) (x # sims)))" for i
    unfolding s2 [of i] s1 [of i] x by (simp add: add.assoc)
  moreover have "fst ` set d' = fst ` set d \<union> candidate_items us ps ui (x # sims)"
    unfolding k2 k1 x candidate_items_Cons by blast
  ultimately show ?case by blast
qed

lemma score_similar_users_from_empty:
  fixes sims :: "(string \<times> 'a::comm_monoid_add) list"
  assumes "score_similar_users us ps ui sims [] = Inr d"
  shows "fst ` set d = candidate_items us ps ui sims"
    and "(i, v) \<in> set d \<Longrightarrow> v = candidate_score us sims i"
proof -
  from score_similar_users_result [OF assms]
  have sc: "\<And>i. defaultdict_get d i
              = sum_list (map snd (filter (\<lambda>(other, w). i \<in> purchased us other \<and> i \<notin> ui
                                                \<and> is_item_available ps i = Inr True) sims))"
    and ks: "fst ` set d = candidate_items us ps ui sims"
    by (auto simp: defaultdict_get_def)
  show "fst ` set d = candidate_items us ps ui sims" by (rule ks)
  assume m: "(i, v) \<in> set d"
  have dd: "distinct (map fst d)" using score_similar_users_keys [OF assms] by simp
  then have "map_of d i = Some v" using m by simp
  then have v: "v = defaultdict_get d i" by (simp add: defaultdict_get_def)
  have "i \<in> candidate_items us ps ui sims" using m ks by force
  then have "i \<notin> ui" "is_item_available ps i = Inr True"
    by (auto simp: candidate_items_def)
  then have "filter (\<lambda>(other, w). i \<in> purchased us other \<and> i \<notin> ui
                                                \<and> is_item_available ps i = Inr True) sims
      = filter (\<lambda>(other, w). i \<in> purchased us other) sims"
    by (intro filter_cong) auto
  then show "v = candidate_score us sims i" using v sc [of i] by (simp add: candidate_score_def)
qed

lemma ranking_by_score:
  fixes d :: "(string \<times> 'a::linorder) list"
  assumes dd: "distinct (map fst d)" and sc: "\<And>i v. (i, v) \<in> set d \<Longrightarrow> score i = v"
  shows "map fst (nlargest k (\<lambda>x. (snd x, fst x)) d) = top_by_score (nat k) score (fst ` set d)"
proof -
  let ?k1 = "\<lambda>x :: string \<times> 'a. (snd x, fst x)"
  let ?k2 = "\<lambda>item. (score item, item)"
  let ?L1 = "sort_key ?k1 (rev d)"
  let ?L2 = "sort_key ?k2 (sorted_list_of_set (fst ` set d))"
  have d1: "distinct d" using dd by (rule distinct_map [THEN iffD1, THEN conjunct1])
  have "inj ?k1" by (auto simp: inj_on_def prod_eq_iff)
  then have "inj_on ?k1 (set d)" by (rule inj_on_subset) simp
  then have dist1: "distinct (map ?k1 ?L1)" using d1 by (simp add: distinct_map)
  have "inj ?k2" by (auto simp: inj_on_def)
  then have "inj_on ?k2 (fst ` set d)" by (rule inj_on_subset) simp
  then have dist2: "distinct (map ?k2 ?L2)" by (simp add: distinct_map)
  have "?k1 ` set d = ?k2 ` fst ` set d"
  proof (rule set_eqI)
    fix p
    show "p \<in> ?k1 ` set d \<longleftrightarrow> p \<in> ?k2 ` fst ` set d"
    proof
      assume "p \<in> ?k1 ` set d"
      then obtain i v where "(i, v) \<in> set d" "p = (v, i)" by auto
      then show "p \<in> ?k2 ` fst ` set d" using sc [of i v] by force
    next
      assume "p \<in> ?k2 ` fst ` set d"
      then obtain i v where "(i, v) \<in> set d" "p = (score i, i)" by auto
      then show "p \<in> ?k1 ` set d" using sc [of i v] by force
    qed
  qed
  then have sets: "set (map ?k1 ?L1) = set (map ?k2 ?L2)" by simp
  have "map ?k1 ?L1 = map ?k2 ?L2"
    by (rule sorted_distinct_set_unique [OF _ dist1 _ dist2 sets]) simp_all
  then have "map snd (map ?k1 ?L1) = map snd (map ?k2 ?L2)" by simp
  then have eq: "map fst ?L1 = ?L2" by (simp add: comp_def)
  have "map fst (nlargest k ?k1 d) = take (nat k) (rev (map fst ?L1))"
    by (simp add: nlargest_def sorted_reverse_def take_map rev_map)
  then show ?thesis by (simp add: eq top_by_score_def)
qed

lemma sorted_reverse_descending: "sorted_wrt (\<lambda>x y. f y \<le> f x) (sorted_reverse f xs)"
proof -
  have "sorted (map f (sort_key f (rev xs)))" by simp
  then have "sorted_wrt (\<lambda>x y. f x \<le> f y) (sort_key f (rev xs))" by (simp add: sorted_map)
  then show ?thesis by (simp add: sorted_reverse_def sorted_wrt_rev)
qed

lemma mset_sorted_reverse: "mset (sorted_reverse f xs) = mset xs"
  by (simp add: sorted_reverse_def)

lemma top_similar_take:
  assumes "mset ranked = mset pool" and "sorted_wrt (\<lambda>x y. snd y \<le> snd x) ranked"
  shows "top_similar n pool (take n ranked)"
proof -
  have len: "length ranked = length pool" using assms(1) by (rule mset_eq_length)
  have split: "mset pool = mset (take n ranked) + mset (drop n ranked)"
    using assms(1) by (metis append_take_drop_id mset_append)
  have "sorted_wrt (\<lambda>x y. snd y \<le> snd x) (take n ranked @ drop n ranked)" using assms(2) by simp
  then have s: "sorted_wrt (\<lambda>x y. snd y \<le> snd x) (take n ranked)"
    and o: "\<forall>y \<in> set (take n ranked). \<forall>x \<in> set (drop n ranked). snd x \<le> snd y"
    unfolding sorted_wrt_append by auto
  have "mset pool - mset (take n ranked) = mset (drop n ranked)" unfolding split by simp
  then show ?thesis
    unfolding top_similar_def using s o len split by auto
qed

lemma top_similar_sorted_reverse: "top_similar n pool (take n (sorted_reverse snd pool))"
  by (rule top_similar_take) (simp_all add: mset_sorted_reverse sorted_reverse_descending)

lemma lru_cache_call_consistent:
  assumes "memo_consistent cosine s" and "lru_cache_call cosine s a b = (r, s')"
  shows "r = cosine (user_store s) a b \<and> memo_consistent cosine s' \<and> user_store s' = user_store s
       \<and> product_store s' = product_store s"
proof (cases "map_of (lru_similarity s) (a, b)")
  case None
  show ?thesis
  proof (cases "cosine (user_store s) a b")
    case (Inl e)
    with None assms show ?thesis by (simp add: lru_cache_call_def)
  next
    case (Inr v)
    with None assms(2) have r: "r = Inr v"
      and s': "s' = s\<lparr>lru_similarity := take 1000 (((a, b), v) # lru_similarity s)\<rparr>"
      by (simp_all add: lru_cache_call_def)
    have "set (take 1000 (((a, b), v) # lru_similarity s)) \<subseteq> insert ((a, b), v) (set (lru_similarity s))"
      using set_take_subset [of 1000 "((a, b), v) # lru_similarity s"] by simp
    then have "memo_consistent cosine s'"
      using assms(1) Inr unfolding memo_consistent_def s' by auto
    with r Inr s' show ?thesis by simp
  qed
next
  case (Some v)
  then have m: "((a, b), v) \<in> set (lru_similarity s)" by (rule map_of_SomeD)
  with assms(1) have c: "cosine (user_store s) a b = Inr v" by (auto simp: memo_consistent_def)
  from Some assms(2) have r: "r = Inr v"
    and s': "s' = s\<lparr>lru_similarity := ((a, b), v) # AList.delete (a, b) (lru_similarity s)\<rparr>"
    by (simp_all add: lru_cache_call_def)
  have "set (AList.delete (a, b) (lru_similarity s)) \<subseteq> set (lru_similarity s)"
    by (auto simp: AList.delete_eq)
  then have "memo_consistent cosine s'"
    using assms(1) m unfolding memo_consistent_def s' by auto
  with r c s' show ?thesis by simp
qed

lemma lru_cache_call_stores:
  "lru_cache_call cosine s a b = (r, s') \<Longrightarrow>
     user_store s' = user_store s \<and> product_store s' = product_store s"
  by (auto simp: lru_cache_call_def split: option.splits sum.splits)

lemma collect_similarities_stores:
  "collect_similarities cosine s uid others acc = (r, s') \<Longrightarrow>
     user_store s' = user_store s \<and> product_store s' = product_store s"
proof (induction others arbitrary: s acc)
  case Nil
  then show ?case by simp
next
  case (Cons other others)
  show ?case
  proof (cases "other = uid")
    case True
    then show ?thesis using Cons by simp
  next
    case False
    obtain r1 s1 where c: "lru_cache_call cosine s uid other = (r1, s1)"
      by (cases "lru_cache_call cosine s uid other")
    note st = lru_cache_call_stores [OF c]
    show ?thesis
    proof (cases r1)
      case (Inl e)
      then show ?thesis using Cons.prems False c st by simp
    next
      case (Inr v)
      then have "collect_similarities cosine s1 uid others
          (if 0 < v then acc @ [(other, v)] else acc) = (r, s')"
        using Cons.prems False c by simp
      from Cons.IH [OF this] st show ?thesis by simp
    qed
  qed
qed

lemma collect_similarities_pool:
  "collect_similarities cosine s uid others acc = (Inr pool, s') \<Longrightarrow> (x, w) \<in> set pool \<Longrightarrow>
     (x, w) \<in> set acc \<or> (0 < w \<and> x \<noteq> uid \<and> x \<in> set others)"
proof (induction others arbitrary: s acc)
  case Nil
  then show ?case by simp
next
  case (Cons other others)
  show ?case
  proof (cases "other = uid")
    case True
    with Cons.prems have "collect_similarities cosine s uid others acc = (Inr pool, s')" by simp
    from Cons.IH [OF this Cons.prems(2)] show ?thesis by auto
  next
    case False
    obtain r1 s1 where c: "lru_cache_call cosine s uid other = (r1, s1)"
      by (cases "lru_cache_call cosine s uid other")
    with Cons.prems(1) False obtain v where v: "r1 = Inr v" by (cases r1) auto
    then have "collect_similarities cosine s1 uid others
          (if 0 < v then acc @ [(other, v)] else acc) = (Inr pool, s')"
      using Cons.prems False c by simp
    from Cons.IH [OF this Cons.prems(2)] False show ?thesis by (auto split: if_splits)
  qed
qed

lemma collect_similarities_consistent:
  "memo_consistent cosine s \<Longrightarrow> collect_similarities cosine s uid others acc = (Inr pool, s') \<Longrightarrow>
     pool = acc @ positive_similarities cosine (user_store s) uid others"
proof (induction others arbitrary: s acc)
  case Nil
  then show ?case by (simp add: positive_similarities_def)
next
  case (Cons other others)
  show ?case
  proof (cases "other = uid")
    case True
    with Cons.prems have "collect_similarities cosine s uid others acc = (Inr pool, s')" by simp
    from Cons.IH [OF Cons.prems(1) this] True show ?thesis by (simp add: positive_similarities_def)
  next
    case False
    obtain r1 s1 where c: "lru_cache_call cosine s uid other = (r1, s1)"
      by (cases "lru_cache_call cosine s uid other")
    note k = lru_cache_call_consistent [OF Cons.prems(1) c]
    from Cons.prems(2) False c obtain v where v: "r1 = Inr v" by (cases r1) auto
    then have "collect_similarities cosine s1 uid others
          (if 0 < v then acc @ [(other, v)] else acc) = (Inr pool, s')"
      using Cons.prems False c by simp
    from Cons.IH [OF _ this] k
    have "pool = (if 0 < v then acc @ [(other, v)] else acc)
        @ positive_similarities cosine (user_store s) uid others" by simp
    moreover from k v have "cosine (user_store s) uid other = Inr v" by simp
    ultimately show ?thesis using False by (simp add: positive_similarities_def)
  qed
qed

lemma defaultdict_add_float_keys:
  "map fst (defaultdict_add_float k a d) = (if k \<in> fst ` set d then map fst d else map fst d @ [k])"
  by (simp add: defaultdict_add_float_def update_keys flip: set_map)

lemma defaultdict_add_float_keyset:
  "fst ` set (defaultdict_add_float k a d) = insert k (fst ` set d)"
  using defaultdict_add_float_keys [of k a d]
  by (metis (no_types, lifting) insert_absorb list.set_map set_append list.simps(15) Un_insert_right
      sup_bot.right_neutral empty_set)

lemma defaultdict_get_add_float:
  "defaultdict_get (defaultdict_add_float k a d) i
     = (if i = k then double_add (defaultdict_get d k) a else defaultdict_get d i)"
  by (simp add: defaultdict_get_def defaultdict_add_float_def update_conv')

lemma score_items_weighted_keys:
  "score_items_weighted ps w xs d = Inr d' \<Longrightarrow> distinct (map fst d) \<Longrightarrow> distinct (map fst d')"
proof (induction xs arbitrary: d)
  case Nil
  then show ?case by simp
next
  case (Cons x xs)
  then show ?case
    by (auto simp: defaultdict_add_float_keys split: sum.splits if_splits)
qed

lemma score_weighted_users_keys:
  "score_weighted_users us ps ui sims d = Inr d' \<Longrightarrow> distinct (map fst d) \<Longrightarrow> distinct (map fst d')"
proof (induction sims arbitrary: d)
  case Nil
  then show ?case by simp
next
  case (Cons x sims)
  obtain other w where x: "x = (other, w)" by (cases x)
  from Cons.prems x obtain ou d1 where "map_of (users us) other = Some ou"
    and d1: "score_items_weighted ps w (filter (\<lambda>item. item \<notin> ui) (remdups (get_items ou))) d = Inr d1"
    and rest: "score_weighted_users us ps ui sims d1 = Inr d'"
    by (auto split: option.splits sum.splits)
  from Cons.IH [OF rest score_items_weighted_keys [OF d1 Cons.prems(2)]] show ?case .
qed

lemma score_items_weighted_result:
  assumes "score_items_weighted ps w xs d = Inr d'" "distinct xs"
  shows "(\<forall>i. defaultdict_get d' i
              = (if i \<in> set xs \<and> is_item_available ps i = Inr True
                 then double_add (defaultdict_get d i) w else defaultdict_get d i))
       \<and> fst ` set d' = fst ` set d \<union> {i \<in> set xs. is_item_available ps i = Inr True}"
  using assms
proof (induction xs arbitrary: d)
  case Nil
  then show ?case by simp
next
  case (Cons x xs)
  from Cons.prems(1) obtain ok where ok: "is_item_available ps x = Inr ok"
    and rest: "score_items_weighted ps w xs (if ok then defaultdict_add_float x w d else d) = Inr d'"
    by (auto split: sum.splits)
  have dx: "distinct xs" "x \<notin> set xs" using Cons.prems(2) by simp_all
  from Cons.IH [OF rest dx(1)]
  have ih: "\<forall>i. defaultdict_get d' i
              = (if i \<in> set xs \<and> is_item_available ps i = Inr True
                 then double_add (defaultdict_get (if ok then defaultdict_add_float x w d else d) i) w
                 else defaultdict_get (if ok then defaultdict_add_float x w d else d) i)"
    "fst ` set d' = fst ` set (if ok then defaultdict_add_float x w d else d)
        \<union> {i \<in> set xs. is_item_available ps i = Inr True}" by simp_all
  show ?case
  proof (cases ok)
    case True
    have "defaultdict_get d' i
        = (if i \<in> set (x # xs) \<and> is_item_available ps i = Inr True
           then double_add (defaultdict_get d i) w else defaultdict_get d i)" for i
      using ih(1) [rule_format, of i] True ok dx(2) by (auto simp: defaultdict_get_add_float)
    moreover have "fst ` set d' = fst ` set d \<union> {i \<in> set (x # xs). is_item_available ps i = Inr True}"
      using ih(2) True ok by (auto simp: defaultdict_add_float_keyset)
    ultimately show ?thesis by blast
  next
    case False
    have "defaultdict_get d' i
        = (if i \<in> set (x # xs) \<and> is_item_available ps i = Inr True
           then double_add (defaultdict_get d i) w else defaultdict_get d i)" for i
      using ih(1) [rule_format, of i] False ok by auto
    moreover have "fst ` set d' = fst ` set d \<union> {i \<in> set (x # xs). is_item_available ps i = Inr True}"
      using ih(2) False ok by auto
    ultimately show ?thesis by blast
  qed
qed

lemma score_weighted_users_result:
  assumes "score_weighted_users us ps ui sims d = Inr d'"
  shows "(\<forall>i. defaultdict_get d' i
              = foldl double_add (defaultdict_get d i)
                  (map snd (filter (\<lambda>(other, w). i \<in> purchased us other \<and> i \<notin> ui
                                                \<and> is_item_available ps i = Inr True) sims)))
       \<and> fst ` set d' = fst ` set d \<union> candidate_items us ps ui sims"
  using assms
proof (induction sims arbitrary: d)
  case Nil
  then show ?case by (simp add: candidate_items_def)
next
  case (Cons x sims)
  obtain other w where x: "x = (other, w)" by (cases x)
  from Cons.prems x obtain ou d1 where ou: "map_of (users us) other = Some ou"
    and d1: "score_items_weighted ps w (filter (\<lambda>item. item \<notin> ui) (remdups (get_items ou))) d = Inr d1"
    and rest: "score_weighted_users us ps ui sims d1 = Inr d'"
    by (auto split: option.splits sum.splits)
  have xs: "set (filter (\<lambda>item. item \<notin> ui) (remdups (get_items ou))) = {i \<in> purchased us other. i \<notin> ui}"
    using ou by (auto simp: purchased_def)
  have "distinct (filter (\<lambda>item. item \<notin> ui) (remdups (get_items ou)))" by simp
  from score_items_weighted_result [OF d1 this]
  have s1: "\<And>i. defaultdict_get d1 i
              = (if i \<in> purchased us other \<and> i \<notin> ui \<and> is_item_available ps i = Inr True
                 then double_add (defaultdict_get d i) w else defaultdict_get d i)"
    and k1: "fst ` set d1 = fst ` set d \<union> {i \<in> purchased us other. i \<notin> ui \<and> is_item_available ps i = Inr True}"
    unfolding xs by auto
  from Cons.IH [OF rest]
  have s2: "\<And>i. defaultdict_get d' i
              = foldl double_add (defaultdict_get d1 i)
                  (map snd (filter (\<lambda>(other, w). i \<in> purchased us other \<and> i \<notin> ui
                                                \<and> is_item_available ps i = Inr True) sims))"
    and k2: "fst ` set d' = fst ` set d1 \<union> candidate_items us ps ui sims" by auto
  have "defaultdict_get d' i
              = foldl double_add (defaultdict_get d i)
                  (map snd (filter (\<lambda>(other, w). i \<in> purchased us other \<and> i \<notin> ui
                                                \<and> is_item_available ps i = Inr True) (x # sims)))" for i
    unfolding s2 [of i] s1 [of i] x by simp
  moreover have "fst ` set d' = fst ` set d \<union> candidate_items us ps ui (x # sims)"
    unfolding k2 k1 x candidate_items_Cons by blast
  ultimately show ?case by blast
qed

lemma score_weighted_users_from_empty:
  assumes "score_weighted_users us ps ui sims [] = Inr d"
  shows "fst ` set d = candidate_items us ps ui sims"
    and "(i, v) \<in> set d \<Longrightarrow> v = weighted_score us sims i"
proof -
  from score_weighted_users_result [OF assms]
  have sc: "\<And>i. defaultdict_get d i
              = foldl double_add 0
                  (map snd (filter (\<lambda>(other, w). i \<in> purchased us other \<and> i \<notin> ui
                                                \<and> is_item_available ps i = Inr True) sims))"
    and ks: "fst ` set d = candidate_items us ps ui sims"
    by (auto simp: defaultdict_get_def)
  show "fst ` set d = candidate_items us ps ui sims" by (rule ks)
  assume m: "(i, v) \<in> set d"
  have dd: "distinct (map fst d)" using score_weighted_users_keys [OF assms] by simp
  then have "map_of d i = Some v" using m by simp
  then have v: "v = defaultdict_get d i" by (simp add: defaultdict_get_def)
  have "i \<in> candidate_items us ps ui sims" using m ks by force
  then have "i \<notin> ui" "is_item_available ps i = Inr True"
    by (auto simp: candidate_items_def)
  then have "filter (\<lambda>(other, w). i \<in> purchased us other \<and> i \<notin> ui
                                                \<and> is_item_available ps i = Inr True) sims
      = filter (\<lambda>(other, w). i \<in> purchased us other) sims"
    by (intro filter_cong) auto
  then show "v = weighted_score us sims i" using v sc [of i] by (simp add: weighted_score_def)
qed

lemma slice_to_20: "slice_to 20 xs = take 20 xs"
  by (simp add: slice_to_def)

lemma get_similar_users_cached_20:
  assumes "get_similar_users_cached cosine s now uid 20 = (Inr sims, s1)"
  shows "user_store s1 = user_store s \<and> product_store s1 = product_store s
       \<and> (\<forall>cached. is_cache_valid s now (''similar_users_'' @ uid @ ''_'' @ str_int 20)
                    \<and> precomputed_similarities s (''similar_users_'' @ uid @ ''_'' @ str_int 20) = Some cached
            \<longrightarrow> sims = take 20 cached)
       \<and> ((is_cache_valid s now (''similar_users_'' @ uid @ ''_'' @ str_int 20)
             \<longrightarrow> precomputed_similarities s (''similar_users_'' @ uid @ ''_'' @ str_int 20) = None)
            \<longrightarrow> (\<exists>pool s'. collect_similarities cosine s uid (map fst (users (user_store s))) [] = (Inr pool, s')
                   \<and> sims = take 20 (sorted_reverse snd pool)))"
proof -
  define key where "key = ''similar_users_'' @ uid @ ''_'' @ str_int 20"
  define hit where "hit = (if is_cache_valid s now key then precomputed_similarities s key else None)"
  obtain r s' where c: "collect_similarities cosine s uid (map fst (users (user_store s))) [] = (r, s')"
    by (cases "collect_similarities cosine s uid (map fst (users (user_store s))) []")
  note st = collect_similarities_stores [OF c]
  have eq: "get_similar_users_cached cosine s now uid 20 =
     (case hit of
        Some cached \<Rightarrow> (Inr (slice_to 20 cached), s)
      | None \<Rightarrow>
          (case r of
             Inl e \<Rightarrow> (Inl e, s')
           | Inr similarities \<Rightarrow>
               (Inr (slice_to 20 (sorted_reverse snd similarities)),
                update_cache_timestamp
                  (s'\<lparr>precomputed_similarities :=
                        (precomputed_similarities s')(key \<mapsto> sorted_reverse snd similarities)\<rparr>)
                  now key)))"
    by (simp only: get_similar_users_cached_def Let_def hit_def key_def c prod.case)
  show ?thesis
  proof (cases hit)
    case (Some cached)
    then have "sims = take 20 cached" "s1 = s" using assms eq by (simp_all add: slice_to_20)
    moreover from Some have "is_cache_valid s now key" "precomputed_similarities s key = Some cached"
      by (auto simp: hit_def split: if_splits)
    ultimately show ?thesis unfolding key_def [symmetric] by simp
  next
    case None
    with assms eq obtain similarities where r: "r = Inr similarities" by (cases r) auto
    from assms eq None r
    have "sims = take 20 (sorted_reverse snd similarities)"
      and "user_store s1 = user_store s'" and "product_store s1 = product_store s'"
      by (auto simp: update_cache_timestamp_def slice_to_20)
    moreover from None have "is_cache_valid s now key \<longrightarrow> precomputed_similarities s key = None"
      by (auto simp: hit_def split: if_splits)
    ultimately show ?thesis unfolding key_def [symmetric] using st c r by auto
  qed
qed

lemma similar_users_top20_stores:
  assumes "similar_users_top20 cosine s now uid = (Inr sims, s1)"
  shows "user_store s1 = user_store s \<and> product_store s1 = product_store s"
proof (cases "similarity_matrix s \<noteq> None \<and> similarity_matrix s \<noteq> Some []")
  case True
  then obtain matrix where m: "similarity_matrix s = Some matrix" "matrix \<noteq> []" by auto
  then show ?thesis
    using assms by (auto simp: similar_users_top20_def get_similar_users_fast_def)
next
  case False
  then have "get_similar_users_cached cosine s now uid 20 = (Inr sims, s1)"
    using assms by (auto simp: similar_users_top20_def split: if_splits)
  from get_similar_users_cached_20 [OF this] show ?thesis by simp
qed

lemma lru_cache_call_precomputed:
  "lru_cache_call cosine s a b = (r, s') \<Longrightarrow>
     precomputed_similarities s' = precomputed_similarities s"
  by (auto simp: lru_cache_call_def split: option.splits sum.splits)

lemma collect_similarities_precomputed:
  "collect_similarities cosine s uid others acc = (r, s') \<Longrightarrow>
     precomputed_similarities s' = precomputed_similarities s"
proof (induction others arbitrary: s acc)
  case Nil
  then show ?case by simp
next
  case (Cons other others)
  show ?case
  proof (cases "other = uid")
    case True
    then show ?thesis using Cons by simp
  next
    case False
    obtain r1 s1 where c: "lru_cache_call cosine s uid other = (r1, s1)"
      by (cases "lru_cache_call cosine s uid other")
    note st = lru_cache_call_precomputed [OF c]
    show ?thesis
    proof (cases r1)
      case (Inl e)
      then show ?thesis using Cons.prems False c st by simp
    next
      case (Inr v)
      then have "collect_similarities cosine s1 uid others
          (if 0 < v then acc @ [(other, v)] else acc) = (r, s')"
        using Cons.prems False c by simp
      from Cons.IH [OF this] st show ?thesis by simp
    qed
  qed
qed

text \<open>
  Every list that \<open>get_similar_users_cached\<close> stores is sorted by decreasing similarity,
  so the stored lists stay sorted from one call to the next.
\<close>

lemma get_similar_users_cached_keeps_sorted:
  assumes "get_similar_users_cached cosine s now uid top_n = (r, s1)"
    and "\<And>key cached. precomputed_similarities s key = Some cached
           \<Longrightarrow> sorted_wrt (\<lambda>x y. snd y \<le> snd x) cached"
    and "precomputed_similarities s1 key = Some cached"
  shows "sorted_wrt (\<lambda>x y. snd y \<le> snd x) cached"
proof -
  define ck where "ck = ''similar_users_'' @ uid @ ''_'' @ str_int top_n"
  define hit where "hit = (if is_cache_valid s now ck then precomputed_similarities s ck else None)"
  obtain c s' where c: "collect_similarities cosine s uid (map fst (users (user_store s))) [] = (c, s')"
    by (cases "collect_similarities cosine s uid (map fst (users (user_store s))) []")
  note pre = collect_similarities_precomputed [OF c]
  have eq: "get_similar_users_cached cosine s now uid top_n =
     (case hit of
        Some cached \<Rightarrow> (Inr (slice_to top_n cached), s)
      | None \<Rightarrow>
          (case c of
             Inl e \<Rightarrow> (Inl e, s')
           | Inr similarities \<Rightarrow>
               (Inr (slice_to top_n (sorted_reverse snd similarities)),
                update_cache_timestamp
                  (s'\<lparr>precomputed_similarities :=
                        (precomputed_similarities s')(ck \<mapsto> sorted_reverse snd similarities)\<rparr>)
                  now ck)))"
    by (simp only: get_similar_users_cached_def Let_def hit_def ck_def c prod.case)
  show ?thesis
  proof (cases hit)
    case (Some stored)
    then have "s1 = s" using assms(1) eq by simp
    then show ?thesis using assms(2,3) by simp
  next
    case None
    show ?thesis
    proof (cases c)
      case (Inl e)
      then have "s1 = s'" using assms(1) eq None by simp
      then show ?thesis using assms(2,3) pre by simp
    next
      case (Inr similarities)
      then have "precomputed_similarities s1
          = (precomputed_similarities s)(ck \<mapsto> sorted_reverse snd similarities)"
        using assms(1) eq None pre by (auto simp: update_cache_timestamp_def)
      then show ?thesis
        using assms(2) [of key cached] assms(3) sorted_reverse_descending [of snd similarities]
        by (auto split: if_splits)
    qed
  qed
qed

text \<open>
  Claim C3, as the code has it. On a cache miss for a known user, the weighted
  collaborative recommendation works from the top 20 similar users: the 20 most similar
  entries, most similar first, of the pool of other users with a positive similarity.
  The pool is read from the precomputed matrix when there is one; otherwise a valid
  stored list is cut at 20, and it is a top 20 of itself when it is sorted as every list
  stored by \<open>get_similar_users_cached\<close> is; otherwise the pool is collected from the
  memoised similarity function, which on a memo table that agrees with the body lists
  exactly the other users whose similarity the body computes as positive. The result is
  the ranking of the candidate items by decreasing pair of score and identifier, cut at
  \<open>k\<close>, where the score of a candidate is the float sum of the similarity weights of the
  similar users who bought it, added in the order of the list. Equal scores are therefore
  ordered by identifier descending. The unweighted variant returns the same ranking with
  the integer weight 1 for every user that \<open>get_similar_users\<close> gives, which are all the
  other users sharing at least two categories with the user and not only 20 of them.
\<close>

theorem collaborative_ranking:
  fixes result unweighted :: "string list"
  assumes "cached_recommendation s now (''collab_'' @ uid @ ''_'' @ str_int k) = None"
    and "map_of (users (user_store s)) uid = Some u"
    and "similar_users_top20 cosine s now uid = (Inr sims, s1)"
    and "recommend_by_similar_users_cached cosine s now uid k = (Inr result, s2)"
  shows "(\<forall>matrix. similarity_matrix s = Some matrix \<and> matrix \<noteq> []
            \<longrightarrow> top_similar 20 (matrix_similarities matrix (user_store s) uid) sims)
       \<and> (\<forall>cached. (similarity_matrix s = None \<or> similarity_matrix s = Some [])
              \<and> is_cache_valid s now (''similar_users_'' @ uid @ ''_'' @ str_int 20)
              \<and> precomputed_similarities s (''similar_users_'' @ uid @ ''_'' @ str_int 20) = Some cached
            \<longrightarrow> sims = take 20 cached
                \<and> (sorted_wrt (\<lambda>x y. snd y \<le> snd x) cached \<longrightarrow> top_similar 20 cached sims))
       \<and> ((similarity_matrix s = None \<or> similarity_matrix s = Some [])
              \<and> (is_cache_valid s now (''similar_users_'' @ uid @ ''_'' @ str_int 20)
                   \<longrightarrow> precomputed_similarities s (''similar_users_'' @ uid @ ''_'' @ str_int 20) = None)
            \<longrightarrow> (\<exists>pool s'.
                   collect_similarities cosine s uid (map fst (users (user_store s))) [] = (Inr pool, s')
                   \<and> top_similar 20 pool sims
                   \<and> (\<forall>(other_id, similarity) \<in> set pool.
                        0 < similarity \<and> other_id \<noteq> uid \<and> other_id \<in> fst ` set (users (user_store s)))
                   \<and> (memo_consistent cosine s
                        \<longrightarrow> pool = positive_similarities cosine (user_store s) uid
                                     (map fst (users (user_store s))))))
       \<and> result = top_by_score (nat k) (weighted_score (user_store s) sims)
                    (candidate_items (user_store s) (product_store s) (set (get_items u)) sims)
       \<and> (recommend_by_similar_users (user_store s) (product_store s) uid k = Inr unweighted
            \<longrightarrow> unweighted
                = top_by_score (nat k)
                    (candidate_score (user_store s)
                       (map (\<lambda>other_id. (other_id, 1::int)) (get_similar_users (user_store s) uid)))
                    (candidate_items (user_store s) (product_store s) (set (get_items u))
                       (map (\<lambda>other_id. (other_id, 1::int)) (get_similar_users (user_store s) uid))))"
proof (intro conjI allI impI)
  fix matrix
  assume "similarity_matrix s = Some matrix \<and> matrix \<noteq> []"
  then have "sims = take 20 (sorted_reverse snd (matrix_similarities matrix (user_store s) uid))"
    using assms(3) by (auto simp: similar_users_top20_def get_similar_users_fast_def slice_to_20)
  then show "top_similar 20 (matrix_similarities matrix (user_store s) uid) sims"
    by (simp add: top_similar_sorted_reverse)
next
  fix cached
  assume a: "(similarity_matrix s = None \<or> similarity_matrix s = Some [])
              \<and> is_cache_valid s now (''similar_users_'' @ uid @ ''_'' @ str_int 20)
              \<and> precomputed_similarities s (''similar_users_'' @ uid @ ''_'' @ str_int 20) = Some cached"
  then have "get_similar_users_cached cosine s now uid 20 = (Inr sims, s1)"
    using assms(3) by (auto simp: similar_users_top20_def split: if_splits)
  from get_similar_users_cached_20 [OF this] a show "sims = take 20 cached" by blast
  then show "top_similar 20 cached sims" if "sorted_wrt (\<lambda>x y. snd y \<le> snd x) cached"
    using that top_similar_take [of cached cached 20] by simp
next
  assume a: "(similarity_matrix s = None \<or> similarity_matrix s = Some [])
              \<and> (is_cache_valid s now (''similar_users_'' @ uid @ ''_'' @ str_int 20)
                   \<longrightarrow> precomputed_similarities s (''similar_users_'' @ uid @ ''_'' @ str_int 20) = None)"
  then have "get_similar_users_cached cosine s now uid 20 = (Inr sims, s1)"
    using assms(3) by (auto simp: similar_users_top20_def split: if_splits)
  from get_similar_users_cached_20 [OF this] a obtain pool s'
    where c: "collect_similarities cosine s uid (map fst (users (user_store s))) [] = (Inr pool, s')"
      and t: "sims = take 20 (sorted_reverse snd pool)" by blast
  have "top_similar 20 pool sims" unfolding t by (rule top_similar_sorted_reverse)
  moreover have "\<forall>(other_id, similarity) \<in> set pool.
       0 < similarity \<and> other_id \<noteq> uid \<and> other_id \<in> fst ` set (users (user_store s))"
    using collect_similarities_pool [OF c] by auto
  moreover have "memo_consistent cosine s
       \<longrightarrow> pool = positive_similarities cosine (user_store s) uid (map fst (users (user_store s)))"
    using collect_similarities_consistent [OF _ c] by auto
  ultimately show "\<exists>pool s'.
       collect_similarities cosine s uid (map fst (users (user_store s))) [] = (Inr pool, s')
       \<and> top_similar 20 pool sims
       \<and> (\<forall>(other_id, similarity) \<in> set pool.
            0 < similarity \<and> other_id \<noteq> uid \<and> other_id \<in> fst ` set (users (user_store s)))
       \<and> (memo_consistent cosine s
            \<longrightarrow> pool = positive_similarities cosine (user_store s) uid
                         (map fst (users (user_store s))))"
    using c by blast
next
  note st = similar_users_top20_stores [OF assms(3)]
  from assms obtain d where d: "score_weighted_users (user_store s) (product_store s)
        (set (get_items u)) sims [] = Inr d"
    and r: "result = (if d = [] then [] else map fst (nlargest k (\<lambda>x. (snd x, fst x)) d))"
    using st
    by (auto simp: recommend_by_similar_users_cached_def Let_def split: sum.splits if_splits)
  have dd: "distinct (map fst d)" using score_weighted_users_keys [OF d] by simp
  note fe = score_weighted_users_from_empty [OF d]
  have rank: "map fst (nlargest k (\<lambda>x. (snd x, fst x)) d)
      = top_by_score (nat k) (weighted_score (user_store s) sims) (fst ` set d)"
    by (rule ranking_by_score [OF dd]) (rule fe(2) [symmetric])
  show "result = top_by_score (nat k) (weighted_score (user_store s) sims)
                    (candidate_items (user_store s) (product_store s) (set (get_items u)) sims)"
  proof (cases "d = []")
    case True
    then have "candidate_items (user_store s) (product_store s) (set (get_items u)) sims = {}"
      using fe(1) by simp
    then show ?thesis using r True by (simp add: top_by_score_def)
  next
    case False
    then show ?thesis using r rank fe(1) by simp
  qed
next
  let ?sims = "map (\<lambda>other_id. (other_id, 1::int)) (get_similar_users (user_store s) uid)"
  assume "recommend_by_similar_users (user_store s) (product_store s) uid k = Inr unweighted"
  with assms(2) obtain d where d: "score_similar_users (user_store s) (product_store s)
        (set (get_items u)) ?sims [] = Inr d"
    and r: "unweighted = (if d = [] then [] else map fst (nlargest k (\<lambda>x. (snd x, fst x)) d))"
    by (auto simp: recommend_by_similar_users_def split: sum.splits if_splits)
  have dd: "distinct (map fst d)" using score_similar_users_keys [OF d] by simp
  note fe = score_similar_users_from_empty [OF d]
  have rank: "map fst (nlargest k (\<lambda>x. (snd x, fst x)) d)
      = top_by_score (nat k) (candidate_score (user_store s) ?sims) (fst ` set d)"
    by (rule ranking_by_score [OF dd]) (rule fe(2) [symmetric])
  show "unweighted = top_by_score (nat k) (candidate_score (user_store s) ?sims)
                    (candidate_items (user_store s) (product_store s) (set (get_items u)) ?sims)"
  proof (cases "d = []")
    case True
    then have "candidate_items (user_store s) (product_store s) (set (get_items u)) ?sims = {}"
      using fe(1) by simp
    then show ?thesis using r True by (simp add: top_by_score_def)
  next
    case False
    then show ?thesis using r rank fe(1) by simp
  qed
qed

lemma tie_users_loaded:
  "load_purchases
     [(''U1'', ''I1'', ''A'', Some [(''total_amount'', PyNum 1)]),
      (''U1'', ''I2'', ''B'', Some [(''total_amount'', PyNum 0)]),
      (''U2'', ''I3'', ''A'', Some [(''total_amount'', PyNum 1)]),
      (''U2'', ''I4'', ''B'', Some [(''total_amount'', PyNum 0)]),
      (''U2'', ''I5'', ''C'', Some [(''total_amount'', PyNum 0)])] UserStore
   = Inr tie_users"
  by (simp add: add_purchase_def add_user_def UserStore_def User_def user_add_purchase_def
      purchase_amount_def defaultdict_add_def Let_def lph_add_purchase_def LinkedPurchaseHistory_def
      tie_users_def)

lemma tie_similarity:
  "compute_cosine_similarity tie_users ''U1'' ''U2'' = Inr 1"
proof -
  have c: "fst ` {(''A'', 1 :: real), (''B'', 0)} \<inter> fst ` {(''A'', 1 :: real), (''B'', 0), (''C'', 0)}
      = {''A'', ''B''}" by auto
  show ?thesis
    by (simp add: compute_cosine_similarity_def tie_users_def get_preferences_def Let_def c)
qed

lemma tie_similar_users:
  "fst (similar_users_top20 compute_cosine_similarity
          (OptimizedRecommenderSystem tie_users example_products) 0 ''U1'')
     = Inr [(''U2'', 1)]"
proof -
  let ?S = "OptimizedRecommenderSystem tie_users example_products"
  have keys: "map fst (users (user_store ?S)) = [''U1'', ''U2'']"
    by (simp add: OptimizedRecommenderSystem_def tie_users_def)
  have sim: "fst (lru_cache_call compute_cosine_similarity ?S ''U1'' ''U2'') = Inr 1"
    by (simp add: lru_cache_call_def OptimizedRecommenderSystem_def tie_similarity)
  obtain s' where s': "lru_cache_call compute_cosine_similarity ?S ''U1'' ''U2'' = (Inr 1, s')"
    using sim by (cases "lru_cache_call compute_cosine_similarity ?S ''U1'' ''U2''") auto
  have col: "collect_similarities compute_cosine_similarity ?S ''U1'' [''U1'', ''U2''] []
      = (Inr [(''U2'', 1)], s')"
    using s' by simp
  have miss: "\<not> is_cache_valid ?S 0 key" for key
    by (simp add: is_cache_valid_def OptimizedRecommenderSystem_def)
  have "fst (get_similar_users_cached compute_cosine_similarity ?S 0 ''U1'' 20) = Inr [(''U2'', 1)]"
    unfolding get_similar_users_cached_def Let_def keys
    by (simp only: miss if_False option.case col prod.case sum.case fst_conv)
       (simp add: sorted_reverse_def slice_to_def)
  moreover have "similarity_matrix ?S = None" by (simp add: OptimizedRecommenderSystem_def)
  ultimately show ?thesis by (simp add: similar_users_top20_def)
qed

lemma tie_weighted_scores:
  "score_weighted_users tie_users example_products {''I1'', ''I2''} [(''U2'', 1)] []
     = Inr [(''I5'', 1), (''I4'', 1), (''I3'', 1)]"
  by (simp add: tie_users_def get_items_def lph_to_list_def example_available
      defaultdict_add_float_def double_add_def)

lemma tie_unit_scores:
  "score_similar_users tie_users example_products {''I1'', ''I2''} [(''U2'', 1::int)] []
     = Inr [(''I5'', 1), (''I4'', 1), (''I3'', 1)]"
  by (simp add: tie_users_def get_items_def lph_to_list_def example_available defaultdict_add_def)

lemma tie_top2:
  fixes one :: "'a::{linorder,one}"
  shows "map fst (nlargest 2 (\<lambda>x. (snd x, fst x)) [(''I5'', one), (''I4'', one), (''I3'', one)])
     = [''I5'', ''I4'']"
  by (simp add: nlargest_def sorted_reverse_def less_eq_prod_def less_prod_def)

lemma tie_user_U1:
  "map_of (users tie_users) ''U1'' =
      Some \<lparr>user_id = ''U1'', user_info = [],
             purchase_history =
               \<lparr>nodes = [(''I2'', [(''total_amount'', PyNum 0)]), (''I1'', [(''total_amount'', PyNum 1)])],
                size_lph = 2\<rparr>,
             preferences = [(''A'', 1), (''B'', 0)],
             category_spending = [(''A'', 1), (''B'', 0)], total_spent = 1\<rparr>"
  by (simp add: tie_users_def)

lemma tie_items_U1:
  "set (get_items \<lparr>user_id = ''U1'', user_info = [],
             purchase_history =
               \<lparr>nodes = [(''I2'', [(''total_amount'', PyNum 0)]), (''I1'', [(''total_amount'', PyNum 1)])],
                size_lph = 2\<rparr>,
             preferences = [(''A'', 1), (''B'', 0)],
             category_spending = [(''A'', 1), (''B'', 0)], total_spent = 1\<rparr>) = {''I1'', ''I2''}"
  by (auto simp: get_items_def lph_to_list_def)

lemma tie_collab_cached:
  "fst (recommend_by_similar_users_cached compute_cosine_similarity
          (OptimizedRecommenderSystem tie_users example_products) 0 ''U1'' 2) = Inr [''I5'', ''I4'']"
proof -
  let ?S = "OptimizedRecommenderSystem tie_users example_products"
  obtain s1 where s1: "similar_users_top20 compute_cosine_similarity ?S 0 ''U1'' = (Inr [(''U2'', 1)], s1)"
    using tie_similar_users by (cases "similar_users_top20 compute_cosine_similarity ?S 0 ''U1''") auto
  from similar_users_top20_stores [OF s1]
  have st: "user_store s1 = tie_users" "product_store s1 = example_products"
    by (simp_all add: OptimizedRecommenderSystem_def)
  have miss: "cached_recommendation ?S 0 key = None" for key
    by (simp add: cached_recommendation_def OptimizedRecommenderSystem_def)
  have u: "users (user_store ?S) = users tie_users" by (simp add: OptimizedRecommenderSystem_def)
  show ?thesis
    unfolding recommend_by_similar_users_cached_def Let_def
    by (simp only: miss u tie_user_U1 s1 st tie_items_U1 tie_weighted_scores tie_top2
          option.case prod.case sum.case)
       simp
qed

lemma tie_collab:
  "recommend_by_similar_users tie_users example_products ''U1'' 2 = Inr [''I5'', ''I4'']"
proof -
  have g: "get_similar_users tie_users ''U1'' = [''U2'']"
  proof -
    have "{''A'', ''B''} \<inter> {''A'', ''B'', ''C''} = {''A'', ''B''}" by auto
    then show ?thesis by (simp add: get_similar_users_def tie_users_def)
  qed
  show ?thesis
    unfolding recommend_by_similar_users_def
    by (simp only: tie_user_U1 tie_items_U1 g list.map tie_unit_scores tie_top2 option.case sum.case)
       simp
qed

lemma crowd_users_loaded:
  "load_purchases crowd_purchases UserStore = Inr crowd_users"
  by (simp add: crowd_users_def crowd_purchases_def crowd_names_def add_purchase_def add_user_def
      UserStore_def User_def user_add_purchase_def purchase_amount_def defaultdict_add_def Let_def
      lph_add_purchase_def LinkedPurchaseHistory_def)

lemma crowd_similar_users:
  "get_similar_users crowd_users ''V00'' = map (\<lambda>n. ''V'' @ n) crowd_names"
  by code_simp

lemma crowd_collab:
  "recommend_by_similar_users crowd_users crowd_products ''V00'' 25
     = Inr (rev (map (\<lambda>n. ''W'' @ n) crowd_names))"
  by code_simp

theorem collaborative_ranking_witness:
  "cached_recommendation (OptimizedRecommenderSystem tie_users example_products) 0
      (''collab_'' @ ''U1'' @ ''_'' @ str_int 2) = None
   \<and> fst (similar_users_top20 compute_cosine_similarity
            (OptimizedRecommenderSystem tie_users example_products) 0 ''U1'')
       = Inr [(''U2'', 1)]
   \<and> memo_consistent compute_cosine_similarity (OptimizedRecommenderSystem tie_users example_products)
   \<and> positive_similarities compute_cosine_similarity tie_users ''U1'' [''U1'', ''U2''] = [(''U2'', 1)]
   \<and> top_similar 20 [(''U2'', 1)] [(''U2'', 1)]
   \<and> fst (recommend_by_similar_users_cached compute_cosine_similarity
            (OptimizedRecommenderSystem tie_users example_products) 0 ''U1'' 2) = Inr [''I5'', ''I4'']
   \<and> top_by_score (nat 2) (weighted_score tie_users [(''U2'', 1)])
        (candidate_items tie_users example_products {''I1'', ''I2''} [(''U2'', 1::real)])
       = [''I5'', ''I4'']
   \<and> recommend_by_similar_users tie_users example_products ''U1'' 2 = Inr [''I5'', ''I4'']
   \<and> top_by_score (nat 2) (candidate_score tie_users [(''U2'', 1::int)])
        (candidate_items tie_users example_products {''I1'', ''I2''} [(''U2'', 1::int)])
       = [''I5'', ''I4'']"
proof -
  let ?S = "OptimizedRecommenderSystem tie_users example_products"
  have miss: "cached_recommendation ?S 0 (''collab_'' @ ''U1'' @ ''_'' @ str_int 2) = None"
    by (simp add: cached_recommendation_def OptimizedRecommenderSystem_def)
  have st: "user_store ?S = tie_users" "product_store ?S = example_products"
    by (simp_all add: OptimizedRecommenderSystem_def)
  have u: "map_of (users (user_store ?S)) ''U1'' =
      Some \<lparr>user_id = ''U1'', user_info = [],
             purchase_history =
               \<lparr>nodes = [(''I2'', [(''total_amount'', PyNum 0)]), (''I1'', [(''total_amount'', PyNum 1)])],
                size_lph = 2\<rparr>,
             preferences = [(''A'', 1), (''B'', 0)],
             category_spending = [(''A'', 1), (''B'', 0)], total_spent = 1\<rparr>"
    unfolding st by (rule tie_user_U1)
  obtain s1 where s1: "similar_users_top20 compute_cosine_similarity ?S 0 ''U1'' = (Inr [(''U2'', 1)], s1)"
    using tie_similar_users by (cases "similar_users_top20 compute_cosine_similarity ?S 0 ''U1''") auto
  obtain s2 where s2: "recommend_by_similar_users_cached compute_cosine_similarity ?S 0 ''U1'' 2
      = (Inr [''I5'', ''I4''], s2)"
    using tie_collab_cached
    by (cases "recommend_by_similar_users_cached compute_cosine_similarity ?S 0 ''U1'' 2") auto
  have keys: "map fst (users tie_users) = [''U1'', ''U2'']" by (simp add: tie_users_def)
  have nomatrix: "similarity_matrix ?S = None" by (simp add: OptimizedRecommenderSystem_def)
  have invalid: "\<not> is_cache_valid ?S 0 key" for key
    by (simp add: is_cache_valid_def OptimizedRecommenderSystem_def)
  have memo: "memo_consistent compute_cosine_similarity ?S"
    by (simp add: memo_consistent_def OptimizedRecommenderSystem_def)
  have pos: "positive_similarities compute_cosine_similarity tie_users ''U1'' [''U1'', ''U2'']
      = [(''U2'', 1)]"
    by (simp add: positive_similarities_def tie_similarity)
  note cr = collaborative_ranking [OF miss u s1 s2, unfolded st tie_items_U1 keys,
      where unweighted = "[''I5'', ''I4'']"]
  have pre: "(similarity_matrix ?S = None \<or> similarity_matrix ?S = Some [])
      \<and> (is_cache_valid ?S 0 (''similar_users_'' @ ''U1'' @ ''_'' @ str_int 20)
           \<longrightarrow> precomputed_similarities ?S (''similar_users_'' @ ''U1'' @ ''_'' @ str_int 20) = None)"
    using nomatrix invalid by simp
  from cr [THEN conjunct2, THEN conjunct2, THEN conjunct1, THEN mp, OF pre]
  obtain pool where "top_similar 20 pool [(''U2'', 1)]"
    and "memo_consistent compute_cosine_similarity ?S
           \<longrightarrow> pool = positive_similarities compute_cosine_similarity tie_users ''U1'' [''U1'', ''U2'']"
    by blast
  with memo pos have top: "top_similar 20 [(''U2'', 1)] [(''U2'', 1)]" by simp
  note w = cr [THEN conjunct2, THEN conjunct2, THEN conjunct2, THEN conjunct1]
  have g: "get_similar_users tie_users ''U1'' = [''U2'']"
  proof -
    have "{''A'', ''B''} \<inter> {''A'', ''B'', ''C''} = {''A'', ''B''}" by auto
    then show ?thesis by (simp add: get_similar_users_def tie_users_def)
  qed
  note c = cr [THEN conjunct2, THEN conjunct2, THEN conjunct2, THEN conjunct2, THEN mp, OF tie_collab,
      unfolded g list.map]
  show ?thesis
    using miss tie_similar_users memo pos top tie_collab_cached w [symmetric] tie_collab c [symmetric]
    by simp
qed

text \<open>
  Claim C3 as stated fails on two counts. In the store where the three candidates of \<open>U1\<close>
  all have score 1, both variants return \<open>I5\<close> before \<open>I4\<close> and leave out \<open>I3\<close>, the smallest
  identifier: ties go to the larger identifier. In the store with the crowd, the
  unweighted variant works from 21 similar users and recommends the 21 items that one of
  them each bought: it does not stop at 20 users.
\<close>

theorem collaborative_ranking_counterexample:
  "fst (recommend_by_similar_users_cached compute_cosine_similarity
          (OptimizedRecommenderSystem tie_users example_products) 0 ''U1'' 2) = Inr [''I5'', ''I4'']
   \<and> recommend_by_similar_users tie_users example_products ''U1'' 2 = Inr [''I5'', ''I4'']
   \<and> score_weighted_users tie_users example_products {''I1'', ''I2''} [(''U2'', 1)] []
       = Inr [(''I5'', 1), (''I4'', 1), (''I3'', 1)]
   \<and> ''I3'' < ''I4'' \<and> ''I4'' < ''I5''
   \<and> length (get_similar_users crowd_users ''V00'') = 21
   \<and> recommend_by_similar_users crowd_users crowd_products ''V00'' 25
       = Inr [''W21'', ''W20'', ''W19'', ''W18'', ''W17'', ''W16'', ''W15'', ''W14'', ''W13'', ''W12'',
              ''W11'', ''W10'', ''W09'', ''W08'', ''W07'', ''W06'', ''W05'', ''W04'', ''W03'', ''W02'',
              ''W01'']"
proof -
  have "''I3'' < ''I4''" "''I4'' < ''I5''" by (simp_all add: less_char_def)
  moreover have "length (get_similar_users crowd_users ''V00'') = 21"
    by (simp add: crowd_similar_users crowd_names_def)
  moreover have "recommend_by_similar_users crowd_users crowd_products ''V00'' 25
       = Inr [''W21'', ''W20'', ''W19'', ''W18'', ''W17'', ''W16'', ''W15'', ''W14'', ''W13'', ''W12'',
              ''W11'', ''W10'', ''W09'', ''W08'', ''W07'', ''W06'', ''W05'', ''W04'', ''W03'', ''W02'',
              ''W01'']"
    by (simp add: crowd_collab crowd_names_def)
  ultimately show ?thesis using tie_collab_cached tie_collab tie_weighted_scores by simp
qed


section \<open>skip\_list.py: SkipListPurchaseHistory\<close>

text \<open>
  A \<open>SkipListNode\<close> is referenced from the \<open>forward\<close> arrays of several other nodes, so the
  nodes live in an object store \<open>heap\<close>: the address of a node is its index, a reference is
  \<open>Some\<close> address and \<open>None\<close> is the null reference. The header is allocated by \<open>__init__\<close>
  and has address 0; its \<open>item_id\<close> and \<open>purchase_data\<close> are \<open>None\<close> in the source and never
  read, here they are the empty string and the empty dictionary. Nodes are never freed: a
  deleted node stays in the store, unreachable.
\<close>

record sl_node =
  item_id_sl :: string
  purchase_data_sl :: purchase_data
  forward :: "nat option list"
  level_node :: nat

record skip_list =
  max_level :: nat
  probability :: real
  heap :: "sl_node list"
  level_sl :: nat
  size_sl :: int

definition create_node :: "nat \<Rightarrow> string \<Rightarrow> purchase_data \<Rightarrow> sl_node" where
  "create_node lvl iid pd =
     \<lparr>item_id_sl = iid, purchase_data_sl = pd, forward = replicate (lvl + 1) None, level_node = lvl\<rparr>"

definition SkipListPurchaseHistory :: "nat \<Rightarrow> real \<Rightarrow> skip_list" where
  "SkipListPurchaseHistory ml p =
     \<lparr>max_level = ml, probability = p, heap = [create_node ml [] []], level_sl = 0, size_sl = 0\<rparr>"

text \<open>
  \<open>n.forward[i]\<close> raises IndexError when \<open>i\<close> exceeds the level of node \<open>n\<close>;
  \<open>n.forward[i] = r\<close> is \<open>set_forward\<close>. Python has no dangling reference; an address
  outside the store is answered with IndexError as well.
\<close>

definition forward_at :: "sl_node list \<Rightarrow> nat \<Rightarrow> nat \<Rightarrow> py_error + nat option" where
  "forward_at h n i =
     (if n < length h \<and> i < length (forward (h ! n)) then Inr (forward (h ! n) ! i) else Inl IndexError)"

definition set_forward :: "sl_node list \<Rightarrow> nat \<Rightarrow> nat \<Rightarrow> nat option \<Rightarrow> sl_node list" where
  "set_forward h n i r = h[n := (h ! n)\<lparr>forward := (forward (h ! n))[i := r]\<rparr>]"

text \<open>
  \<open>while current.forward[i] and current.forward[i].item_id < item_id: current = current.forward[i]\<close>.
  The loop runs on fuel; every caller gives it one unit per allocated node. A walk that has
  not stopped after that many steps has visited a node twice, so the source loops for ever
  on it: the result is \<open>None\<close>.
\<close>

fun walk :: "nat \<Rightarrow> sl_node list \<Rightarrow> nat \<Rightarrow> string \<Rightarrow> nat \<Rightarrow> (py_error + nat) option" where
  "walk 0 h i k current = None"
| "walk (Suc fuel) h i k current =
     (case forward_at h current i of
        Inl e \<Rightarrow> Some (Inl e)
      | Inr None \<Rightarrow> Some (Inr current)
      | Inr (Some nxt) \<Rightarrow>
          if length h \<le> nxt then Some (Inl IndexError)
          else if item_id_sl (h ! nxt) < k then walk fuel h i k nxt
          else Some (Inr current))"

text \<open>
  \<open>for i in range(self.level, -1, -1)\<close>: the walk at each level, from the top level down, and
  \<open>update[i] = current\<close>. \<open>search_purchase\<close> runs the same loop without the \<open>update\<close> array.
\<close>

fun descend ::
  "sl_node list \<Rightarrow> string \<Rightarrow> nat list \<Rightarrow> nat \<Rightarrow> nat option list
     \<Rightarrow> (py_error + nat \<times> nat option list) option" where
  "descend h k [] current update = Some (Inr (current, update))"
| "descend h k (i # levels) current update =
     (case walk (length h) h i k current of
        None \<Rightarrow> None
      | Some (Inl e) \<Rightarrow> Some (Inl e)
      | Some (Inr current') \<Rightarrow>
          if length update \<le> i then Some (Inl IndexError)
          else descend h k levels current' (update[i := Some current']))"

fun descend_search :: "sl_node list \<Rightarrow> string \<Rightarrow> nat list \<Rightarrow> nat \<Rightarrow> (py_error + nat) option" where
  "descend_search h k [] current = Some (Inr current)"
| "descend_search h k (i # levels) current =
     (case walk (length h) h i k current of
        None \<Rightarrow> None
      | Some (Inl e) \<Rightarrow> Some (Inl e)
      | Some (Inr current') \<Rightarrow> descend_search h k levels current')"

text \<open>
  \<open>current = current.forward[0]\<close> followed by the test
  \<open>current and current.item_id == item_id\<close>: the node found, if any.
\<close>

definition found_at :: "sl_node list \<Rightarrow> nat \<Rightarrow> string \<Rightarrow> py_error + nat option" where
  "found_at h current k =
     (case forward_at h current 0 of
        Inl e \<Rightarrow> Inl e
      | Inr None \<Rightarrow> Inr None
      | Inr (Some c) \<Rightarrow>
          if length h \<le> c then Inl IndexError
          else if item_id_sl (h ! c) = k then Inr (Some c) else Inr None)"

text \<open>
  \<open>_random_level\<close>: \<open>while random.random() < self.probability and level < self.max_level\<close>.
  The numbers the generator returns during one call are \<open>draws 0\<close>, \<open>draws 1\<close>, ...; the
  level rises by one for each turn of the loop, which therefore ends after at most
  \<open>max_level\<close> turns.
\<close>

fun random_level_loop :: "(nat \<Rightarrow> real) \<Rightarrow> real \<Rightarrow> nat \<Rightarrow> nat \<Rightarrow> nat \<Rightarrow> nat" where
  "random_level_loop draws p ml 0 level = level"
| "random_level_loop draws p ml (Suc fuel) level =
     (if draws level < p \<and> level < ml then random_level_loop draws p ml fuel (level + 1) else level)"

definition random_level :: "skip_list \<Rightarrow> (nat \<Rightarrow> real) \<Rightarrow> nat" where
  "random_level s draws = random_level_loop draws (probability s) (max_level s) (max_level s) 0"

text \<open>
  \<open>add_purchase\<close>. \<open>raise_header\<close> is the loop
  \<open>for i in range(self.level + 1, new_level + 1): update[i] = self.header\<close>, \<open>splice\<close> the loop
  \<open>for i in range(new_level + 1)\<close> that links the new node in; \<open>update[i].forward\<close> raises
  AttributeError when \<open>update[i]\<close> is \<open>None\<close>. The level is only used when the identifier is
  not yet in the list, where the source draws it.
\<close>

fun raise_header :: "nat option list \<Rightarrow> nat list \<Rightarrow> py_error + nat option list" where
  "raise_header update [] = Inr update"
| "raise_header update (i # levels) =
     (if length update \<le> i then Inl IndexError else raise_header (update[i := Some 0]) levels)"

fun splice :: "sl_node list \<Rightarrow> nat \<Rightarrow> nat option list \<Rightarrow> nat list \<Rightarrow> py_error + sl_node list" where
  "splice h new_node update [] = Inr h"
| "splice h new_node update (i # levels) =
     (if length update \<le> i then Inl IndexError
      else case update ! i of
             None \<Rightarrow> Inl AttributeError
           | Some p \<Rightarrow>
               (case forward_at h p i of
                  Inl e \<Rightarrow> Inl e
                | Inr nxt \<Rightarrow>
                    (case forward_at h new_node i of
                       Inl e \<Rightarrow> Inl e
                     | Inr _ \<Rightarrow>
                         splice (set_forward (set_forward h new_node i nxt) p i (Some new_node))
                           new_node update levels)))"

definition add_purchase_sl ::
  "skip_list \<Rightarrow> string \<Rightarrow> purchase_data option \<Rightarrow> (nat \<Rightarrow> real) \<Rightarrow> (py_error + skip_list) option" where
  "add_purchase_sl s iid purchase_data draws =
     (let pd = (case purchase_data of None \<Rightarrow> [] | Some d \<Rightarrow> d); h = heap s;
          new_level = random_level s draws in
      case descend h iid (rev [0..<Suc (level_sl s)]) 0 (replicate (max_level s + 1) None) of
        None \<Rightarrow> None
      | Some (Inl e) \<Rightarrow> Some (Inl e)
      | Some (Inr (current, update)) \<Rightarrow>
          (case found_at h current iid of
             Inl e \<Rightarrow> Some (Inl e)
           | Inr (Some c) \<Rightarrow> Some (Inr (s\<lparr>heap := h[c := (h ! c)\<lparr>purchase_data_sl := pd\<rparr>]\<rparr>))
           | Inr None \<Rightarrow>
               (case (if level_sl s < new_level
                      then raise_header update [Suc (level_sl s)..<Suc new_level] else Inr update) of
                  Inl e \<Rightarrow> Some (Inl e)
                | Inr update' \<Rightarrow>
                    (case splice (h @ [create_node new_level iid pd]) (length h) update'
                            [0..<Suc new_level] of
                       Inl e \<Rightarrow> Some (Inl e)
                     | Inr h' \<Rightarrow>
                         Some (Inr (s\<lparr>heap := h', level_sl := max (level_sl s) new_level,
                                      size_sl := size_sl s + 1\<rparr>))))))"

definition search_purchase :: "skip_list \<Rightarrow> string \<Rightarrow> (py_error + purchase_data option) option" where
  "search_purchase s iid =
     (case descend_search (heap s) iid (rev [0..<Suc (level_sl s)]) 0 of
        None \<Rightarrow> None
      | Some (Inl e) \<Rightarrow> Some (Inl e)
      | Some (Inr current) \<Rightarrow>
          (case found_at (heap s) current iid of
             Inl e \<Rightarrow> Some (Inl e)
           | Inr None \<Rightarrow> Some (Inr None)
           | Inr (Some c) \<Rightarrow> Some (Inr (Some (purchase_data_sl (heap s ! c))))))"

text \<open>
  \<open>delete_purchase\<close>. \<open>unlink\<close> is the loop \<open>for i in range(self.level + 1)\<close> with its
  \<open>break\<close> at the first level where \<open>update[i].forward[i]\<close> is not the node; \<open>shrink_level\<close> is
  \<open>while self.level > 0 and self.header.forward[self.level] is None: self.level -= 1\<close>.
\<close>

fun unlink :: "sl_node list \<Rightarrow> nat \<Rightarrow> nat option list \<Rightarrow> nat list \<Rightarrow> py_error + sl_node list" where
  "unlink h c update [] = Inr h"
| "unlink h c update (i # levels) =
     (if length update \<le> i then Inl IndexError
      else case update ! i of
             None \<Rightarrow> Inl AttributeError
           | Some p \<Rightarrow>
               (case forward_at h p i of
                  Inl e \<Rightarrow> Inl e
                | Inr nxt \<Rightarrow>
                    if nxt \<noteq> Some c then Inr h
                    else (case forward_at h c i of
                            Inl e \<Rightarrow> Inl e
                          | Inr after \<Rightarrow> unlink (set_forward h p i after) c update levels)))"

fun shrink_level :: "sl_node list \<Rightarrow> nat \<Rightarrow> py_error + nat" where
  "shrink_level h 0 = Inr 0"
| "shrink_level h (Suc l) =
     (case forward_at h 0 (Suc l) of
        Inl e \<Rightarrow> Inl e
      | Inr None \<Rightarrow> shrink_level h l
      | Inr (Some _) \<Rightarrow> Inr (Suc l))"

definition delete_purchase :: "skip_list \<Rightarrow> string \<Rightarrow> (py_error + skip_list \<times> bool) option" where
  "delete_purchase s iid =
     (let h = heap s in
      case descend h iid (rev [0..<Suc (level_sl s)]) 0 (replicate (max_level s + 1) None) of
        None \<Rightarrow> None
      | Some (Inl e) \<Rightarrow> Some (Inl e)
      | Some (Inr (current, update)) \<Rightarrow>
          (case found_at h current iid of
             Inl e \<Rightarrow> Some (Inl e)
           | Inr None \<Rightarrow> Some (Inr (s, False))
           | Inr (Some c) \<Rightarrow>
               (case unlink h c update [0..<Suc (level_sl s)] of
                  Inl e \<Rightarrow> Some (Inl e)
                | Inr h' \<Rightarrow>
                    (case shrink_level h' (level_sl s) of
                       Inl e \<Rightarrow> Some (Inl e)
                     | Inr l \<Rightarrow>
                         Some (Inr (s\<lparr>heap := h', level_sl := l, size_sl := size_sl s - 1\<rparr>, True))))))"

text \<open>
  \<open>to_list\<close> follows the level-0 pointers from the header, on the same fuel.
\<close>

fun follow :: "nat \<Rightarrow> sl_node list \<Rightarrow> nat option \<Rightarrow> (py_error + string list) option" where
  "follow 0 h current = None"
| "follow (Suc fuel) h None = Some (Inr [])"
| "follow (Suc fuel) h (Some n) =
     (if length h \<le> n then Some (Inl IndexError)
      else case forward_at h n 0 of
             Inl e \<Rightarrow> Some (Inl e)
           | Inr nxt \<Rightarrow> map_option (map_sum id ((#) (item_id_sl (h ! n)))) (follow fuel h nxt))"

definition to_list :: "skip_list \<Rightarrow> (py_error + string list) option" where
  "to_list s =
     (case forward_at (heap s) 0 0 of
        Inl e \<Rightarrow> Some (Inl e)
      | Inr first \<Rightarrow> follow (length (heap s)) (heap s) first)"

subsection \<open>Well-formed skip lists\<close>

text \<open>
  \<open>path f r ns r'\<close>: following the pointers \<open>f\<close> from the reference \<open>r\<close> visits exactly the nodes
  \<open>ns\<close> and ends with the reference \<open>r'\<close>. A skip list is well formed for the list \<open>L\<close> of
  the addresses of its live nodes when the identifiers along \<open>L\<close> ascend strictly and, at
  every level \<open>i\<close>, the pointers lead from the header through the nodes of \<open>L\<close> that are
  higher than \<open>i\<close>, in the order of \<open>L\<close>, to the null reference. \<open>contents\<close> is the mapping from
  identifier to purchase data that the list then represents.
\<close>

definition head_ref :: "nat list \<Rightarrow> nat option" where
  "head_ref ns = (case ns of [] \<Rightarrow> None | n # _ \<Rightarrow> Some n)"

fun path :: "(nat \<Rightarrow> py_error + nat option) \<Rightarrow> nat option \<Rightarrow> nat list \<Rightarrow> nat option \<Rightarrow> bool" where
  "path f r [] r' = (r = r')"
| "path f r (n # ns) r' = (r = Some n \<and> (case f n of Inl _ \<Rightarrow> False | Inr x \<Rightarrow> path f x ns r'))"

definition ht :: "sl_node list \<Rightarrow> nat \<Rightarrow> nat" where
  "ht h n = length (forward (h ! n))"

definition same_nodes :: "sl_node list \<Rightarrow> sl_node list \<Rightarrow> bool" where
  "same_nodes h' h \<longleftrightarrow>
     length h' = length h \<and>
     (\<forall>n < length h. item_id_sl (h' ! n) = item_id_sl (h ! n) \<and>
        purchase_data_sl (h' ! n) = purchase_data_sl (h ! n) \<and> ht h' n = ht h n)"

abbreviation fa :: "sl_node list \<Rightarrow> nat \<Rightarrow> nat \<Rightarrow> py_error + nat option" where
  "fa h i \<equiv> (\<lambda>n. forward_at h n i)"

definition chain :: "sl_node list \<Rightarrow> nat \<Rightarrow> nat list \<Rightarrow> nat list" where
  "chain h i L = filter (\<lambda>n. i < ht h n) L"

definition below :: "sl_node list \<Rightarrow> string \<Rightarrow> nat list \<Rightarrow> nat list" where
  "below h k L = takeWhile (\<lambda>n. item_id_sl (h ! n) < k) L"

definition from_key :: "sl_node list \<Rightarrow> string \<Rightarrow> nat list \<Rightarrow> nat list" where
  "from_key h k L = dropWhile (\<lambda>n. item_id_sl (h ! n) < k) L"

definition pred_at :: "sl_node list \<Rightarrow> string \<Rightarrow> nat \<Rightarrow> nat list \<Rightarrow> nat" where
  "pred_at h k i L = last (0 # below h k (chain h i L))"

definition keys_sorted :: "sl_node list \<Rightarrow> nat list \<Rightarrow> bool" where
  "keys_sorted h L \<longleftrightarrow> sorted_wrt (<) (map (\<lambda>n. item_id_sl (h ! n)) L)"

definition sl_inv :: "skip_list \<Rightarrow> nat list \<Rightarrow> bool" where
  "sl_inv s L \<longleftrightarrow>
     ht (heap s) 0 = max_level s + 1 \<and> 0 < length (heap s) \<and> level_sl s \<le> max_level s \<and>
     (\<forall>n\<in>set L. 0 < n \<and> n < length (heap s) \<and> 0 < ht (heap s) n \<and> ht (heap s) n \<le> level_sl s + 1) \<and>
     keys_sorted (heap s) L \<and>
     (\<forall>i\<le>max_level s. path (fa (heap s) i) (Some 0) (0 # chain (heap s) i L) None) \<and>
     size_sl s = int (length L)"

definition contents :: "sl_node list \<Rightarrow> nat list \<Rightarrow> string \<rightharpoonup> purchase_data" where
  "contents h L = map_of (map (\<lambda>n. (item_id_sl (h ! n), purchase_data_sl (h ! n))) L)"

definition lookup_node :: "sl_node list \<Rightarrow> string \<Rightarrow> nat list \<Rightarrow> nat option" where
  "lookup_node h k L =
     (case from_key h k L of [] \<Rightarrow> None | c # _ \<Rightarrow> if item_id_sl (h ! c) = k then Some c else None)"

text \<open>
  Sequences of calls, and the mapping they should leave behind: \<open>add_purchase\<close> stores the
  data given (the empty dictionary when none is given), \<open>delete_purchase\<close> removes the key.
  \<open>heads_then_tail n\<close> is a run of the generator that lets \<open>_random_level\<close> rise \<open>n\<close> times.
\<close>

datatype sl_op = AddPurchase string "purchase_data option" "nat \<Rightarrow> real" | DeletePurchase string

fun apply_sl_op :: "skip_list \<Rightarrow> sl_op \<Rightarrow> (py_error + skip_list) option" where
  "apply_sl_op s (AddPurchase k d draws) = add_purchase_sl s k d draws"
| "apply_sl_op s (DeletePurchase k) = map_option (map_sum id fst) (delete_purchase s k)"

fun run_sl_ops :: "skip_list \<Rightarrow> sl_op list \<Rightarrow> (py_error + skip_list) option" where
  "run_sl_ops s [] = Some (Inr s)"
| "run_sl_ops s (x # ops) =
     (case apply_sl_op s x of
        None \<Rightarrow> None
      | Some (Inl e) \<Rightarrow> Some (Inl e)
      | Some (Inr s') \<Rightarrow> run_sl_ops s' ops)"

definition stored_data :: "purchase_data option \<Rightarrow> purchase_data" where
  "stored_data d = (case d of None \<Rightarrow> [] | Some x \<Rightarrow> x)"

fun replay_sl :: "(string \<rightharpoonup> purchase_data) \<Rightarrow> sl_op list \<Rightarrow> (string \<rightharpoonup> purchase_data)" where
  "replay_sl m [] = m"
| "replay_sl m (AddPurchase k d draws # ops) = replay_sl (m(k \<mapsto> stored_data d)) ops"
| "replay_sl m (DeletePurchase k # ops) = replay_sl (m(k := None)) ops"

definition heads_then_tail :: "nat \<Rightarrow> nat \<Rightarrow> real" where
  "heads_then_tail n i = (if i < n then 0 else 1)"

definition example_sl_ops :: "sl_op list" where
  "example_sl_ops =
     [AddPurchase ''I2'' None (heads_then_tail 2),
      AddPurchase ''I1'' (Some [(''total_amount'', PyNum 5)]) (heads_then_tail 0),
      AddPurchase ''I2'' (Some [(''total_amount'', PyNum 7)]) (heads_then_tail 1),
      DeletePurchase ''I1'',
      AddPurchase ''I3'' None (heads_then_tail 3)]"

subsection \<open>Chains of forward pointers\<close>

lemma head_ref_simps [simp]: "head_ref [] = None" "head_ref (n # ns) = Some n"
  by (simp_all add: head_ref_def)

lemma path_Cons [simp]:
  "path f r (n # ns) r' = (r = Some n \<and> (\<exists>x. f n = Inr x \<and> path f x ns r'))"
  by (auto split: sum.splits)

declare path.simps(2) [simp del]

lemma path_append: "path f r (xs @ ys) r' = (\<exists>m. path f r xs m \<and> path f m ys r')"
  by (induction xs arbitrary: r) auto

lemma path_cong: "(\<And>n. n \<in> set ns \<Longrightarrow> f n = g n) \<Longrightarrow> path f r ns r' = path g r ns r'"
  by (induction ns arbitrary: r) auto

lemma path_head: "path f r ns None \<Longrightarrow> r = head_ref ns"
  by (cases ns) auto

lemma path_last_update:
  "path f r xs m \<Longrightarrow> xs \<noteq> [] \<Longrightarrow> distinct xs \<Longrightarrow> path (f(last xs := Inr z)) r xs z"
proof (induction xs arbitrary: r)
  case Nil
  then show ?case by simp
next
  case (Cons n ns)
  show ?case
  proof (cases "ns = []")
    case True
    with Cons.prems show ?thesis by auto
  next
    case False
    from Cons.prems obtain x where x: "r = Some n" "f n = Inr x" "path f x ns m"
      by (auto simp: path_Cons)
    from Cons.prems have "distinct ns" by simp
    from Cons.IH [OF x(3) False this] have "path (f(last ns := Inr z)) x ns z" .
    moreover from Cons.prems False have "last ns \<noteq> n" by auto
    ultimately show ?thesis using x False by (simp del: fun_upd_apply add: fun_upd_other)
  qed
qed

lemma path_insert:
  assumes p: "path f r (xs @ ys) None" and ne: "xs \<noteq> []" and d: "distinct (xs @ ys)"
    and a: "a \<notin> set (xs @ ys)"
    and g: "g = f(a := Inr (head_ref ys), last xs := Inr (Some a))"
  shows "path g r (xs @ a # ys) None"
proof -
  from p obtain m where m: "path f r xs m" "path f m ys None" by (auto simp: path_append)
  from path_head [OF m(2)] have mh: "m = head_ref ys" .
  have lx: "last xs \<in> set xs" using ne by simp
  have "path (f(a := Inr (head_ref ys))) r xs m"
    using m(1) a by (subst path_cong [where g = f]) auto
  from path_last_update [OF this ne, of "Some a"] d
  have 1: "path g r xs (Some a)" by (simp add: g)
  have "path g m ys None"
    using m(2) a d lx by (subst path_cong [where g = f]) (auto simp: g)
  moreover have "g a = Inr m" using a lx by (auto simp: g mh)
  ultimately have 2: "path g (Some a) (a # ys) None" by (simp add: path_Cons)
  from 1 2 show ?thesis by (auto simp: path_append)
qed

lemma path_delete:
  assumes p: "path f r (xs @ c # ys) None" and ne: "xs \<noteq> []" and d: "distinct (xs @ c # ys)"
    and g: "g = f(last xs := f c)"
  shows "path g r (xs @ ys) None \<and> f (last xs) = Inr (Some c)"
proof -
  from p obtain x where m: "path f r xs (Some c)" "f c = Inr x" "path f x ys None"
    by (auto simp: path_append path_Cons)
  have lx: "last xs \<in> set xs" using ne by simp
  from path_last_update [OF m(1) ne, of x] d have 1: "path g r xs x" by (simp add: g m(2))
  have 2: "path g x ys None"
    using m(3) d lx by (subst path_cong [where g = f]) (auto simp: g)
  have "f (last xs) = Inr (Some c)" using m(1) ne
  proof (induction xs arbitrary: r)
    case Nil
    then show ?case by simp
  next
    case (Cons n ns)
    then show ?case by (cases "ns = []") (auto simp: path_Cons)
  qed
  with 1 2 show ?thesis by (auto simp: path_append)
qed

lemma path_next:
  "path f r (xs @ ys) None \<Longrightarrow> xs \<noteq> [] \<Longrightarrow> f (last xs) = Inr (head_ref ys)"
proof (induction xs arbitrary: r)
  case Nil
  then show ?case by simp
next
  case (Cons n ns)
  show ?case
  proof (cases "ns = []")
    case True
    with Cons.prems obtain x where "f n = Inr x" "path f x ys None" by (auto simp: path_Cons)
    with path_head [of f x ys] True show ?thesis by simp
  next
    case False
    with Cons show ?thesis by (auto simp: path_Cons)
  qed
qed

subsection \<open>Reading and writing forward pointers\<close>

lemma same_nodes_refl [simp]: "same_nodes h h"
  by (simp add: same_nodes_def)

lemma same_nodes_trans: "same_nodes h'' h' \<Longrightarrow> same_nodes h' h \<Longrightarrow> same_nodes h'' h"
  by (simp add: same_nodes_def)

lemma length_set_forward [simp]: "length (set_forward h n i r) = length h"
  by (simp add: set_forward_def)

lemma nth_set_forward:
  "set_forward h n i r ! m =
     (if m = n \<and> n < length h then (h ! n)\<lparr>forward := (forward (h ! n))[i := r]\<rparr> else h ! m)"
  by (cases "n < length h") (simp_all add: set_forward_def nth_list_update list_update_beyond)

lemma ht_set_forward [simp]: "ht (set_forward h n i r) m = ht h m"
  by (simp add: ht_def nth_set_forward)

lemma same_nodes_set_forward: "same_nodes (set_forward h n i r) h"
  by (simp add: same_nodes_def nth_set_forward ht_def)

lemma forward_at_set_forward:
  "forward_at (set_forward h n j r) m i =
     (if m = n \<and> i = j \<and> n < length h \<and> j < ht h n then Inr r else forward_at h m i)"
  by (auto simp: forward_at_def nth_set_forward ht_def nth_list_update)

lemma forward_at_Inr: "forward_at h n i = Inr x \<Longrightarrow> n < length h \<and> i < ht h n"
  by (auto simp: forward_at_def ht_def split: if_splits)

lemma forward_at_append:
  "n < length h \<Longrightarrow> forward_at (h @ hs) n i = forward_at h n i"
  by (simp add: forward_at_def nth_append)

subsection \<open>The abstraction: the level-0 chain and its sub-chains\<close>

lemma below_from_key: "below h k L @ from_key h k L = L"
  by (simp add: below_def from_key_def)

lemma keys_sorted_distinct: "keys_sorted h L \<Longrightarrow> distinct L"
  unfolding keys_sorted_def by (induction L) auto

lemma keys_sorted_chain: "keys_sorted h L \<Longrightarrow> keys_sorted h (chain h i L)"
  unfolding keys_sorted_def chain_def by (induction L) auto

lemma keys_sorted_append:
  "keys_sorted h (xs @ ys) \<longleftrightarrow>
     keys_sorted h xs \<and> keys_sorted h ys \<and>
     (\<forall>x\<in>set xs. \<forall>y\<in>set ys. item_id_sl (h ! x) < item_id_sl (h ! y))"
  by (auto simp: keys_sorted_def sorted_wrt_append)

lemma keys_sorted_Cons:
  "keys_sorted h (x # ys) \<longleftrightarrow> keys_sorted h ys \<and> (\<forall>y\<in>set ys. item_id_sl (h ! x) < item_id_sl (h ! y))"
  by (auto simp: keys_sorted_def)

lemma below_filter:
  "keys_sorted h L \<Longrightarrow> below h k L = filter (\<lambda>n. item_id_sl (h ! n) < k) L"
  unfolding below_def keys_sorted_def
proof (induction L)
  case Nil
  then show ?case by simp
next
  case (Cons n ns)
  show ?case
  proof (cases "item_id_sl (h ! n) < k")
    case True
    with Cons show ?thesis by simp
  next
    case False
    with Cons.prems have "\<forall>m\<in>set ns. \<not> item_id_sl (h ! m) < k" by auto
    then have "filter (\<lambda>n. item_id_sl (h ! n) < k) ns = []" by (simp add: filter_empty_conv)
    with False show ?thesis by simp
  qed
qed

lemma from_key_filter:
  "keys_sorted h L \<Longrightarrow> from_key h k L = filter (\<lambda>n. \<not> item_id_sl (h ! n) < k) L"
  unfolding from_key_def keys_sorted_def
proof (induction L)
  case Nil
  then show ?case by simp
next
  case (Cons n ns)
  show ?case
  proof (cases "item_id_sl (h ! n) < k")
    case True
    with Cons show ?thesis by simp
  next
    case False
    with Cons.prems have "\<forall>m\<in>set ns. \<not> item_id_sl (h ! m) < k" by auto
    then have "filter (\<lambda>n. \<not> item_id_sl (h ! n) < k) ns = ns" by (simp add: filter_id_conv)
    with False show ?thesis by simp
  qed
qed

lemma below_chain: "keys_sorted h L \<Longrightarrow> below h k (chain h i L) = chain h i (below h k L)"
  by (simp add: below_filter keys_sorted_chain) (auto simp: chain_def intro: filter_cong)

lemma from_key_chain: "keys_sorted h L \<Longrightarrow> from_key h k (chain h i L) = chain h i (from_key h k L)"
  by (simp add: from_key_filter keys_sorted_chain) (auto simp: chain_def intro: filter_cong)

lemma chain_append [simp]: "chain h i (xs @ ys) = chain h i xs @ chain h i ys"
  by (simp add: chain_def)

lemma set_chain: "set (chain h i L) = {n \<in> set L. i < ht h n}"
  by (simp add: chain_def)

lemma chain_split: "keys_sorted h L \<Longrightarrow> chain h i L = below h k (chain h i L) @ from_key h k (chain h i L)"
  by (simp add: below_from_key)

lemma pred_at_cases:
  "pred_at h k i L = 0 \<or> (pred_at h k i L \<in> set (chain h i L) \<and> item_id_sl (h ! pred_at h k i L) < k)"
proof (cases "below h k (chain h i L) = []")
  case True
  then show ?thesis by (simp add: pred_at_def)
next
  case False
  then have "last (below h k (chain h i L)) \<in> set (below h k (chain h i L))" by simp
  then have "last (below h k (chain h i L)) \<in> set (chain h i L) \<and>
      item_id_sl (h ! last (below h k (chain h i L))) < k"
    unfolding below_def by (auto dest: set_takeWhileD)
  with False show ?thesis by (simp add: pred_at_def)
qed

subsection \<open>The search walk\<close>

lemma walk_seg:
  "path (fa h i) (Some cur) (cur # R) None \<Longrightarrow> length R < fuel \<Longrightarrow>
   walk fuel h i k cur = Some (Inr (last (cur # below h k R)))"
proof (induction R arbitrary: cur fuel)
  case Nil
  then obtain f where "fuel = Suc f" by (cases fuel) auto
  with Nil show ?case by (simp add: below_def)
next
  case (Cons n R)
  then obtain f where f: "fuel = Suc f" by (cases fuel) auto
  from Cons.prems have c: "forward_at h cur i = Inr (Some n)" and p: "path (fa h i) (Some n) (n # R) None"
    by auto
  from p have n: "n < length h" by (auto dest: forward_at_Inr)
  show ?case
  proof (cases "item_id_sl (h ! n) < k")
    case True
    from Cons.IH [OF p, of f] Cons.prems f
    have "walk f h i k n = Some (Inr (last (n # below h k R)))" by simp
    with True c n f show ?thesis by (simp add: below_def)
  next
    case False
    with c n f show ?thesis by (simp add: below_def)
  qed
qed

lemma walk_chain:
  assumes p: "path (fa h i) (Some 0) (0 # C) None" and s: "keys_sorted h C"
    and cur: "cur = 0 \<or> (cur \<in> set C \<and> item_id_sl (h ! cur) < k)"
    and fuel: "length C < fuel"
  shows "walk fuel h i k cur = Some (Inr (last (0 # below h k C)))"
proof (cases "cur \<in> set C \<and> item_id_sl (h ! cur) < k")
  case False
  with cur have "cur = 0" by auto
  with walk_seg [OF p fuel] show ?thesis by simp
next
  case True
  then obtain P R where C: "C = P @ cur # R" by (auto dest: split_list)
  from p have "path (fa h i) (Some 0) ((0 # P) @ cur # R) None" by (simp add: C)
  then have pc: "path (fa h i) (Some cur) (cur # R) None"
    unfolding path_append by auto
  from fuel have "length R < fuel" by (simp add: C)
  from walk_seg [OF pc this] have w: "walk fuel h i k cur = Some (Inr (last (cur # below h k R)))" .
  from s True have "\<forall>x\<in>set P. item_id_sl (h ! x) < k"
    by (auto simp: C keys_sorted_append keys_sorted_Cons)
  then have "below h k C = P @ cur # below h k R"
    using True by (simp add: C below_def takeWhile_append2)
  with w show ?thesis by simp
qed

lemma pred_at_start:
  "pred_at h k (Suc i) L = 0 \<or>
     (pred_at h k (Suc i) L \<in> set (chain h i L) \<and> item_id_sl (h ! pred_at h k (Suc i) L) < k)"
  using pred_at_cases [of h k "Suc i" L] by (auto simp: set_chain)

lemma length_chain: "length (chain h i L) \<le> length L"
  by (simp add: chain_def)

lemma walk_level:
  assumes "path (fa h i) (Some 0) (0 # chain h i L) None" "keys_sorted h L" "length L < length h"
    "cur = 0 \<or> (cur \<in> set (chain h i L) \<and> item_id_sl (h ! cur) < k)"
  shows "walk (length h) h i k cur = Some (Inr (pred_at h k i L))"
  unfolding pred_at_def
  using assms length_chain [of h i L]
  by (intro walk_chain keys_sorted_chain) auto

lemma descend_ok:
  assumes S: "keys_sorted h L" and len: "length L < length h"
  shows "(\<forall>i\<le>l. path (fa h i) (Some 0) (0 # chain h i L) None) \<Longrightarrow> l < length update \<Longrightarrow>
    cur = 0 \<or> (cur \<in> set (chain h l L) \<and> item_id_sl (h ! cur) < k) \<Longrightarrow>
    \<exists>update'. descend h k (rev [0..<Suc l]) cur update = Some (Inr (pred_at h k 0 L, update')) \<and>
       length update' = length update \<and> (\<forall>i\<le>l. update' ! i = Some (pred_at h k i L)) \<and>
       (\<forall>i. l < i \<longrightarrow> update' ! i = update ! i)"
proof (induction l arbitrary: cur update)
  case 0
  from walk_level [OF _ S len 0(3)] 0(1)
  have "walk (length h) h 0 k cur = Some (Inr (pred_at h k 0 L))" by simp
  with 0(2) show ?case by simp
next
  case (Suc l)
  from walk_level [OF _ S len Suc(4)] Suc(2)
  have w: "walk (length h) h (Suc l) k cur = Some (Inr (pred_at h k (Suc l) L))" by simp
  let ?u = "update[Suc l := Some (pred_at h k (Suc l) L)]"
  from Suc.IH [of ?u "pred_at h k (Suc l) L"] Suc.prems pred_at_start [of h k l L]
  obtain update' where u: "descend h k (rev [0..<Suc l]) (pred_at h k (Suc l) L) ?u
        = Some (Inr (pred_at h k 0 L, update'))"
      "length update' = length update" "\<forall>i\<le>l. update' ! i = Some (pred_at h k i L)"
      "\<forall>i. l < i \<longrightarrow> update' ! i = ?u ! i"
    by auto
  have "\<forall>i\<le>Suc l. update' ! i = Some (pred_at h k i L)"
  proof (intro allI impI)
    fix i assume "i \<le> Suc l"
    then consider "i \<le> l" | "i = Suc l" by linarith
    then show "update' ! i = Some (pred_at h k i L)"
      using u(3,4) Suc.prems(2) by cases auto
  qed
  moreover have "\<forall>i. Suc l < i \<longrightarrow> update' ! i = update ! i"
    using u(4) by auto
  ultimately show ?case using w u(1,2) Suc.prems(2) by simp
qed

lemma descend_search_ok:
  assumes S: "keys_sorted h L" and len: "length L < length h"
  shows "(\<forall>i\<le>l. path (fa h i) (Some 0) (0 # chain h i L) None) \<Longrightarrow>
    cur = 0 \<or> (cur \<in> set (chain h l L) \<and> item_id_sl (h ! cur) < k) \<Longrightarrow>
    descend_search h k (rev [0..<Suc l]) cur = Some (Inr (pred_at h k 0 L))"
proof (induction l arbitrary: cur)
  case 0
  from walk_level [OF _ S len 0(2)] 0(1)
  have "walk (length h) h 0 k cur = Some (Inr (pred_at h k 0 L))" by simp
  then show ?case by simp
next
  case (Suc l)
  from walk_level [OF _ S len Suc(3)] Suc(2)
  have w: "walk (length h) h (Suc l) k cur = Some (Inr (pred_at h k (Suc l) L))" by simp
  from Suc.IH [of "pred_at h k (Suc l) L"] Suc.prems pred_at_start [of h k l L]
  have "descend_search h k (rev [0..<Suc l]) (pred_at h k (Suc l) L) = Some (Inr (pred_at h k 0 L))"
    by auto
  with w show ?case by simp
qed

subsection \<open>The node found after the walk\<close>

lemma pred_next:
  assumes "path (fa h i) (Some 0) (0 # chain h i L) None" "keys_sorted h L"
  shows "forward_at h (pred_at h k i L) i = Inr (head_ref (from_key h k (chain h i L)))"
proof -
  have "path (fa h i) (Some 0) ((0 # below h k (chain h i L)) @ from_key h k (chain h i L)) None"
    using assms(1) by (simp add: below_from_key)
  from path_next [OF this] show ?thesis by (simp add: pred_at_def)
qed

lemma chain_0: "\<forall>n\<in>set L. 0 < ht h n \<Longrightarrow> chain h 0 L = L"
  by (simp add: chain_def filter_id_conv)

lemma found_at_ok:
  assumes "path (fa h 0) (Some 0) (0 # L) None" "keys_sorted h L" "\<forall>n\<in>set L. 0 < ht h n"
  shows "found_at h (pred_at h k 0 L) k = Inr (lookup_node h k L)"
proof -
  from assms have f: "forward_at h (pred_at h k 0 L) 0 = Inr (head_ref (from_key h k L))"
    using pred_next [of h 0 L k] by (simp add: chain_0)
  show ?thesis
  proof (cases "from_key h k L")
    case Nil
    with f show ?thesis by (simp add: found_at_def lookup_node_def)
  next
    case (Cons c cs)
    then have "c \<in> set L" using below_from_key [of h k L] by (metis in_set_conv_decomp)
    then obtain P R where "L = P @ c # R" by (auto dest: split_list)
    with assms(1) have "\<exists>x. forward_at h c 0 = Inr x" by (auto simp: path_append)
    then have "c < length h" by (auto dest: forward_at_Inr)
    with f Cons show ?thesis by (simp add: found_at_def lookup_node_def)
  qed
qed

lemma lookup_node_Some:
  assumes "lookup_node h k L = Some c"
  shows "item_id_sl (h ! c) = k \<and> (\<exists>R. L = below h k L @ c # R)"
proof -
  from assms obtain R where "from_key h k L = c # R" "item_id_sl (h ! c) = k"
    by (auto simp: lookup_node_def split: list.splits if_splits)
  with below_from_key [of h k L] show ?thesis by (metis)
qed

lemma lookup_node_None:
  assumes "lookup_node h k L = None" "keys_sorted h L"
  shows "\<forall>n\<in>set (below h k L). item_id_sl (h ! n) < k"
    and "\<forall>n\<in>set (from_key h k L). k < item_id_sl (h ! n)"
proof -
  show "\<forall>n\<in>set (below h k L). item_id_sl (h ! n) < k"
    by (auto simp: below_def dest: set_takeWhileD)
  show "\<forall>n\<in>set (from_key h k L). k < item_id_sl (h ! n)"
  proof (cases "from_key h k L")
    case Nil
    then show ?thesis by simp
  next
    case (Cons c cs)
    then have "\<not> item_id_sl (h ! c) < k"
      unfolding from_key_def using hd_dropWhile [of "\<lambda>n. item_id_sl (h ! n) < k" L] by auto
    moreover from assms(1) Cons have "item_id_sl (h ! c) \<noteq> k" by (auto simp: lookup_node_def)
    ultimately have c: "k < item_id_sl (h ! c)" by auto
    from assms(2) have "keys_sorted h (below h k L @ c # cs)"
      using below_from_key [of h k L] Cons by simp
    then have "\<forall>y\<in>set cs. item_id_sl (h ! c) < item_id_sl (h ! y)"
      by (simp add: keys_sorted_append keys_sorted_Cons)
    with c Cons show ?thesis by auto
  qed
qed

lemma contents_below:
  "\<forall>n\<in>set P. item_id_sl (h ! n) \<noteq> k \<Longrightarrow> contents h (P @ R) k = contents h R k"
  by (induction P) (auto simp: contents_def)

lemma contents_lookup:
  assumes "keys_sorted h L"
  shows "contents h L k = map_option (\<lambda>c. purchase_data_sl (h ! c)) (lookup_node h k L)"
proof (cases "lookup_node h k L")
  case None
  from lookup_node_None [OF None assms] below_from_key [of h k L]
  have "\<forall>n\<in>set L. item_id_sl (h ! n) \<noteq> k"
    by (metis Un_iff less_irrefl set_append)
  then have "contents h L k = None"
    by (auto simp: contents_def map_of_eq_None_iff image_iff)
  with None show ?thesis by simp
next
  case (Some c)
  from lookup_node_Some [OF Some] obtain R where c: "item_id_sl (h ! c) = k" "L = below h k L @ c # R"
    by auto
  have "\<forall>n\<in>set (below h k L). item_id_sl (h ! n) \<noteq> k"
    by (auto simp: below_def dest: set_takeWhileD)
  from contents_below [OF this, of "c # R"] c
  have "contents h L k = Some (purchase_data_sl (h ! c))" by (simp add: contents_def)
  with Some show ?thesis by simp
qed

lemma dom_contents: "dom (contents h L) = (\<lambda>n. item_id_sl (h ! n)) ` set L"
  by (auto simp: contents_def dom_map_of_conv_image_fst image_iff)

subsection \<open>search\_purchase and to\_list on a well-formed list\<close>

lemma sl_inv_length:
  assumes "sl_inv s L"
  shows "length L < length (heap s)"
proof -
  from assms have d: "distinct L" and b: "set L \<subseteq> {1..<length (heap s)}"
    by (auto simp: sl_inv_def dest: keys_sorted_distinct)
  from d have "length L = card (set L)" by (simp add: distinct_card)
  also from b have "\<dots> \<le> card {1..<length (heap s)}" by (intro card_mono) auto
  also from assms have "\<dots> < length (heap s)" by (simp add: sl_inv_def)
  finally show ?thesis .
qed

lemma sl_inv_chain0: "sl_inv s L \<Longrightarrow> chain (heap s) 0 L = L"
  by (intro chain_0) (simp add: sl_inv_def)

lemma sl_inv_path0: "sl_inv s L \<Longrightarrow> path (fa (heap s) 0) (Some 0) (0 # L) None"
  using sl_inv_chain0 [of s L] by (auto simp: sl_inv_def)

lemma search_purchase_ok:
  assumes "sl_inv s L"
  shows "search_purchase s k = Some (Inr (contents (heap s) L k))"
proof -
  from assms have S: "keys_sorted (heap s) L" and
    P: "\<forall>i\<le>level_sl s. path (fa (heap s) i) (Some 0) (0 # chain (heap s) i L) None"
    by (auto simp: sl_inv_def)
  from descend_search_ok [OF S sl_inv_length [OF assms] P, of 0 k]
  have d: "descend_search (heap s) k (rev [0..<Suc (level_sl s)]) 0 = Some (Inr (pred_at (heap s) k 0 L))"
    by simp
  from assms have "\<forall>n\<in>set L. 0 < ht (heap s) n" by (simp add: sl_inv_def)
  from found_at_ok [OF sl_inv_path0 [OF assms] S this]
  have f: "found_at (heap s) (pred_at (heap s) k 0 L) k = Inr (lookup_node (heap s) k L)" .
  have "search_purchase s k =
      (case lookup_node (heap s) k L of None \<Rightarrow> Some (Inr None)
       | Some c \<Rightarrow> Some (Inr (Some (purchase_data_sl (heap s ! c)))))"
    unfolding search_purchase_def d by (simp add: f)
  then show ?thesis
    by (cases "lookup_node (heap s) k L") (simp_all add: contents_lookup [OF S])
qed

lemma follow_ok:
  "path (fa h 0) r ns None \<Longrightarrow> length ns < fuel \<Longrightarrow>
   follow fuel h r = Some (Inr (map (\<lambda>n. item_id_sl (h ! n)) ns))"
proof (induction ns arbitrary: r fuel)
  case Nil
  then obtain f where "fuel = Suc f" by (cases fuel) auto
  with Nil show ?case by simp
next
  case (Cons n ns)
  then obtain f where f: "fuel = Suc f" by (cases fuel) auto
  from Cons.prems obtain x where x: "r = Some n" "forward_at h n 0 = Inr x" "path (fa h 0) x ns None"
    by auto
  from x(2) have "n < length h" by (auto dest: forward_at_Inr)
  moreover from Cons.IH [OF x(3), of f] Cons.prems f
  have "follow f h x = Some (Inr (map (\<lambda>n. item_id_sl (h ! n)) ns))" by simp
  ultimately show ?case using x f by simp
qed

lemma to_list_ok:
  assumes "sl_inv s L"
  shows "to_list s = Some (Inr (map (\<lambda>n. item_id_sl (heap s ! n)) L))"
proof -
  from sl_inv_path0 [OF assms] obtain x where
    x: "forward_at (heap s) 0 0 = Inr x" "path (fa (heap s) 0) x L None" by auto
  from follow_ok [OF x(2) sl_inv_length [OF assms]] x(1) show ?thesis
    by (simp add: to_list_def)
qed

subsection \<open>Splicing a new node into every level it occupies\<close>

lemma raise_header_ok:
  "m \<le> length update \<Longrightarrow>
   \<exists>u'. raise_header update [j..<m] = Inr u' \<and> length u' = length update \<and>
     (\<forall>i. u' ! i = (if j \<le> i \<and> i < m then Some 0 else update ! i))"
proof (induction "m - j" arbitrary: j update)
  case 0
  then show ?case by auto
next
  case (Suc d)
  then have jm: "j < m" and up: "[j..<m] = j # [Suc j..<m]" by (auto simp: upt_conv_Cons)
  from Suc(2) have dm: "d = m - Suc j" by simp
  from Suc(1) [OF dm, of "update[j := Some 0]"] Suc(3)
  obtain u' where u: "raise_header (update[j := Some 0]) [Suc j..<m] = Inr u'"
      "length u' = length update"
      "\<forall>i. u' ! i = (if Suc j \<le> i \<and> i < m then Some 0 else update[j := Some 0] ! i)"
    by auto
  have "\<forall>i. u' ! i = (if j \<le> i \<and> i < m then Some 0 else update ! i)"
  proof
    fix i
    show "u' ! i = (if j \<le> i \<and> i < m then Some 0 else update ! i)"
      using u(3) [rule_format, of i] jm Suc(3) by (cases "i = j") auto
  qed
  with u(1,2) jm Suc(3) show ?case unfolding up by (simp del: upt_Suc)
qed

lemma chain_cong: "(\<And>n. n \<in> set L \<Longrightarrow> ht h' n = ht h n) \<Longrightarrow> chain h' i L = chain h i L"
  unfolding chain_def by (rule filter_cong) auto

lemma keys_sorted_cong:
  "(\<And>n. n \<in> set L \<Longrightarrow> item_id_sl (h' ! n) = item_id_sl (h ! n)) \<Longrightarrow>
   keys_sorted h' L = keys_sorted h L"
proof -
  assume "\<And>n. n \<in> set L \<Longrightarrow> item_id_sl (h' ! n) = item_id_sl (h ! n)"
  then have eq: "map (\<lambda>n. item_id_sl (h' ! n)) L = map (\<lambda>n. item_id_sl (h ! n)) L" by simp
  show ?thesis unfolding keys_sorted_def eq ..
qed

lemma splice_step:
  assumes sn: "same_nodes hj h1" and a: "a < length h1" "j < ht h1 a"
    and p: "path (fa hj j) (Some 0) (0 # X @ Y) None"
    and d: "distinct (0 # X @ Y)" "a \<notin> set (0 # X @ Y)"
  defines "q \<equiv> last (0 # X)"
  defines "h' \<equiv> set_forward (set_forward hj a j (head_ref Y)) q j (Some a)"
  shows "forward_at hj q j = Inr (head_ref Y)"
    and "\<exists>x. forward_at hj a j = Inr x"
    and "same_nodes h' h1"
    and "path (fa h' j) (Some 0) (0 # X @ a # Y) None"
    and "\<forall>i. i \<noteq> j \<longrightarrow> fa h' i = fa hj i"
proof -
  from p have "path (fa hj j) (Some 0) ((0 # X) @ Y) None" by simp
  from path_next [OF this] show q: "forward_at hj q j = Inr (head_ref Y)" by (simp add: q_def)
  from sn a have aj: "a < length hj" "j < ht hj a" by (auto simp: same_nodes_def)
  then show "\<exists>x. forward_at hj a j = Inr x" by (simp add: forward_at_def ht_def)
  show "same_nodes h' h1"
    unfolding h'_def
    by (intro same_nodes_trans [OF same_nodes_set_forward] same_nodes_trans [OF same_nodes_set_forward sn])
  from q have qj: "q < length hj" "j < ht hj q" by (auto dest: forward_at_Inr)
  have g: "fa h' j = (fa hj j)(a := Inr (head_ref Y), last (0 # X) := Inr (Some a))"
    using aj qj by (auto simp: h'_def forward_at_set_forward fun_eq_iff q_def)
  have "path (fa h' j) (Some 0) ((0 # X) @ a # Y) None"
  proof (rule path_insert [OF _ _ _ _ g])
    show "path (fa hj j) (Some 0) ((0 # X) @ Y) None" using p by simp
    show "0 # X \<noteq> []" by simp
    show "distinct ((0 # X) @ Y)" using d by simp
    show "a \<notin> set ((0 # X) @ Y)" using d by simp
  qed
  then show "path (fa h' j) (Some 0) (0 # X @ a # Y) None" by simp
  show "\<forall>i. i \<noteq> j \<longrightarrow> fa h' i = fa hj i"
    by (auto simp: h'_def forward_at_set_forward fun_eq_iff)
qed

lemma splice_loop:
  assumes a: "a < length h1" "ht h1 a = Suc nl" "a \<notin> set (0 # A @ B)"
    and d: "distinct (0 # A @ B)"
    and u: "\<forall>i\<le>nl. update ! i = Some (last (0 # chain h1 i A))" "nl < length update"
    and p: "\<forall>i\<le>nl. path (fa h1 i) (Some 0) (0 # chain h1 i A @ chain h1 i B) None"
  shows "j \<le> Suc nl \<Longrightarrow> same_nodes hj h1 \<Longrightarrow>
    (\<forall>i<j. path (fa hj i) (Some 0) (0 # chain h1 i A @ a # chain h1 i B) None) \<Longrightarrow>
    (\<forall>i\<ge>j. fa hj i = fa h1 i) \<Longrightarrow>
    \<exists>h'. splice hj a update [j..<Suc nl] = Inr h' \<and> same_nodes h' h1 \<and>
      (\<forall>i\<le>nl. path (fa h' i) (Some 0) (0 # chain h1 i A @ a # chain h1 i B) None) \<and>
      (\<forall>i>nl. fa h' i = fa h1 i)"
proof (induction "Suc nl - j" arbitrary: j hj)
  case 0
  then have "j = Suc nl" by simp
  with 0 show ?case by auto
next
  case (Suc dd)
  then have jn: "j \<le> nl" and up: "[j..<Suc nl] = j # [Suc j..<Suc nl]"
    by (auto simp: upt_conv_Cons)
  let ?X = "chain h1 j A" and ?Y = "chain h1 j B"
  let ?q = "last (0 # ?X)"
  let ?h = "set_forward (set_forward hj a j (head_ref ?Y)) ?q j (Some a)"
  have pj: "path (fa hj j) (Some 0) (0 # ?X @ ?Y) None"
    using p jn Suc.prems(4) by simp
  have dj: "distinct (0 # ?X @ ?Y)" "a \<notin> set (0 # ?X @ ?Y)"
    using d a(3) by (auto simp: set_chain chain_def)
  have aj: "j < ht h1 a" using a(2) jn by simp
  note st = splice_step [OF Suc.prems(2) a(1) aj pj dj]
  have "\<exists>h'. splice ?h a update [Suc j..<Suc nl] = Inr h' \<and> same_nodes h' h1 \<and>
      (\<forall>i\<le>nl. path (fa h' i) (Some 0) (0 # chain h1 i A @ a # chain h1 i B) None) \<and>
      (\<forall>i>nl. fa h' i = fa h1 i)"
  proof (rule Suc(1))
    show "dd = Suc nl - Suc j" using Suc(2) by simp
    show "Suc j \<le> Suc nl" using jn by simp
    show "same_nodes ?h h1" by (rule st(3))
    show "\<forall>i<Suc j. path (fa ?h i) (Some 0) (0 # chain h1 i A @ a # chain h1 i B) None"
    proof (intro allI impI)
      fix i assume "i < Suc j"
      then consider "i = j" | "i < j" by linarith
      then show "path (fa ?h i) (Some 0) (0 # chain h1 i A @ a # chain h1 i B) None"
      proof cases
        case 1
        with st(4) show ?thesis by simp
      next
        case 2
        with st(5) have "fa ?h i = fa hj i" by simp
        with Suc.prems(3) 2 show ?thesis by simp
      qed
    qed
    show "\<forall>i\<ge>Suc j. fa ?h i = fa h1 i"
    proof (intro allI impI)
      fix i assume "Suc j \<le> i"
      with st(5) have "fa ?h i = fa hj i" by simp
      with Suc.prems(4) \<open>Suc j \<le> i\<close> show "fa ?h i = fa h1 i" by simp
    qed
  qed
  moreover from st(2) obtain x where "forward_at hj a j = Inr x" by auto
  ultimately show ?case
    unfolding up using st(1) u jn by (simp del: upt_Suc)
qed

subsection \<open>add\_purchase preserves the structure\<close>

lemma contents_cong:
  "(\<And>n. n \<in> set L \<Longrightarrow> item_id_sl (h' ! n) = item_id_sl (h ! n) \<and>
       purchase_data_sl (h' ! n) = purchase_data_sl (h ! n)) \<Longrightarrow>
   contents h' L = contents h L"
proof -
  assume "\<And>n. n \<in> set L \<Longrightarrow> item_id_sl (h' ! n) = item_id_sl (h ! n) \<and>
       purchase_data_sl (h' ! n) = purchase_data_sl (h ! n)"
  then have eq: "map (\<lambda>n. (item_id_sl (h' ! n), purchase_data_sl (h' ! n))) L =
      map (\<lambda>n. (item_id_sl (h ! n), purchase_data_sl (h ! n))) L" by simp
  show ?thesis unfolding contents_def eq ..
qed

lemma map_of_insert:
  "k \<notin> fst ` set xs \<Longrightarrow> map_of (xs @ (k, v) # ys) = (map_of (xs @ ys))(k \<mapsto> v)"
  by (induction xs) (auto simp: fun_upd_twist)

lemma contents_insert:
  assumes "\<forall>n\<in>set A. item_id_sl (h ! n) \<noteq> item_id_sl (h ! a)"
  shows "contents h (A @ a # B) = (contents h (A @ B))(item_id_sl (h ! a) \<mapsto> purchase_data_sl (h ! a))"
proof -
  have "item_id_sl (h ! a) \<notin> fst ` set (map (\<lambda>n. (item_id_sl (h ! n), purchase_data_sl (h ! n))) A)"
    using assms by (auto simp: image_iff)
  from map_of_insert [OF this] show ?thesis by (simp add: contents_def)
qed

lemma contents_update:
  "distinct (map (\<lambda>n. item_id_sl (h ! n)) L) \<Longrightarrow> c \<in> set L \<Longrightarrow> c < length h \<Longrightarrow>
   contents (h[c := (h ! c)\<lparr>purchase_data_sl := pd\<rparr>]) L = (contents h L)(item_id_sl (h ! c) \<mapsto> pd)"
proof (induction L)
  case Nil
  then show ?case by simp
next
  case (Cons n ns)
  let ?h = "h[c := (h ! c)\<lparr>purchase_data_sl := pd\<rparr>]"
  have hd: "contents ?h (n # ns) = (contents ?h ns)(item_id_sl (?h ! n) \<mapsto> purchase_data_sl (?h ! n))"
    "contents h (n # ns) = (contents h ns)(item_id_sl (h ! n) \<mapsto> purchase_data_sl (h ! n))"
    by (simp_all add: contents_def)
  show ?case
  proof (cases "n = c")
    case True
    with Cons.prems have "\<forall>m\<in>set ns. c \<noteq> m" by auto
    then have "contents ?h ns = contents h ns"
      by (intro contents_cong) simp
    with True Cons.prems(3) show ?thesis unfolding hd by (auto simp: fun_eq_iff)
  next
    case False
    with Cons.prems have c: "c \<in> set ns" by auto
    with Cons.prems have ne: "item_id_sl (h ! n) \<noteq> item_id_sl (h ! c)" by (auto simp: image_iff)
    from Cons.prems have "distinct (map (\<lambda>n. item_id_sl (h ! n)) ns)" by simp
    from Cons.IH [OF this c Cons.prems(3)]
    have "contents ?h ns = (contents h ns)(item_id_sl (h ! c) \<mapsto> pd)" .
    with False ne show ?thesis unfolding hd by (auto simp: fun_eq_iff)
  qed
qed

lemma keys_sorted_distinct_keys:
  "keys_sorted h L \<Longrightarrow> distinct (map (\<lambda>n. item_id_sl (h ! n)) L)"
  unfolding keys_sorted_def using strict_sorted_iff by blast

lemma lookup_node_mem:
  "lookup_node h k L = Some c \<Longrightarrow> c \<in> set L \<and> item_id_sl (h ! c) = k"
  using lookup_node_Some [of h k L c] by (metis in_set_conv_decomp)

lemma add_existing:
  fixes pd :: purchase_data
  assumes inv: "sl_inv s L" and c: "lookup_node (heap s) k L = Some c"
  defines "h' \<equiv> (heap s)[c := (heap s ! c)\<lparr>purchase_data_sl := pd\<rparr>]"
  shows "sl_inv (s\<lparr>heap := h'\<rparr>) L" and "contents h' L = (contents (heap s) L)(k \<mapsto> pd)"
proof -
  from lookup_node_mem [OF c] have cL: "c \<in> set L" and ck: "item_id_sl (heap s ! c) = k" by auto
  from inv cL have cl: "c < length (heap s)" by (auto simp: sl_inv_def)
  have n: "\<And>n. item_id_sl (h' ! n) = item_id_sl (heap s ! n)" "\<And>n. ht h' n = ht (heap s) n"
    using cl by (auto simp: h'_def nth_list_update ht_def)
  have f: "\<And>i. fa h' i = fa (heap s) i"
    using cl by (auto simp: h'_def forward_at_def nth_list_update fun_eq_iff)
  have ch: "\<And>i. chain h' i L = chain (heap s) i L" by (rule chain_cong) (simp add: n)
  have ks: "keys_sorted h' L = keys_sorted (heap s) L" by (rule keys_sorted_cong) (simp add: n)
  have len: "length h' = length (heap s)" by (simp add: h'_def)
  from inv show "sl_inv (s\<lparr>heap := h'\<rparr>) L"
    by (simp add: sl_inv_def n f ch ks len)
  from inv have "keys_sorted (heap s) L" by (simp add: sl_inv_def)
  from contents_update [OF keys_sorted_distinct_keys [OF this] cL cl, of pd] ck
  show "contents h' L = (contents (heap s) L)(k \<mapsto> pd)" by (simp add: h'_def)
qed

lemma chain_empty_above:
  "\<forall>n\<in>set L. ht h n \<le> l + 1 \<Longrightarrow> l < i \<Longrightarrow> chain h i L = []"
  by (auto simp: chain_def filter_empty_conv)

lemma add_new:
  fixes pd :: purchase_data
  assumes inv: "sl_inv s L" and c: "lookup_node (heap s) k L = None" and nl: "nl \<le> max_level s"
    and u: "\<forall>i\<le>nl. update ! i = Some (pred_at (heap s) k i L)" "nl < length update"
  defines "a \<equiv> length (heap s)"
  defines "L' \<equiv> below (heap s) k L @ a # from_key (heap s) k L"
  shows "\<exists>h'. splice (heap s @ [create_node nl k pd]) a update [0..<Suc nl] = Inr h' \<and>
      sl_inv (s\<lparr>heap := h', level_sl := max (level_sl s) nl, size_sl := size_sl s + 1\<rparr>) L' \<and>
      contents h' L' = (contents (heap s) L)(k \<mapsto> pd)"
proof -
  define h where "h = heap s"
  define h1 where "h1 = h @ [create_node nl k pd]"
  define A where "A = below h k L"
  define B where "B = from_key h k L"
  have AB: "A @ B = L" by (simp add: A_def B_def below_from_key)
  from inv have S: "keys_sorted h L" and v: "\<forall>n\<in>set L. 0 < n \<and> n < length h \<and> 0 < ht h n \<and> ht h n \<le> level_sl s + 1"
    and P: "\<forall>i\<le>max_level s. path (fa h i) (Some 0) (0 # chain h i L) None"
    and h0: "ht h 0 = max_level s + 1" "0 < length h" and lv: "level_sl s \<le> max_level s"
    and sz: "size_sl s = int (length L)"
    by (simp_all add: sl_inv_def h_def)
  have old: "\<And>n. n < length h \<Longrightarrow> h1 ! n = h ! n" by (simp add: h1_def nth_append)
  have ht1: "\<And>n. n < length h \<Longrightarrow> ht h1 n = ht h n" by (simp add: ht_def old)
  have hta: "ht h1 a = Suc nl" "item_id_sl (h1 ! a) = k" "purchase_data_sl (h1 ! a) = pd"
    by (simp_all add: ht_def h1_def a_def h_def create_node_def)
  have al: "a < length h1" "a = length h" by (simp_all add: h1_def a_def h_def)
  have chL: "\<And>i M. set M \<subseteq> set L \<Longrightarrow> chain h1 i M = chain h i M"
    using v by (intro chain_cong ht1) auto
  have sub: "set A \<subseteq> set L" "set B \<subseteq> set L" using AB by auto
  have aL: "a \<notin> set (0 # A @ B)" using v h0 by (auto simp: AB al)
  have dL: "distinct (0 # A @ B)" using keys_sorted_distinct [OF S] v by (auto simp: AB)
  have p1: "\<forall>i\<le>max_level s. path (fa h1 i) (Some 0) (0 # chain h1 i A @ chain h1 i B) None"
  proof (intro allI impI)
    fix i assume "i \<le> max_level s"
    with P have "path (fa h i) (Some 0) (0 # chain h i L) None" by simp
    moreover have "chain h1 i A @ chain h1 i B = chain h i L"
      using chL [of L i] by (simp flip: chain_append add: AB)
    moreover have "path (fa h1 i) (Some 0) (0 # chain h i L) None = path (fa h i) (Some 0) (0 # chain h i L) None"
      using v h0 by (intro path_cong) (auto simp: set_chain h1_def forward_at_append)
    ultimately show "path (fa h1 i) (Some 0) (0 # chain h1 i A @ chain h1 i B) None" by simp
  qed
  have pr: "\<And>i. pred_at h k i L = last (0 # chain h1 i A)"
    unfolding pred_at_def below_chain [OF S] using chL [OF sub(1)] by (simp only: A_def)
  have u1: "\<forall>i\<le>nl. update ! i = Some (last (0 # chain h1 i A))"
    using u(1) unfolding h_def [symmetric] pr .
  from p1 nl have p1': "\<forall>i\<le>nl. path (fa h1 i) (Some 0) (0 # chain h1 i A @ chain h1 i B) None" by simp
  from splice_loop [OF al(1) hta(1) aL dL u1 u(2) p1', of 0 h1]
  obtain h' where h': "splice h1 a update [0..<Suc nl] = Inr h'" "same_nodes h' h1"
      "\<forall>i\<le>nl. path (fa h' i) (Some 0) (0 # chain h1 i A @ a # chain h1 i B) None"
      "\<forall>i>nl. fa h' i = fa h1 i"
    by auto
  from h'(2) have eq: "length h' = length h1"
      "\<And>n. n < length h1 \<Longrightarrow> item_id_sl (h' ! n) = item_id_sl (h1 ! n)"
      "\<And>n. n < length h1 \<Longrightarrow> purchase_data_sl (h' ! n) = purchase_data_sl (h1 ! n)"
      "\<And>n. n < length h1 \<Longrightarrow> ht h' n = ht h1 n"
    by (simp_all add: same_nodes_def)
  let ?L = "A @ a # B"
  have vL: "\<forall>n\<in>set ?L. n < length h1" using v sub by (auto simp: al h1_def less_Suc_eq)
  have ch': "\<And>i. chain h' i ?L = chain h1 i A @ (if i \<le> nl then [a] else []) @ chain h1 i B"
  proof -
    fix i
    have "chain h' i ?L = chain h1 i ?L" using vL by (intro chain_cong eq(4)) auto
    also have "\<dots> = chain h1 i A @ (if i \<le> nl then [a] else []) @ chain h1 i B"
      by (auto simp: chain_def hta)
    finally show "chain h' i ?L = chain h1 i A @ (if i \<le> nl then [a] else []) @ chain h1 i B" .
  qed
  have paths: "\<forall>i\<le>max_level s. path (fa h' i) (Some 0) (0 # chain h' i ?L) None"
  proof (intro allI impI)
    fix i assume i: "i \<le> max_level s"
    show "path (fa h' i) (Some 0) (0 # chain h' i ?L) None"
    proof (cases "i \<le> nl")
      case True
      with h'(3) show ?thesis unfolding ch' by simp
    next
      case False
      with h'(4) have "fa h' i = fa h1 i" by simp
      with p1 i False show ?thesis unfolding ch' by simp
    qed
  qed
  have kA: "\<forall>n\<in>set A. item_id_sl (h1 ! n) = item_id_sl (h ! n)"
    and kB: "\<forall>n\<in>set B. item_id_sl (h1 ! n) = item_id_sl (h ! n)"
    using v sub by (auto simp: old)
  have lt: "\<forall>n\<in>set A. item_id_sl (h1 ! n) < k" "\<forall>n\<in>set B. k < item_id_sl (h1 ! n)"
    using lookup_node_None [OF c [folded h_def] S] kA kB by (simp_all add: A_def B_def)
  have keys: "keys_sorted h' ?L"
  proof -
    have e: "keys_sorted h' ?L = keys_sorted h1 ?L" using vL by (intro keys_sorted_cong eq(2)) auto
    from S have SA: "keys_sorted h A" "keys_sorted h B" by (simp_all flip: AB add: keys_sorted_append)
    have "keys_sorted h1 A = keys_sorted h A" "keys_sorted h1 B = keys_sorted h B"
      using kA kB by (auto intro!: keys_sorted_cong)
    with SA have "keys_sorted h1 A" "keys_sorted h1 B" by simp_all
    with lt have "keys_sorted h1 ?L"
      by (auto simp: keys_sorted_append keys_sorted_Cons hta intro: less_trans)
    with e show ?thesis by simp
  qed
  have nodes: "\<forall>n\<in>set ?L. 0 < n \<and> n < length h' \<and> 0 < ht h' n \<and> ht h' n \<le> max (level_sl s) nl + 1"
  proof
    fix n assume n: "n \<in> set ?L"
    show "0 < n \<and> n < length h' \<and> 0 < ht h' n \<and> ht h' n \<le> max (level_sl s) nl + 1"
    proof (cases "n = a")
      case True
      have "0 < a" using h0 al(2) by simp
      moreover have "a < length h'" using eq(1) al(1) by simp
      moreover have "ht h' a = Suc nl" using eq(4) [OF al(1)] hta(1) by simp
      ultimately show ?thesis unfolding True by simp
    next
      case False
      with n have nL: "n \<in> set L" using AB by auto
      with v have "0 < n \<and> n < length h \<and> 0 < ht h n \<and> ht h n \<le> level_sl s + 1" by simp
      then show ?thesis by (auto simp: eq h1_def ht1 [unfolded h1_def])
    qed
  qed
  have "sl_inv (s\<lparr>heap := h', level_sl := max (level_sl s) nl, size_sl := size_sl s + 1\<rparr>) ?L"
  proof -
    have "0 < length h1" using al(1) by (cases h1) auto
    from eq(4) [OF this] ht1 [OF h0(2)] h0(1) have i1: "ht h' 0 = max_level s + 1" by simp
    have i2: "0 < length h'" using eq(1) \<open>0 < length h1\<close> by simp
    have i3: "max (level_sl s) nl \<le> max_level s" using lv nl by simp
    have i4: "size_sl s + 1 = int (length ?L)" using sz by (simp flip: AB)
    show ?thesis
      unfolding sl_inv_def using i1 i2 i3 i4 nodes keys paths by simp
  qed
  moreover have "contents h' ?L = (contents h L)(k \<mapsto> pd)"
  proof -
    have "contents h' ?L = contents h1 ?L" using vL by (intro contents_cong) (auto simp: eq)
    also have "\<dots> = (contents h1 (A @ B))(k \<mapsto> pd)"
    proof -
      from lt(1) have "\<forall>n\<in>set A. item_id_sl (h1 ! n) \<noteq> item_id_sl (h1 ! a)"
        unfolding hta(2) by auto
      from contents_insert [OF this, of B] show ?thesis by (simp add: hta)
    qed
    also have "contents h1 (A @ B) = contents h L"
      unfolding AB using v by (intro contents_cong) (simp add: old)
    finally show ?thesis .
  qed
  ultimately show ?thesis
    using h'(1) unfolding L'_def A_def B_def h1_def h_def by blast
qed

lemma pred_at_above:
  "\<forall>n\<in>set L. ht h n \<le> l + 1 \<Longrightarrow> l < i \<Longrightarrow> pred_at h k i L = 0"
  by (simp add: pred_at_def chain_empty_above below_def)

lemma descend_inv:
  assumes inv: "sl_inv s L"
  shows "\<exists>update. descend (heap s) k (rev [0..<Suc (level_sl s)]) 0 (replicate (max_level s + 1) None)
        = Some (Inr (pred_at (heap s) k 0 L, update)) \<and>
      length update = max_level s + 1 \<and> (\<forall>i\<le>level_sl s. update ! i = Some (pred_at (heap s) k i L))"
proof -
  from inv have S: "keys_sorted (heap s) L" and
    P: "\<forall>i\<le>level_sl s. path (fa (heap s) i) (Some 0) (0 # chain (heap s) i L) None" and
    l: "level_sl s < length (replicate (max_level s + 1) (None :: nat option))"
    by (auto simp: sl_inv_def)
  from descend_ok [OF S sl_inv_length [OF inv] P l, of 0 k] show ?thesis by auto
qed

lemma found_at_inv:
  assumes inv: "sl_inv s L"
  shows "found_at (heap s) (pred_at (heap s) k 0 L) k = Inr (lookup_node (heap s) k L)"
proof -
  from inv have "keys_sorted (heap s) L" "\<forall>n\<in>set L. 0 < ht (heap s) n" by (simp_all add: sl_inv_def)
  from found_at_ok [OF sl_inv_path0 [OF inv] this] show ?thesis .
qed

lemma random_level_loop_le: "level \<le> ml \<Longrightarrow> random_level_loop draws p ml fuel level \<le> ml"
  by (induction fuel arbitrary: level) auto

lemma random_level_le: "random_level s draws \<le> max_level s"
  by (simp add: random_level_def random_level_loop_le)

lemma add_purchase_ok:
  assumes inv: "sl_inv s L"
  shows "\<exists>s' L'. add_purchase_sl s k d draws = Some (Inr s') \<and> sl_inv s' L' \<and>
      max_level s' = max_level s \<and>
      contents (heap s') L' = (contents (heap s) L)(k \<mapsto> (case d of None \<Rightarrow> [] | Some x \<Rightarrow> x))"
proof -
  define pd where "pd = (case d of None \<Rightarrow> [] | Some x \<Rightarrow> x)"
  define nl where "nl = random_level s draws"
  have nl: "nl \<le> max_level s" unfolding nl_def by (rule random_level_le)
  from descend_inv [OF inv, of k] obtain update where
    d: "descend (heap s) k (rev [0..<Suc (level_sl s)]) 0 (replicate (max_level s + 1) None)
        = Some (Inr (pred_at (heap s) k 0 L, update))"
    and u: "length update = max_level s + 1" "\<forall>i\<le>level_sl s. update ! i = Some (pred_at (heap s) k i L)"
    by auto
  note f = found_at_inv [OF inv, of k]
  show ?thesis
  proof (cases "lookup_node (heap s) k L")
    case (Some c)
    let ?h = "(heap s)[c := (heap s ! c)\<lparr>purchase_data_sl := pd\<rparr>]"
    have "add_purchase_sl s k d draws = Some (Inr (s\<lparr>heap := ?h\<rparr>))"
      unfolding add_purchase_sl_def Let_def d by (simp add: f Some pd_def)
    moreover note add_existing [OF inv Some, of pd]
    ultimately show ?thesis unfolding pd_def [symmetric]
      by (intro exI [of _ "s\<lparr>heap := ?h\<rparr>"] exI [of _ L]) simp
  next
    case None
    define update' where "update' =
      (if level_sl s < nl then raise_header update [Suc (level_sl s)..<Suc nl] else Inr update)"
    from inv have hb: "\<forall>n\<in>set L. ht (heap s) n \<le> level_sl s + 1" by (simp add: sl_inv_def)
    have "\<exists>u'. update' = Inr u' \<and> length u' = length update \<and>
        (\<forall>i\<le>nl. u' ! i = Some (pred_at (heap s) k i L))"
    proof (cases "level_sl s < nl")
      case True
      from nl u(1) have "Suc nl \<le> length update" by simp
      from raise_header_ok [OF this, of "Suc (level_sl s)"] obtain u' where
        u': "raise_header update [Suc (level_sl s)..<Suc nl] = Inr u'" "length u' = length update"
          "\<forall>i. u' ! i = (if Suc (level_sl s) \<le> i \<and> i < Suc nl then Some 0 else update ! i)"
        by auto
      have "\<forall>i\<le>nl. u' ! i = Some (pred_at (heap s) k i L)"
      proof (intro allI impI)
        fix i assume i: "i \<le> nl"
        show "u' ! i = Some (pred_at (heap s) k i L)"
        proof (cases "i \<le> level_sl s")
          case True
          with u'(3) u(2) show ?thesis by simp
        next
          case False
          then have "level_sl s < i" by simp
          from pred_at_above [OF hb this] u'(3) False i show ?thesis by simp
        qed
      qed
      with u'(1,2) True show ?thesis by (simp add: update'_def)
    next
      case False
      with u(2) show ?thesis by (simp add: update'_def)
    qed
    then obtain u' where u': "update' = Inr u'" "length u' = length update"
      "\<forall>i\<le>nl. u' ! i = Some (pred_at (heap s) k i L)" by auto
    from nl u(1) u'(2) have "nl < length u'" by simp
    from add_new [OF inv None nl u'(3) this, of pd]
    obtain h' where h': "splice (heap s @ [create_node nl k pd]) (length (heap s)) u' [0..<Suc nl] = Inr h'"
      "sl_inv (s\<lparr>heap := h', level_sl := max (level_sl s) nl, size_sl := size_sl s + 1\<rparr>)
         (below (heap s) k L @ length (heap s) # from_key (heap s) k L)"
      "contents h' (below (heap s) k L @ length (heap s) # from_key (heap s) k L) =
         (contents (heap s) L)(k \<mapsto> pd)"
      by auto
    let ?s = "s\<lparr>heap := h', level_sl := max (level_sl s) nl, size_sl := size_sl s + 1\<rparr>"
    have "add_purchase_sl s k d draws = Some (Inr ?s)"
      unfolding add_purchase_sl_def Let_def d nl_def [symmetric]
      using u'(1) h'(1) by (simp add: f None pd_def update'_def del: upt_Suc)
    with h'(2,3) show ?thesis unfolding pd_def [symmetric]
      by (intro exI [of _ ?s] exI [of _ "below (heap s) k L @ length (heap s) # from_key (heap s) k L"]) simp
  qed
qed

subsection \<open>delete\_purchase: unlinking a node and shrinking the level\<close>

lemma unlink_loop:
  assumes d: "distinct (0 # A @ c # R)"
    and hc: "ht h c \<le> Suc l"
    and u: "\<forall>i\<le>l. update ! i = Some (last (0 # chain h i A))" "l < length update"
    and p: "\<forall>i\<le>l. path (fa h i) (Some 0) (0 # chain h i A @ chain h i (c # R)) None"
  shows "j \<le> ht h c \<Longrightarrow> same_nodes hj h \<Longrightarrow>
    (\<forall>i<j. path (fa hj i) (Some 0) (0 # chain h i A @ chain h i R) None) \<Longrightarrow>
    (\<forall>i\<ge>j. fa hj i = fa h i) \<Longrightarrow>
    \<exists>h'. unlink hj c update [j..<Suc l] = Inr h' \<and> same_nodes h' h \<and>
      (\<forall>i<ht h c. path (fa h' i) (Some 0) (0 # chain h i A @ chain h i R) None) \<and>
      (\<forall>i\<ge>ht h c. fa h' i = fa h i)"
proof (induction "ht h c - j" arbitrary: j hj)
  case 0
  then have j: "j = ht h c" by simp
  show ?case
  proof (cases "j = Suc l")
    case True
    with 0 j show ?thesis by auto
  next
    case False
    with j hc have jl: "j \<le> l" and up: "[j..<Suc l] = j # [Suc j..<Suc l]"
      by (auto simp: upt_conv_Cons)
    let ?q = "last (0 # chain h j A)"
    from j have cj: "chain h j (c # R) = chain h j R" by (simp add: chain_def)
    from p [rule_format, OF jl] have "path (fa h j) (Some 0) ((0 # chain h j A) @ chain h j R) None"
      unfolding cj by simp
    from path_next [OF this] have "forward_at h ?q j = Inr (head_ref (chain h j R))" by simp
    with 0(5) have q: "forward_at hj ?q j = Inr (head_ref (chain h j R))" by (simp add: fun_eq_iff)
    from d have "c \<notin> set (chain h j R)" by (simp add: set_chain)
    then have "head_ref (chain h j R) \<noteq> Some c" by (cases "chain h j R") auto
    with q u jl have "unlink hj c update [j..<Suc l] = Inr hj"
      unfolding up by (simp del: upt_Suc)
    with 0 j show ?thesis by auto
  qed
next
  case (Suc dd)
  then have jc: "j < ht h c" by simp
  with hc have jl: "j \<le> l" and up: "[j..<Suc l] = j # [Suc j..<Suc l]"
    by (auto simp: upt_conv_Cons)
  let ?X = "chain h j A" and ?Y = "chain h j R"
  let ?q = "last (0 # ?X)"
  from jc have cj: "chain h j (c # R) = c # ?Y" by (simp add: chain_def)
  from Suc.prems(4) have "fa hj j = fa h j" by simp
  with p [rule_format, OF jl] have pj: "path (fa hj j) (Some 0) ((0 # ?X) @ c # ?Y) None"
    unfolding cj by simp
  have dj: "distinct ((0 # ?X) @ c # ?Y)" using d by (auto simp: set_chain chain_def)
  obtain after where af: "forward_at hj c j = Inr after"
    using pj unfolding path_append by auto
  let ?h = "set_forward hj ?q j after"
  from path_delete [OF pj _ dj refl]
  have pd: "path ((fa hj j)(?q := fa hj j c)) (Some 0) ((0 # ?X) @ ?Y) None"
    and q: "forward_at hj ?q j = Inr (Some c)" by simp_all
  from q have qj: "?q < length hj" "j < ht hj ?q" by (auto dest: forward_at_Inr)
  have g: "fa ?h j = (fa hj j)(?q := fa hj j c)"
    using qj af by (auto simp: forward_at_set_forward fun_eq_iff)
  have oth: "\<forall>i. i \<noteq> j \<longrightarrow> fa ?h i = fa hj i"
    by (auto simp: forward_at_set_forward fun_eq_iff)
  have "\<exists>h'. unlink ?h c update [Suc j..<Suc l] = Inr h' \<and> same_nodes h' h \<and>
      (\<forall>i<ht h c. path (fa h' i) (Some 0) (0 # chain h i A @ chain h i R) None) \<and>
      (\<forall>i\<ge>ht h c. fa h' i = fa h i)"
  proof (rule Suc(1))
    show "dd = ht h c - Suc j" using Suc(2) by simp
    show "Suc j \<le> ht h c" using jc by simp
    show "same_nodes ?h h" by (rule same_nodes_trans [OF same_nodes_set_forward Suc.prems(2)])
    show "\<forall>i<Suc j. path (fa ?h i) (Some 0) (0 # chain h i A @ chain h i R) None"
    proof (intro allI impI)
      fix i assume "i < Suc j"
      then consider "i = j" | "i < j" by linarith
      then show "path (fa ?h i) (Some 0) (0 # chain h i A @ chain h i R) None"
      proof cases
        case 1
        with pd show ?thesis unfolding g [symmetric] by simp
      next
        case 2
        with oth have "fa ?h i = fa hj i" by simp
        with Suc.prems(3) 2 show ?thesis by simp
      qed
    qed
    show "\<forall>i\<ge>Suc j. fa ?h i = fa h i"
    proof (intro allI impI)
      fix i assume "Suc j \<le> i"
      with oth have "fa ?h i = fa hj i" by simp
      with Suc.prems(4) \<open>Suc j \<le> i\<close> show "fa ?h i = fa h i" by simp
    qed
  qed
  then show ?case
    unfolding up using q af u jl by (simp del: upt_Suc)
qed

lemma path_first: "path f (Some 0) (0 # C) None \<Longrightarrow> f 0 = Inr (head_ref C)"
  using path_next [of f "Some 0" "[0]" C] by simp

lemma shrink_level_ok:
  assumes p: "\<forall>i\<le>m. path (fa h i) (Some 0) (0 # chain h i L) None"
  shows "l \<le> m \<Longrightarrow> \<forall>n\<in>set L. ht h n \<le> l + 1 \<Longrightarrow>
    \<exists>l'. shrink_level h l = Inr l' \<and> l' \<le> l \<and> (\<forall>n\<in>set L. ht h n \<le> l' + 1)"
proof (induction l)
  case 0
  then show ?case by simp
next
  case (Suc l)
  from p Suc.prems(1) have f: "forward_at h 0 (Suc l) = Inr (head_ref (chain h (Suc l) L))"
    by (intro path_first) simp
  show ?case
  proof (cases "chain h (Suc l) L")
    case Nil
    then have "\<forall>n\<in>set L. \<not> Suc l < ht h n" by (auto simp: chain_def filter_empty_conv)
    then have "\<forall>n\<in>set L. ht h n \<le> l + 1" by (auto simp: not_less)
    from Suc.IH [OF _ this] Suc.prems(1) obtain l' where
      "shrink_level h l = Inr l'" "l' \<le> l" "\<forall>n\<in>set L. ht h n \<le> l' + 1" by auto
    with f Nil show ?thesis by auto
  next
    case (Cons n ns)
    with f Suc.prems(2) show ?thesis by auto
  qed
qed

lemma delete_found:
  assumes inv: "sl_inv s L" and c: "lookup_node (heap s) k L = Some c"
    and u: "\<forall>i\<le>level_sl s. update ! i = Some (pred_at (heap s) k i L)" "level_sl s < length update"
  shows "\<exists>h' l' L'. unlink (heap s) c update [0..<Suc (level_sl s)] = Inr h' \<and>
      shrink_level h' (level_sl s) = Inr l' \<and>
      sl_inv (s\<lparr>heap := h', level_sl := l', size_sl := size_sl s - 1\<rparr>) L' \<and>
      contents h' L' = (contents (heap s) L)(k := None)"
proof -
  define h where "h = heap s"
  define A where "A = below h k L"
  from lookup_node_Some [OF c] obtain R where ck: "item_id_sl (h ! c) = k" and L: "L = A @ c # R"
    by (auto simp: h_def A_def)
  from inv have S: "keys_sorted h L" and v: "\<forall>n\<in>set L. 0 < n \<and> n < length h \<and> 0 < ht h n \<and> ht h n \<le> level_sl s + 1"
    and P: "\<forall>i\<le>max_level s. path (fa h i) (Some 0) (0 # chain h i L) None"
    and h0: "ht h 0 = max_level s + 1" "0 < length h" and lv: "level_sl s \<le> max_level s"
    and sz: "size_sl s = int (length L)"
    by (simp_all add: sl_inv_def h_def)
  have d: "distinct (0 # A @ c # R)" using keys_sorted_distinct [OF S] v unfolding L by auto
  have hc: "ht h c \<le> Suc (level_sl s)" using v by (simp add: L)
  have pr: "\<And>i. pred_at h k i L = last (0 # chain h i A)"
    unfolding pred_at_def below_chain [OF S] A_def ..
  have u1: "\<forall>i\<le>level_sl s. update ! i = Some (last (0 # chain h i A))"
    using u(1) unfolding h_def [symmetric] pr .
  have p1: "\<forall>i\<le>level_sl s. path (fa h i) (Some 0) (0 # chain h i A @ chain h i (c # R)) None"
    using P lv by (simp add: L)
  from unlink_loop [OF d hc u1 u(2) p1, of 0 h]
  obtain h' where h': "unlink h c update [0..<Suc (level_sl s)] = Inr h'" "same_nodes h' h"
      "\<forall>i<ht h c. path (fa h' i) (Some 0) (0 # chain h i A @ chain h i R) None"
      "\<forall>i\<ge>ht h c. fa h' i = fa h i"
    by auto
  from h'(2) have eq: "length h' = length h"
      "\<And>n. n < length h \<Longrightarrow> item_id_sl (h' ! n) = item_id_sl (h ! n)"
      "\<And>n. n < length h \<Longrightarrow> purchase_data_sl (h' ! n) = purchase_data_sl (h ! n)"
      "\<And>n. n < length h \<Longrightarrow> ht h' n = ht h n"
    by (simp_all add: same_nodes_def)
  let ?L = "A @ R"
  have vL: "\<forall>n\<in>set ?L. 0 < n \<and> n < length h \<and> 0 < ht h n \<and> ht h n \<le> level_sl s + 1"
    using v by (auto simp: L)
  have ch': "\<And>i. chain h' i ?L = chain h i A @ chain h i R"
  proof -
    fix i
    have "chain h' i ?L = chain h i ?L" using vL by (intro chain_cong eq(4)) auto
    then show "chain h' i ?L = chain h i A @ chain h i R" by simp
  qed
  have paths: "\<forall>i\<le>max_level s. path (fa h' i) (Some 0) (0 # chain h' i ?L) None"
  proof (intro allI impI)
    fix i assume i: "i \<le> max_level s"
    show "path (fa h' i) (Some 0) (0 # chain h' i ?L) None"
    proof (cases "i < ht h c")
      case True
      with h'(3) show ?thesis unfolding ch' by simp
    next
      case False
      with h'(4) have "fa h' i = fa h i" by simp
      moreover from False have "chain h i L = chain h i A @ chain h i R" by (simp add: L chain_def)
      ultimately show ?thesis using P [rule_format, OF i] unfolding ch' by simp
    qed
  qed
  have nodes: "\<forall>n\<in>set ?L. 0 < n \<and> n < length h' \<and> 0 < ht h' n \<and> ht h' n \<le> level_sl s + 1"
    using vL by (auto simp: eq)
  then have "\<forall>n\<in>set ?L. ht h' n \<le> level_sl s + 1" by simp
  from shrink_level_ok [OF paths lv this] obtain l' where
    l': "shrink_level h' (level_sl s) = Inr l'" "l' \<le> level_sl s" "\<forall>n\<in>set ?L. ht h' n \<le> l' + 1"
    by auto
  have keys: "keys_sorted h' ?L"
  proof -
    have "keys_sorted h' ?L = keys_sorted h ?L" using vL by (intro keys_sorted_cong eq(2)) auto
    moreover from S have "keys_sorted h ?L"
      unfolding L by (auto simp: keys_sorted_append keys_sorted_Cons)
    ultimately show ?thesis by simp
  qed
  have inv': "sl_inv (s\<lparr>heap := h', level_sl := l', size_sl := size_sl s - 1\<rparr>) ?L"
  proof -
    from eq(4) [OF h0(2)] h0(1) have i1: "ht h' 0 = max_level s + 1" by simp
    have i2: "0 < length h'" using eq(1) h0(2) by simp
    have i3: "l' \<le> max_level s" using lv l'(2) by simp
    have i4: "size_sl s - 1 = int (length ?L)" using sz by (simp add: L)
    have i5: "\<forall>n\<in>set ?L. 0 < n \<and> n < length h' \<and> 0 < ht h' n \<and> ht h' n \<le> l' + 1"
      using nodes l'(3) by auto
    show ?thesis
      unfolding sl_inv_def using i1 i2 i3 i4 i5 keys paths by simp
  qed
  have "contents h' ?L = (contents h L)(k := None)"
  proof -
    have "contents h' ?L = contents h ?L" using vL by (intro contents_cong) (auto simp: eq)
    moreover have "contents h L = (contents h ?L)(k \<mapsto> purchase_data_sl (h ! c))"
    proof -
      from S have "\<forall>n\<in>set A. item_id_sl (h ! n) \<noteq> item_id_sl (h ! c)"
        unfolding L by (auto simp: keys_sorted_append keys_sorted_Cons)
      from contents_insert [OF this, of R] show ?thesis by (simp add: L ck)
    qed
    moreover have "contents h ?L k = None"
    proof -
      from S have "\<forall>n\<in>set ?L. item_id_sl (h ! n) \<noteq> k"
        unfolding L ck [symmetric] by (auto simp: keys_sorted_append keys_sorted_Cons)
      then have "k \<notin> dom (contents h ?L)" unfolding dom_contents by auto
      then show ?thesis by auto
    qed
    ultimately show ?thesis by (auto simp: fun_eq_iff)
  qed
  with h'(1) l'(1) inv' show ?thesis unfolding h_def by blast
qed

lemma delete_purchase_ok:
  assumes inv: "sl_inv s L"
  shows "\<exists>s' L'. delete_purchase s k = Some (Inr (s', k \<in> dom (contents (heap s) L))) \<and>
      sl_inv s' L' \<and> max_level s' = max_level s \<and>
      contents (heap s') L' = (contents (heap s) L)(k := None)"
proof -
  from descend_inv [OF inv, of k] obtain update where
    d: "descend (heap s) k (rev [0..<Suc (level_sl s)]) 0 (replicate (max_level s + 1) None)
        = Some (Inr (pred_at (heap s) k 0 L, update))"
    and u: "length update = max_level s + 1" "\<forall>i\<le>level_sl s. update ! i = Some (pred_at (heap s) k i L)"
    by auto
  note f = found_at_inv [OF inv, of k]
  from inv have S: "keys_sorted (heap s) L" and lv: "level_sl s \<le> max_level s"
    by (simp_all add: sl_inv_def)
  note cl = contents_lookup [OF S, of k]
  show ?thesis
  proof (cases "lookup_node (heap s) k L")
    case None
    with cl have n: "contents (heap s) L k = None" by simp
    then have "k \<notin> dom (contents (heap s) L)" by auto
    moreover have "delete_purchase s k = Some (Inr (s, False))"
      unfolding delete_purchase_def Let_def d by (simp add: f None)
    moreover from n have "(contents (heap s) L)(k := None) = contents (heap s) L" by (auto simp: fun_eq_iff)
    ultimately show ?thesis using inv
      by (intro exI [of _ s] exI [of _ L]) simp
  next
    case (Some c)
    with cl have "k \<in> dom (contents (heap s) L)" by auto
    moreover from lv u(1) have "level_sl s < length update" by simp
    from delete_found [OF inv Some u(2) this]
    obtain h' l' L' where r: "unlink (heap s) c update [0..<Suc (level_sl s)] = Inr h'"
      "shrink_level h' (level_sl s) = Inr l'"
      "sl_inv (s\<lparr>heap := h', level_sl := l', size_sl := size_sl s - 1\<rparr>) L'"
      "contents h' L' = (contents (heap s) L)(k := None)"
      by blast
    let ?s = "s\<lparr>heap := h', level_sl := l', size_sl := size_sl s - 1\<rparr>"
    have "delete_purchase s k = Some (Inr (?s, True))"
      unfolding delete_purchase_def Let_def d using r(1,2) by (simp add: f Some del: upt_Suc)
    ultimately show ?thesis using r(3,4)
      by (intro exI [of _ ?s] exI [of _ L']) simp
  qed
qed

subsection \<open>Sequences of skip-list operations\<close>

lemma sl_inv_SkipListPurchaseHistory:
  "sl_inv (SkipListPurchaseHistory ml p) []"
  "contents (heap (SkipListPurchaseHistory ml p)) [] = Map.empty"
  "max_level (SkipListPurchaseHistory ml p) = ml"
  by (simp_all add: sl_inv_def SkipListPurchaseHistory_def create_node_def ht_def keys_sorted_def
      chain_def forward_at_def contents_def nth_Cons split: nat.splits)

lemma run_sl_ops_ok:
  "sl_inv s L \<Longrightarrow>
   \<exists>s' L'. run_sl_ops s ops = Some (Inr s') \<and> sl_inv s' L' \<and>
     contents (heap s') L' = replay_sl (contents (heap s) L) ops"
proof (induction ops arbitrary: s L)
  case Nil
  then show ?case by auto
next
  case (Cons x ops)
  show ?case
  proof (cases x)
    case (AddPurchase k d draws)
    from add_purchase_ok [OF Cons.prems(1), of k d draws]
    obtain s1 L1 where s1: "add_purchase_sl s k d draws = Some (Inr s1)" "sl_inv s1 L1"
      "max_level s1 = max_level s"
      "contents (heap s1) L1 = (contents (heap s) L)(k \<mapsto> stored_data d)"
      unfolding stored_data_def by blast
    from Cons.IH [OF s1(2)]
    obtain s' L' where "run_sl_ops s1 ops = Some (Inr s')" "sl_inv s' L'"
      "contents (heap s') L' = replay_sl (contents (heap s1) L1) ops" by auto
    with s1(1,4) AddPurchase show ?thesis by auto
  next
    case (DeletePurchase k)
    from delete_purchase_ok [OF Cons.prems(1), of k]
    obtain s1 L1 where s1: "delete_purchase s k = Some (Inr (s1, k \<in> dom (contents (heap s) L)))"
      "sl_inv s1 L1" "max_level s1 = max_level s"
      "contents (heap s1) L1 = (contents (heap s) L)(k := None)"
      by blast
    from Cons.IH [OF s1(2)]
    obtain s' L' where "run_sl_ops s1 ops = Some (Inr s')" "sl_inv s' L'"
      "contents (heap s') L' = replay_sl (contents (heap s1) L1) ops" by auto
    with s1(1,4) DeletePurchase show ?thesis by auto
  qed
qed

lemma sl_inv_to_list:
  assumes "sl_inv s L"
  shows "\<exists>ks. to_list s = Some (Inr ks) \<and> sorted_wrt (<) ks \<and> set ks = dom (contents (heap s) L) \<and>
     size_sl s = int (length ks)"
proof -
  let ?ks = "map (\<lambda>n. item_id_sl (heap s ! n)) L"
  from assms have "sorted_wrt (<) ?ks" "size_sl s = int (length ?ks)"
    by (simp_all add: sl_inv_def keys_sorted_def)
  moreover have "set ?ks = dom (contents (heap s) L)" by (simp add: dom_contents)
  ultimately show ?thesis using to_list_ok [OF assms] by blast
qed

lemma strict_sorted_unique:
  fixes xs ys :: "string list"
  assumes "sorted_wrt (<) xs" "sorted_wrt (<) ys" "set xs = set ys"
  shows "xs = ys"
  using assms by (intro sorted_distinct_set_unique) (auto simp: strict_sorted_iff)

text \<open>
  Claim C9. From a fresh skip list, every sequence of \<open>add_purchase\<close> and \<open>delete_purchase\<close>
  calls runs to the end without an error, whatever levels are drawn. In the list reached,
  \<open>to_list\<close> returns the identifiers in strictly ascending order, they are exactly the
  identifiers added and not deleted since, \<open>size\<close> counts them, and \<open>search_purchase\<close> returns
  the data of the most recent \<open>add_purchase\<close> of an identifier that is present and \<open>None\<close> for
  any other. Adding an identifier that is already present leaves \<open>to_list\<close> and \<open>size\<close> as
  they are, and \<open>search_purchase\<close> then returns the new data. \<open>delete_purchase\<close> returns
  whether the identifier was present, and \<open>search_purchase\<close> of it afterwards returns \<open>None\<close>.
\<close>

theorem ordered_sequence_sorted:
  "\<exists>s ks. run_sl_ops (SkipListPurchaseHistory ml p) ops = Some (Inr s)
      \<and> to_list s = Some (Inr ks) \<and> sorted_wrt (<) ks
      \<and> set ks = dom (replay_sl Map.empty ops)
      \<and> size_sl s = int (length ks)
      \<and> (\<forall>k. search_purchase s k = Some (Inr (replay_sl Map.empty ops k)))
      \<and> (\<forall>k d draws. k \<in> set ks \<longrightarrow>
            (\<exists>s'. add_purchase_sl s k d draws = Some (Inr s') \<and> to_list s' = Some (Inr ks)
               \<and> size_sl s' = size_sl s
               \<and> search_purchase s' k = Some (Inr (Some (stored_data d)))))
      \<and> (\<forall>k. \<exists>s'. delete_purchase s k = Some (Inr (s', k \<in> set ks))
               \<and> search_purchase s' k = Some (Inr None))"
proof -
  from run_sl_ops_ok [OF sl_inv_SkipListPurchaseHistory(1), of ml p ops]
  obtain s L where s: "run_sl_ops (SkipListPurchaseHistory ml p) ops = Some (Inr s)" "sl_inv s L"
    "contents (heap s) L = replay_sl Map.empty ops"
    by (auto simp: sl_inv_SkipListPurchaseHistory(2))
  from sl_inv_to_list [OF s(2)] obtain ks where ks: "to_list s = Some (Inr ks)" "sorted_wrt (<) ks"
    "set ks = dom (contents (heap s) L)" "size_sl s = int (length ks)" by blast
  have search: "\<forall>k. search_purchase s k = Some (Inr (replay_sl Map.empty ops k))"
    using search_purchase_ok [OF s(2)] s(3) by simp
  have again: "\<exists>s'. add_purchase_sl s k d draws = Some (Inr s') \<and> to_list s' = Some (Inr ks)
               \<and> size_sl s' = size_sl s
               \<and> search_purchase s' k = Some (Inr (Some (stored_data d)))"
    if k: "k \<in> set ks" for k d draws
  proof -
    from add_purchase_ok [OF s(2), of k d draws]
    obtain s1 L1 where s1: "add_purchase_sl s k d draws = Some (Inr s1)" "sl_inv s1 L1"
      "contents (heap s1) L1 = (contents (heap s) L)(k \<mapsto> stored_data d)"
      unfolding stored_data_def by blast
    from sl_inv_to_list [OF s1(2)] obtain ks1 where ks1: "to_list s1 = Some (Inr ks1)"
      "sorted_wrt (<) ks1" "set ks1 = dom (contents (heap s1) L1)" "size_sl s1 = int (length ks1)"
      by blast
    from ks1(3) s1(3) k ks(3) have "set ks1 = set ks" by auto
    from strict_sorted_unique [OF ks1(2) ks(2) this] have "ks1 = ks" .
    moreover have "search_purchase s1 k = Some (Inr (Some (stored_data d)))"
      using search_purchase_ok [OF s1(2), of k] s1(3) by simp
    ultimately show ?thesis using s1(1) ks1(1,4) ks(4) by auto
  qed
  have del: "\<exists>s'. delete_purchase s k = Some (Inr (s', k \<in> set ks))
               \<and> search_purchase s' k = Some (Inr None)" for k
  proof -
    from delete_purchase_ok [OF s(2), of k]
    obtain s1 L1 where s1: "delete_purchase s k = Some (Inr (s1, k \<in> dom (contents (heap s) L)))"
      "sl_inv s1 L1" "contents (heap s1) L1 = (contents (heap s) L)(k := None)"
      by blast
    have "search_purchase s1 k = Some (Inr None)"
      using search_purchase_ok [OF s1(2), of k] s1(3) by simp
    with s1(1) ks(3) show ?thesis by auto
  qed
  from s(1) ks(1,2,4) ks(3) [unfolded s(3)] search again del show ?thesis by blast
qed

text \<open>
  An instance: two identifiers added, one of them twice, the other deleted, a third added.
\<close>

theorem ordered_sequence_sorted_witness:
  "(\<exists>s. run_sl_ops (SkipListPurchaseHistory 4 (1 / 2)) example_sl_ops = Some (Inr s)
        \<and> to_list s = Some (Inr [''I2'', ''I3''])
        \<and> size_sl s = 2
        \<and> search_purchase s ''I2'' = Some (Inr (Some [(''total_amount'', PyNum 7)]))
        \<and> search_purchase s ''I1'' = Some (Inr None)
        \<and> (\<exists>s'. add_purchase_sl s ''I3'' (Some [(''total_amount'', PyNum 9)]) (heads_then_tail 4) = Some (Inr s')
              \<and> to_list s' = Some (Inr [''I2'', ''I3'']) \<and> size_sl s' = 2
              \<and> search_purchase s' ''I3'' = Some (Inr (Some [(''total_amount'', PyNum 9)])))
        \<and> (\<exists>s'. delete_purchase s ''I2'' = Some (Inr (s', True))
              \<and> search_purchase s' ''I2'' = Some (Inr None)))"
proof -
  have r: "replay_sl Map.empty example_sl_ops =
      [''I2'' \<mapsto> [(''total_amount'', PyNum 7)], ''I3'' \<mapsto> []]"
    by (auto simp: example_sl_ops_def stored_data_def fun_eq_iff)
  from ordered_sequence_sorted [of 4 "1 / 2" example_sl_ops]
  obtain s ks where s: "run_sl_ops (SkipListPurchaseHistory 4 (1 / 2)) example_sl_ops = Some (Inr s)"
    "to_list s = Some (Inr ks)" "sorted_wrt (<) ks" "set ks = dom (replay_sl Map.empty example_sl_ops)"
    "size_sl s = int (length ks)"
    "\<forall>k. search_purchase s k = Some (Inr (replay_sl Map.empty example_sl_ops k))"
    "\<forall>k d draws. k \<in> set ks \<longrightarrow>
            (\<exists>s'. add_purchase_sl s k d draws = Some (Inr s') \<and> to_list s' = Some (Inr ks)
               \<and> size_sl s' = size_sl s
               \<and> search_purchase s' k = Some (Inr (Some (stored_data d))))"
    "\<forall>k. \<exists>s'. delete_purchase s k = Some (Inr (s', k \<in> set ks))
               \<and> search_purchase s' k = Some (Inr None)"
    by blast
  have lt: "''I2'' < ''I3''" by (simp add: less_char_def)
  have "set ks = set [''I2'', ''I3'']" using s(4) unfolding r by auto
  from strict_sorted_unique [OF s(3) _ this] lt have ks: "ks = [''I2'', ''I3'']" by simp
  have a: "search_purchase s ''I2'' = Some (Inr (Some [(''total_amount'', PyNum 7)]))"
    "search_purchase s ''I1'' = Some (Inr None)"
    using s(6) unfolding r by simp_all
  from s(7) [rule_format, of "''I3''" "Some [(''total_amount'', PyNum 9)]" "heads_then_tail 4"]
  have b: "\<exists>s'. add_purchase_sl s ''I3'' (Some [(''total_amount'', PyNum 9)]) (heads_then_tail 4) = Some (Inr s')
              \<and> to_list s' = Some (Inr [''I2'', ''I3'']) \<and> size_sl s' = 2
              \<and> search_purchase s' ''I3'' = Some (Inr (Some [(''total_amount'', PyNum 9)]))"
    using s(5) by (simp add: ks stored_data_def)
  from s(8) [rule_format, of "''I2''"]
  have c: "\<exists>s'. delete_purchase s ''I2'' = Some (Inr (s', True))
              \<and> search_purchase s' ''I2'' = Some (Inr None)"
    by (simp add: ks)
  from s(1) s(2) [unfolded ks] s(5) [unfolded ks] a b c show ?thesis by auto
qed

end
